(* ===== verification/Orca_Prelude.thy ===== *)
theory Orca_Prelude
  imports Main "HOL-Library.Word"
begin

text \<open>
  Shared vocabulary of the OrcaDB development: machine words, byte strings, the faults a C
  operation can run into, the bind of a computation that may fault, and the generic facts on
  words, lists and masked indices that the component theories use. Nothing here models a
  particular file of the program.
\<close>

unbundle bit_operations_syntax

section \<open>Machine types\<close>

type_synonym byte = "8 word"
type_synonym u16 = "16 word"
type_synonym u32 = "32 word"
type_synonym u64 = "64 word"
type_synonym bytes = "byte list"

text \<open>String literals of the source are byte strings.\<close>

definition lit :: "string \<Rightarrow> bytes" where
  "lit s = map (\<lambda>c. of_nat (of_char c)) s"

section \<open>Faults and results\<close>

text \<open>
  The undefined behaviours the modelled code can reach, as values. A C function that may fault
  has a result of type \<open>fault + ...\<close>; a loop that may run forever is an option on top.
\<close>

datatype fault =
    NullDeref
  | UseAfterFree
  | OutOfBounds
  | SignedOverflow
  | DivByZero
  | DataRace

type_synonym 'a res = "fault + 'a"

definition rbind :: "'a res \<Rightarrow> ('a \<Rightarrow> 'b res) \<Rightarrow> 'b res" where
  "rbind r f = (case r of Inl e \<Rightarrow> Inl e | Inr x \<Rightarrow> f x)"

lemma rbind_simps [simp]:
  "rbind (Inl e) f = Inl e"
  "rbind (Inr x) f = f x"
  by (simp_all add: rbind_def)

lemma map_sum_eq_Inr: "map_sum f g x = Inr y \<longleftrightarrow> (\<exists>z. x = Inr z \<and> y = g z)"
  by (cases x) auto

lemma rbind_eq_Inr: "rbind r f = Inr y \<longleftrightarrow> (\<exists>x. r = Inr x \<and> f x = Inr y)"
  by (cases r) auto

section \<open>Words\<close>

named_theorems word_facts \<open>facts on machine words shared by the components\<close>

lemma lit_simps [simp]:
  "lit [] = []"
  "lit (c # s) = of_nat (of_char c) # lit s"
  by (simp_all add: lit_def)

lemma length_lit [simp]: "length (lit s) = length s"
  by (simp add: lit_def)

lemma lit_append [simp]: "lit (s @ t) = lit s @ lit t"
  by (simp add: lit_def)

text \<open>Multiplication by a unit of the ring of words cancels.\<close>

lemma mult_unit_cancel [word_facts]:
  fixes a b p q :: "'a::len word"
  assumes "p * q = 1" "a * p = b * p"
  shows "a = b"
proof -
  have "a = a * p * q" using assms(1) by (simp add: mult.assoc)
  also have "\<dots> = b * p * q" using assms(2) by simp
  also have "\<dots> = b" using assms(1) by (simp add: mult.assoc)
  finally show ?thesis .
qed

lemma xor_cancel_right [word_facts]:
  fixes a b c :: "'a::len word"
  assumes "a XOR c = b XOR c"
  shows "a = b"
  using assms by (metis bit.xor_self xor.assoc xor.right_neutral)

lemma xor_cancel_left [word_facts]:
  fixes a b c :: "'a::len word"
  assumes "c XOR a = c XOR b"
  shows "a = b"
  using assms by (metis bit.xor_self xor.assoc xor.left_neutral)

lemma unat_ucast_byte [word_facts]: "unat (ucast (a :: byte) :: u64) = unat a"
proof -
  have "unat a < 2 ^ 8" using unsigned_less [of a, where ?'a = nat] by simp
  then have "take_bit 64 (unat a) = unat a" by (simp add: take_bit_nat_eq_self)
  then show ?thesis by (simp add: unsigned_ucast_eq)
qed

lemma ucast_byte_inj [word_facts]:
  fixes a b :: byte
  assumes "(ucast a :: u64) = ucast b"
  shows "a = b"
  using assms by (metis unat_ucast_byte word_unat_eq_iff)

lemma unat_less_u64: "unat (x :: u64) < 2 ^ 64"
  using unsigned_less [of x, where ?'a = nat] by simp

lemma unat_of_nat_u64: "a < 2 ^ 64 \<Longrightarrow> unat (of_nat a :: u64) = a"
  by (simp add: unat_of_nat)

lemma of_nat_u64_inj:
  assumes "(of_nat a :: u64) = of_nat b" "a < 2 ^ 64" "b < 2 ^ 64"
  shows "a = b"
  using arg_cong [OF assms(1), of unat] unat_of_nat_u64 [OF assms(2)] unat_of_nat_u64 [OF assms(3)]
  by simp

text \<open>A mask of the form \<open>2 ^ k - 1\<close> is a remainder.\<close>

lemma word_pow2_eq [word_facts]:
  fixes c :: u64
  assumes "unat c = 2 ^ k"
  shows "c = 2 ^ k"
proof -
  have "c = of_nat (unat c)" by (simp only: of_nat_unat ucast_id)
  with assms show ?thesis by simp
qed

lemma unat_and_mask [word_facts]:
  fixes x :: u64
  assumes "unat c = 2 ^ k"
  shows "unat (x AND (c - 1)) = unat x mod unat c"
proof -
  have "c = 2 ^ k" using assms by (rule word_pow2_eq)
  then have "x AND (c - 1) = take_bit k x"
    by (simp add: take_bit_eq_mask mask_eq_exp_minus_1)
  then have "unat (x AND (c - 1)) = take_bit k (unat x)"
    by (simp add: unsigned_take_bit_eq)
  then show ?thesis by (simp add: assms take_bit_eq_mod)
qed

lemma pow2_dvd_64:
  assumes "unat (c :: u64) = 2 ^ k"
  shows "unat c dvd 2 ^ 64"
proof -
  have "(2::nat) ^ k < 2 ^ 64" using unat_less_u64 [of c] assms by simp
  then have "k < 64" by (rule power_less_imp_less_exp [rotated]) simp
  then have "k \<le> 64" by simp
  then show ?thesis using assms le_imp_power_dvd [of k 64 "2::nat"] by simp
qed

lemma unat_succ_mask [word_facts]:
  fixes x :: u64
  assumes "unat c = 2 ^ k"
  shows "unat ((x + 1) AND (c - 1)) = (unat x + 1) mod unat c"
proof -
  have "unat (x + 1) mod unat c = ((unat x + 1) mod 2 ^ 64) mod unat c"
    by (simp add: unat_word_ariths)
  also have "\<dots> = (unat x + 1) mod unat c"
    using pow2_dvd_64 [OF assms] by (rule mod_mod_cancel)
  finally show ?thesis using unat_and_mask [OF assms, of "x + 1"] by simp
qed

section \<open>Little-endian integers\<close>

text \<open>
  \<open>le_word\<close> is the value of an integer object read from its bytes, \<open>le_bytes\<close> the bytes of an
  integer object, on the little-endian target the program is built for.
\<close>

definition le_word :: "bytes \<Rightarrow> 'a::len word" where
  "le_word bs = foldr (\<lambda>b acc. ucast b + 256 * acc) bs 0"

primrec le_bytes :: "nat \<Rightarrow> 'a::len word \<Rightarrow> bytes" where
  "le_bytes 0 w = []"
| "le_bytes (Suc n) w = ucast w # le_bytes n (drop_bit 8 w)"

lemma length_le_bytes [simp]: "length (le_bytes n w) = n"
  by (induction n arbitrary: w) auto

lemma le_word_simps [simp]:
  "le_word [] = 0"
  "le_word (b # bs) = ucast b + 256 * le_word bs"
  by (simp_all add: le_word_def)

lemma ucast_low_byte: "ucast (ucast w :: byte) = take_bit 8 (w :: 'a::len word)"
  by (rule bit_word_eqI) (auto simp: bit_ucast_iff bit_take_bit_iff)

lemma byte_step: "take_bit 8 w + 256 * take_bit n (drop_bit 8 w) = take_bit (8 + n) (w :: 'a::len word)"
proof -
  have "256 * take_bit n (drop_bit 8 w) = push_bit 8 (take_bit n (drop_bit 8 w))"
    by (simp add: push_bit_eq_mult)
  also have "\<dots> = push_bit 8 (drop_bit 8 (take_bit (8 + n) w))"
    by (simp add: take_bit_drop_bit add.commute)
  finally have *: "256 * take_bit n (drop_bit 8 w) = push_bit 8 (drop_bit 8 (take_bit (8 + n) w))" .
  have "take_bit 8 w = take_bit 8 (take_bit (8 + n) w)" by simp
  then show ?thesis using * bits_ident [of 8 "take_bit (8 + n) w"] by (simp add: add.commute)
qed

lemma le_word_le_bytes: "le_word (le_bytes n w) = take_bit (8 * n) (w :: 'a::len word)"
  by (induction n arbitrary: w) (simp_all add: ucast_low_byte byte_step)

lemma le_word_le_bytes_id: "LENGTH('a) \<le> 8 * n \<Longrightarrow> le_word (le_bytes n w) = (w :: 'a::len word)"
  by (simp add: le_word_le_bytes take_bit_word_eq_self)

end
