(* ===== verification/Hash.thy ===== *)
theory Hash
  imports Orca_Prelude
begin

text \<open>
  \<^verbatim>\<open>src/core/hash/hash.c\<close>: the three hash functions. \<open>FNV_1a\<close> is the hash of the hash map,
  \<open>djb2\<close> picks the shard, \<open>xxhash64\<close> is a standalone routine. A buffer and its length are one
  list of bytes; the unaligned loads of \<open>xxhash64\<close> are checked against it.
\<close>

section \<open>FNV-1a and djb2\<close>

definition fnv_step :: "u64 \<Rightarrow> byte \<Rightarrow> u64" where
  "fnv_step hash b = (hash XOR ucast b) * 1099511628211"

definition FNV_1a :: "bytes \<Rightarrow> u64" where
  "FNV_1a data = foldl fnv_step 14695981039346656037 data"

definition djb2_step :: "u64 \<Rightarrow> byte \<Rightarrow> u64" where
  "djb2_step hash b = (push_bit 5 hash + hash) + ucast b"

definition djb2 :: "bytes \<Rightarrow> u64" where
  "djb2 data = foldl djb2_step 5381 data"

section \<open>xxHash64\<close>

definition XXH_PRIME64_1 :: u64 where "XXH_PRIME64_1 = 0x9E3779B185EBCA87"
definition XXH_PRIME64_2 :: u64 where "XXH_PRIME64_2 = 0xC2B2AE3D27D4EB4F"
definition XXH_PRIME64_3 :: u64 where "XXH_PRIME64_3 = 0x165667B19E3779F9"
definition XXH_PRIME64_4 :: u64 where "XXH_PRIME64_4 = 0x85EBCA77C2B2AE63"
definition XXH_PRIME64_5 :: u64 where "XXH_PRIME64_5 = 0x27D4EB2F165667C5"

definition xxh_rotl64 :: "u64 \<Rightarrow> nat \<Rightarrow> u64" where
  "xxh_rotl64 x r = push_bit r x OR drop_bit (64 - r) x"

text \<open>The loads \<open>*(uint64_t*)p\<close>, \<open>*(uint32_t*)p\<close> and \<open>*p\<close> at offset \<open>p\<close> of the buffer.\<close>

definition load64 :: "bytes \<Rightarrow> nat \<Rightarrow> u64 res" where
  "load64 key p =
     (if p + 8 \<le> length key then Inr (le_word (take 8 (drop p key))) else Inl OutOfBounds)"

definition load32 :: "bytes \<Rightarrow> nat \<Rightarrow> u32 res" where
  "load32 key p =
     (if p + 4 \<le> length key then Inr (le_word (take 4 (drop p key))) else Inl OutOfBounds)"

definition load8 :: "bytes \<Rightarrow> nat \<Rightarrow> byte res" where
  "load8 key p = (if p < length key then Inr (key ! p) else Inl OutOfBounds)"

text \<open>One lane of the main loop: \<open>v += input * P2; v = rotl(v, 31); v *= P1\<close>.\<close>

definition xxh_round :: "u64 \<Rightarrow> u64 \<Rightarrow> u64" where
  "xxh_round v x = xxh_rotl64 (v + x * XXH_PRIME64_2) 31 * XXH_PRIME64_1"

type_synonym lanes = "u64 \<times> u64 \<times> u64 \<times> u64"

definition xxh_block :: "bytes \<Rightarrow> nat \<Rightarrow> lanes \<Rightarrow> lanes res" where
  "xxh_block key p = (\<lambda>(v1, v2, v3, v4).
     rbind (load64 key p) (\<lambda>x1.
     rbind (load64 key (p + 8)) (\<lambda>x2.
     rbind (load64 key (p + 16)) (\<lambda>x3.
     rbind (load64 key (p + 24)) (\<lambda>x4.
     Inr (xxh_round v1 x1, xxh_round v2 x2, xxh_round v3 x3, xxh_round v4 x4))))))"

text \<open>The do-while loop over 32-byte blocks; \<open>limit\<close> is \<open>end - 32\<close>.\<close>

function xxh_blocks :: "bytes \<Rightarrow> nat \<Rightarrow> nat \<Rightarrow> lanes \<Rightarrow> (nat \<times> lanes) res" where
  "xxh_blocks key limit p v =
     rbind (xxh_block key p v) (\<lambda>v'.
       if p + 32 \<le> limit then xxh_blocks key limit (p + 32) v' else Inr (p + 32, v'))"
  by pat_completeness auto
termination
  by (relation "measure (\<lambda>(key, limit, p, v). limit - p)") auto

declare xxh_blocks.simps [simp del]

definition xxh_merge :: "u64 \<Rightarrow> u64 \<Rightarrow> u64" where
  "xxh_merge h64 v =
     (h64 XOR (xxh_rotl64 (v * XXH_PRIME64_2) 31 * XXH_PRIME64_1)) * XXH_PRIME64_1
       + XXH_PRIME64_4"

definition xxh_converge :: "lanes \<Rightarrow> u64" where
  "xxh_converge = (\<lambda>(v1, v2, v3, v4).
     let h64 = xxh_rotl64 v1 1 + xxh_rotl64 v2 7 + xxh_rotl64 v3 12 + xxh_rotl64 v4 18
     in xxh_merge (xxh_merge (xxh_merge (xxh_merge h64 v1) v2) v3) v4)"

text \<open>The three loops over what is left: words, at most one half word, bytes.\<close>

definition xxh_word_step :: "u64 \<Rightarrow> u64 \<Rightarrow> u64" where
  "xxh_word_step h64 k =
     xxh_rotl64 (h64 XOR (xxh_rotl64 (k * XXH_PRIME64_2) 31 * XXH_PRIME64_1)) 27
       * XXH_PRIME64_1 + XXH_PRIME64_4"

definition xxh_half_step :: "u64 \<Rightarrow> u32 \<Rightarrow> u64" where
  "xxh_half_step h64 k =
     xxh_rotl64 (h64 XOR (ucast k * XXH_PRIME64_1)) 23 * XXH_PRIME64_2 + XXH_PRIME64_3"

definition xxh_byte_step :: "u64 \<Rightarrow> byte \<Rightarrow> u64" where
  "xxh_byte_step h64 k =
     xxh_rotl64 (h64 XOR (ucast k * XXH_PRIME64_5)) 11 * XXH_PRIME64_1"

function xxh_words :: "bytes \<Rightarrow> nat \<Rightarrow> u64 \<Rightarrow> (nat \<times> u64) res" where
  "xxh_words key p h64 =
     (if p + 8 \<le> length key
      then rbind (load64 key p) (\<lambda>k.
        xxh_words key (p + 8) (xxh_word_step h64 k))
      else Inr (p, h64))"
  by pat_completeness auto
termination
  by (relation "measure (\<lambda>(key, p, h64). length key - p)") auto

declare xxh_words.simps [simp del]

definition xxh_half :: "bytes \<Rightarrow> nat \<Rightarrow> u64 \<Rightarrow> (nat \<times> u64) res" where
  "xxh_half key p h64 =
     (if p + 4 \<le> length key
      then rbind (load32 key p) (\<lambda>k. Inr (p + 4, xxh_half_step h64 k))
      else Inr (p, h64))"

function xxh_tail :: "bytes \<Rightarrow> nat \<Rightarrow> u64 \<Rightarrow> u64 res" where
  "xxh_tail key p h64 =
     (if p < length key
      then rbind (load8 key p) (\<lambda>k. xxh_tail key (p + 1) (xxh_byte_step h64 k))
      else Inr h64)"
  by pat_completeness auto
termination
  by (relation "measure (\<lambda>(key, p, h64). length key - p)") auto

declare xxh_tail.simps [simp del]

definition xxh_avalanche :: "u64 \<Rightarrow> u64" where
  "xxh_avalanche h64 =
     (let a = (h64 XOR drop_bit 33 h64) * XXH_PRIME64_2;
          b = (a XOR drop_bit 29 a) * XXH_PRIME64_3
      in b XOR drop_bit 32 b)"

definition xxhash64 :: "bytes \<Rightarrow> u64 res" where
  "xxhash64 key =
     (let len = length key in
      rbind (if 32 \<le> len
             then rbind (xxh_blocks key (len - 32) 0
                     (XXH_PRIME64_1 + XXH_PRIME64_2, XXH_PRIME64_2, 0, - XXH_PRIME64_1))
                   (\<lambda>(p, v). Inr (p, xxh_converge v))
             else Inr (0, XXH_PRIME64_5)) (\<lambda>(p, h64).
      rbind (xxh_words key p (h64 + of_nat len)) (\<lambda>(p, h64).
      rbind (xxh_half key p h64) (\<lambda>(p, h64).
      rbind (xxh_tail key p h64) (\<lambda>h64.
      Inr (xxh_avalanche h64))))))"

section \<open>Single-byte changes are never hash collisions\<close>

text \<open>
  Both string hashes are folds of a step that is injective in the running hash and in the byte.
  The locale states that contract; any two inputs that differ in one byte then hash differently.
\<close>

locale byte_hash =
  fixes step :: "u64 \<Rightarrow> byte \<Rightarrow> u64"
  assumes step_inj_state: "step h b = step h' b \<Longrightarrow> h = h'"
    and step_inj_byte: "step h b = step h c \<Longrightarrow> b = c"
begin

lemma fold_inj_state: "foldl step h bs = foldl step h' bs \<Longrightarrow> h = h'"
  by (induction bs arbitrary: h h') (auto dest: step_inj_state)

lemma fold_one_byte: "foldl step h (xs @ b # ys) = foldl step h (xs @ c # ys) \<longleftrightarrow> b = c"
  by (auto dest: fold_inj_state step_inj_byte)

end

lemma fnv_prime_unit: "(1099511628211 :: u64) * 14886173955864302971 = 1"
  by simp

interpretation fnv_hash: byte_hash fnv_step
proof
  fix h h' b
  assume "fnv_step h b = fnv_step h' b"
  then have "(h XOR ucast b) * 1099511628211 = (h' XOR ucast b) * 1099511628211"
    by (simp only: fnv_step_def)
  then have "h XOR ucast b = h' XOR ucast b"
    by (rule mult_unit_cancel [OF fnv_prime_unit])
  then show "h = h'" by (rule xor_cancel_right)
next
  fix h b c
  assume "fnv_step h b = fnv_step h c"
  then have "(h XOR ucast b) * 1099511628211 = (h XOR ucast c) * 1099511628211"
    by (simp only: fnv_step_def)
  then have "h XOR ucast b = h XOR ucast c"
    by (rule mult_unit_cancel [OF fnv_prime_unit])
  then have "(ucast b :: u64) = ucast c" by (rule xor_cancel_left)
  then show "b = c" by (rule ucast_byte_inj)
qed

lemma djb2_prime_unit: "(33 :: u64) * 1117984489315730401 = 1"
  by simp

lemma djb2_step_times: "djb2_step h b = h * 33 + ucast b"
  by (simp add: djb2_step_def push_bit_eq_mult algebra_simps)

interpretation djb2_hash: byte_hash djb2_step
proof
  fix h h' b
  assume "djb2_step h b = djb2_step h' b"
  then have "h * 33 = h' * 33" by (simp add: djb2_step_times)
  then show "h = h'" by (rule mult_unit_cancel [OF djb2_prime_unit])
next
  fix h b c
  assume "djb2_step h b = djb2_step h c"
  then have "(ucast b :: u64) = ucast c" by (simp add: djb2_step_times)
  then show "b = c" by (rule ucast_byte_inj)
qed

section \<open>The reference xxHash64\<close>

text \<open>
  The algorithm as its specification words it: whole stripes, then whole words, then a half
  word, then bytes, each step a fold over the chunks that division by the chunk size gives.
\<close>

definition chunk :: "nat \<Rightarrow> bytes \<Rightarrow> nat \<Rightarrow> bytes" where
  "chunk n bs i = take n (drop (n * i) bs)"

definition xxh_stripe :: "lanes \<Rightarrow> bytes \<Rightarrow> lanes" where
  "xxh_stripe = (\<lambda>(v1, v2, v3, v4) s.
     (xxh_round v1 (le_word (chunk 8 s 0)), xxh_round v2 (le_word (chunk 8 s 1)),
      xxh_round v3 (le_word (chunk 8 s 2)), xxh_round v4 (le_word (chunk 8 s 3))))"

definition xxh64_ref :: "bytes \<Rightarrow> u64" where
  "xxh64_ref bs =
     (let n32 = length bs div 32;
          start = (XXH_PRIME64_1 + XXH_PRIME64_2, XXH_PRIME64_2, 0, - XXH_PRIME64_1);
          acc = (if 32 \<le> length bs
                 then xxh_converge (foldl xxh_stripe start (map (chunk 32 bs) [0..<n32]))
                 else XXH_PRIME64_5);
          r = drop (32 * n32) bs;
          n8 = length r div 8;
          h1 = foldl xxh_word_step (acc + of_nat (length bs))
                 (map (\<lambda>i. le_word (chunk 8 r i)) [0..<n8]);
          r' = drop (8 * n8) r;
          h2 = (if 4 \<le> length r' then xxh_half_step h1 (le_word (take 4 r')) else h1);
          r'' = (if 4 \<le> length r' then drop 4 r' else r')
      in xxh_avalanche (foldl xxh_byte_step h2 r''))"

lemma xxh_block_stripe:
  assumes "p + 32 \<le> length key"
  shows "xxh_block key p v = Inr (xxh_stripe v (take 32 (drop p key)))"
  using assms
  by (cases v) (simp add: xxh_block_def xxh_stripe_def load64_def chunk_def take_drop min_def add.commute)

lemma xxh_blocks_fold:
  assumes "i < length key div 32"
  shows "xxh_blocks key (length key - 32) (32 * i) v =
    Inr (32 * (length key div 32),
      foldl xxh_stripe v (map (chunk 32 key) [i..<length key div 32]))"
  using assms
proof (induction "length key div 32 - i" arbitrary: i v)
  case 0
  then show ?case by simp
next
  case (Suc d)
  let ?n = "length key div 32"
  have blk: "xxh_block key (32 * i) v = Inr (xxh_stripe v (chunk 32 key i))"
    using Suc.prems by (subst xxh_block_stripe) (auto simp: chunk_def)
  have upt: "[i..<?n] = i # [Suc i..<?n]" using Suc.prems by (simp add: upt_conv_Cons)
  show ?case
  proof (cases "Suc i < ?n")
    case True
    then have "32 * i + 32 \<le> length key - 32" by linarith
    then show ?thesis
      using Suc.hyps(1) [of "Suc i" "xxh_stripe v (chunk 32 key i)"] Suc.hyps(2) True blk upt
      by (subst xxh_blocks.simps) (simp add: add.commute)
  next
    case False
    then have n: "?n = Suc i" using Suc.prems by simp
    then have "\<not> 32 * i + 32 \<le> length key - 32" by linarith
    then show ?thesis using blk n by (subst xxh_blocks.simps) simp
  qed
qed

lemma load64_chunk: 
  assumes "8 * i + 8 \<le> length r" "key = pre @ r"
  shows "load64 key (length pre + 8 * i) = Inr (le_word (chunk 8 r i))"
  using assms by (simp add: load64_def chunk_def)

lemma xxh_words_fold:
  assumes "i \<le> length r div 8" and key: "key = pre @ r"
  shows "xxh_words key (length pre + 8 * i) h =
    Inr (length pre + 8 * (length r div 8),
      foldl xxh_word_step h (map (\<lambda>i. le_word (chunk 8 r i)) [i..<length r div 8]))"
  using assms(1)
proof (induction "length r div 8 - i" arbitrary: i h)
  case 0
  then have i: "i = length r div 8" by simp
  then have "\<not> length pre + 8 * i + 8 \<le> length key" using key by simp
  then show ?case using i by (subst xxh_words.simps) simp
next
  case (Suc d)
  then have i: "8 * i + 8 \<le> length r" by linarith
  have upt: "[i..<length r div 8] = i # [Suc i..<length r div 8]"
    using Suc.hyps(2) by (simp add: upt_conv_Cons)
  show ?case
    using Suc.hyps(1) [of "Suc i" "xxh_word_step h (le_word (chunk 8 r i))"] Suc.hyps(2) i key
      load64_chunk [OF i key] upt
    by (subst xxh_words.simps) (simp add: ac_simps)
qed

lemma xxh_tail_fold: "xxh_tail (pre @ r) (length pre) h = Inr (foldl xxh_byte_step h r)"
proof (induction r arbitrary: pre h)
  case Nil
  show ?case by (subst xxh_tail.simps) simp
next
  case (Cons b r)
  show ?case using Cons.IH [of "pre @ [b]" "xxh_byte_step h b"]
    by (subst xxh_tail.simps) (simp add: load8_def nth_append)
qed

lemma xxh_half_eq: "xxh_half (pre @ r) (length pre) h =
   (if 4 \<le> length r then Inr (length pre + 4, xxh_half_step h (le_word (take 4 r))) else Inr (length pre, h))"
  by (simp add: xxh_half_def load32_def)

lemma xxh_rest:
  fixes r h
  defines "n8 \<equiv> length r div 8"
  defines "r' \<equiv> drop (8 * n8) r"
  defines "h1 \<equiv> foldl xxh_word_step h (map (\<lambda>i. le_word (chunk 8 r i)) [0..<n8])"
  shows
    "rbind (xxh_words (pre @ r) (length pre) h) (\<lambda>(p, h64).
       rbind (xxh_half (pre @ r) p h64) (\<lambda>(p, h64).
       rbind (xxh_tail (pre @ r) p h64) f)) =
     f (foldl xxh_byte_step
          (if 4 \<le> length r' then xxh_half_step h1 (le_word (take 4 r')) else h1)
          (if 4 \<le> length r' then drop 4 r' else r'))"
proof -
  have w: "xxh_words (pre @ r) (length pre) h = Inr (length pre + 8 * n8, h1)"
    using xxh_words_fold [of 0 r "pre @ r" pre h] by (simp add: n8_def h1_def)
  have key: "pre @ r = (pre @ take (8 * n8) r) @ r'" by (simp add: r'_def)
  have len: "length (pre @ take (8 * n8) r) = length pre + 8 * n8"
    by (simp add: n8_def)
  note half = xxh_half_eq [of "pre @ take (8 * n8) r" r' h1, folded key, unfolded len]
  show ?thesis
  proof (cases "4 \<le> length r'")
    case True
    have key': "pre @ r = (pre @ take (8 * n8) r @ take 4 r') @ drop 4 r'"
      using key by (simp only: append.assoc append_take_drop_id)
    have len': "length (pre @ take (8 * n8) r @ take 4 r') = length pre + 8 * n8 + 4"
      using True by (simp add: n8_def)
    show ?thesis
      using w half True
        xxh_tail_fold [of "pre @ take (8 * n8) r @ take 4 r'" "drop 4 r'",
          folded key', unfolded len']
      by (simp only: rbind_simps prod.case if_True)
  next
    case False
    show ?thesis
      using w half False
        xxh_tail_fold [of "pre @ take (8 * n8) r" r', folded key, unfolded len]
      by (simp only: rbind_simps prod.case if_False)
  qed
qed


section \<open>Properties\<close>

text \<open>
  C27. \<open>xxhash64\<close> computes xxHash64: on every input its pointer-walking loops return the value of
  the reference algorithm, and every load they make lies inside the buffer (no fault).
\<close>

theorem xxhash64_ref: "xxhash64 key = Inr (xxh64_ref key)"
proof -
  define n where "n = length key div 32"
  define pre where "pre = take (32 * n) key"
  define r where "r = drop (32 * n) key"
  have key: "key = pre @ r" by (simp add: pre_def r_def)
  have len: "length pre = 32 * n" by (simp add: pre_def n_def)
  define acc where "acc = (if 32 \<le> length key
      then xxh_converge (foldl xxh_stripe
        (XXH_PRIME64_1 + XXH_PRIME64_2, XXH_PRIME64_2, 0, - XXH_PRIME64_1)
        (map (chunk 32 key) [0..<n])) else XXH_PRIME64_5)"
  have start: "(if 32 \<le> length key
             then rbind (xxh_blocks key (length key - 32) 0
                     (XXH_PRIME64_1 + XXH_PRIME64_2, XXH_PRIME64_2, 0, - XXH_PRIME64_1))
                   (\<lambda>(p, v). Inr (p, xxh_converge v))
             else Inr (0, XXH_PRIME64_5)) = Inr (length pre, acc)"
  proof (cases "32 \<le> length key")
    case True
    then have "0 < length key div 32" by linarith
    then show ?thesis using True xxh_blocks_fold [of 0 key] by (simp add: acc_def len n_def)
  next
    case False
    then show ?thesis by (simp add: acc_def len n_def)
  qed
  show ?thesis
    unfolding xxhash64_def Let_def start rbind_simps prod.case
      xxh_rest [of pre r "acc + of_nat (length key)", folded key]
    by (simp only: xxh64_ref_def Let_def acc_def n_def r_def)
qed
text \<open>The published test vectors.\<close>

lemma xxhash64_empty: "xxhash64 [] = Inr 0xEF46DB3751D8E999"
  by code_simp

lemma xxhash64_abc: "xxhash64 (lit ''abc'') = Inr 0x44BC2CF5AD770999"
  by code_simp

text \<open>
  Two keys that differ in exactly one byte never collide under \<open>FNV_1a\<close>, the hash the map
  compares before it compares keys.
\<close>

theorem FNV_1a_one_byte: "FNV_1a (xs @ b # ys) = FNV_1a (xs @ c # ys) \<longleftrightarrow> b = c"
  by (simp only: FNV_1a_def fnv_hash.fold_one_byte)

text \<open>The same holds of \<open>djb2\<close>, the hash that picks a shard.\<close>

theorem djb2_one_byte: "djb2 (xs @ b # ys) = djb2 (xs @ c # ys) \<longleftrightarrow> b = c"
  by (simp only: djb2_def djb2_hash.fold_one_byte)

end
