(* ===== verification/C_Memory.thy ===== *)
theory C_Memory
  imports Orca_Prelude
begin

text \<open>
  The part of the C abstract machine the program leans on: objects obtained from
  \<open>malloc\<close>/\<open>calloc\<close>/\<open>aligned_alloc\<close>, pointers into them, and the string and memory functions of
  \<open>string.h\<close>. A pointer is \<open>NULL\<close> or a block and an offset, so that an interior pointer (an arena
  allocation) and a dangling pointer (a freed block) are values the model can tell apart. Reading
  through a bad pointer is a fault, never an unspecified value.
\<close>

datatype ptr = NULL | Ptr nat nat

record mem =
  blocks :: "nat \<Rightarrow> bytes option"
  next_block :: nat
  avail :: nat

text \<open>
  \<open>avail\<close> is the number of bytes the allocator can still hand out; an allocation that does not
  fit returns \<open>NULL\<close>. \<open>init\<close> is the contents of the new object (zeros for \<open>calloc\<close>,
  indeterminate, hence a parameter, for the others).
\<close>

definition mem_init :: "nat \<Rightarrow> mem" where
  "mem_init budget = \<lparr>blocks = (\<lambda>_. None), next_block = 0, avail = budget\<rparr>"

definition mem_alloc :: "mem \<Rightarrow> bytes \<Rightarrow> ptr \<times> mem" where
  "mem_alloc m init =
     (if length init \<le> avail m
      then (Ptr (next_block m) 0,
            m\<lparr>blocks := (blocks m)(next_block m \<mapsto> init),
              next_block := Suc (next_block m),
              avail := avail m - length init\<rparr>)
      else (NULL, m))"

text \<open>Storage whose bytes the model keeps elsewhere (a struct held as a record) is only counted.\<close>

definition mem_reserve :: "mem \<Rightarrow> nat \<Rightarrow> mem option" where
  "mem_reserve m n = (if n \<le> avail m then Some (m\<lparr>avail := avail m - n\<rparr>) else None)"

definition mem_release :: "mem \<Rightarrow> nat \<Rightarrow> mem" where
  "mem_release m n = m\<lparr>avail := avail m + n\<rparr>"

definition mem_free :: "mem \<Rightarrow> ptr \<Rightarrow> mem res" where
  "mem_free m p =
     (case p of
        NULL \<Rightarrow> Inr m
      | Ptr b off \<Rightarrow>
          (case blocks m b of
             None \<Rightarrow> Inl UseAfterFree
           | Some bs \<Rightarrow>
               if off = 0
               then Inr (m\<lparr>blocks := (blocks m)(b := None), avail := avail m + length bs\<rparr>)
               else Inl OutOfBounds))"

definition mem_block :: "mem \<Rightarrow> ptr \<Rightarrow> bytes res" where
  "mem_block m p =
     (case p of
        NULL \<Rightarrow> Inl NullDeref
      | Ptr b off \<Rightarrow>
          (case blocks m b of
             None \<Rightarrow> Inl UseAfterFree
           | Some bs \<Rightarrow> if off \<le> length bs then Inr (drop off bs) else Inl OutOfBounds))"

definition mem_read :: "mem \<Rightarrow> ptr \<Rightarrow> nat \<Rightarrow> bytes res" where
  "mem_read m p n =
     (if n = 0 then Inr []
      else rbind (mem_block m p)
             (\<lambda>bs. if n \<le> length bs then Inr (take n bs) else Inl OutOfBounds))"

definition mem_write :: "mem \<Rightarrow> ptr \<Rightarrow> bytes \<Rightarrow> mem res" where
  "mem_write m p data =
     (if data = [] then Inr m
      else case p of
        NULL \<Rightarrow> Inl NullDeref
      | Ptr b off \<Rightarrow>
          (case blocks m b of
             None \<Rightarrow> Inl UseAfterFree
           | Some bs \<Rightarrow>
               if off + length data \<le> length bs
               then Inr (m\<lparr>blocks := (blocks m)
                            (b \<mapsto> take off bs @ data @ drop (off + length data) bs)\<rparr>)
               else Inl OutOfBounds))"

text \<open>The string at a pointer: its bytes up to the first NUL, which must lie in the object.\<close>

definition c_string :: "mem \<Rightarrow> ptr \<Rightarrow> bytes res" where
  "c_string m p =
     rbind (mem_block m p)
       (\<lambda>bs. if 0 \<in> set bs then Inr (takeWhile (\<lambda>b. b \<noteq> 0) bs) else Inl OutOfBounds)"

fun ptr_add :: "ptr \<Rightarrow> nat \<Rightarrow> ptr" where
  "ptr_add NULL n = NULL"
| "ptr_add (Ptr b off) n = Ptr b (off + n)"

section \<open>Well-formed memories\<close>

definition mem_ok :: "mem \<Rightarrow> bool" where
  "mem_ok m \<longleftrightarrow> (\<forall>b. next_block m \<le> b \<longrightarrow> blocks m b = None)"

lemma mem_ok_init [simp]: "mem_ok (mem_init budget)"
  by (simp add: mem_ok_def mem_init_def)

lemma mem_ok_alloc: "mem_ok m \<Longrightarrow> mem_ok (snd (mem_alloc m init))"
  by (auto simp: mem_ok_def mem_alloc_def)

lemma mem_alloc_fits:
  "length init \<le> avail m \<Longrightarrow> \<exists>m'. mem_alloc m init = (Ptr (next_block m) 0, m')"
  by (simp add: mem_alloc_def)

text \<open>Old objects survive an allocation.\<close>

lemma mem_block_alloc:
  assumes "mem_ok m" "mem_block m p = Inr bs"
  shows "mem_block (snd (mem_alloc m init)) p = Inr bs"
  using assms
  by (cases p) (auto simp: mem_block_def mem_alloc_def mem_ok_def split: option.splits)

lemma c_string_alloc:
  assumes "mem_ok m" "c_string m p = Inr s"
  shows "c_string (snd (mem_alloc m init)) p = Inr s"
  using assms mem_block_alloc [of m p _ init] by (auto simp: c_string_def rbind_eq_Inr split: if_splits)

text \<open>A buffer that holds a NUL-free string and its terminator reads back as that string.\<close>

lemma takeWhile_nul_append:
  assumes "(0::byte) \<notin> set s"
  shows "takeWhile (\<lambda>b. b \<noteq> 0) (s @ 0 # rest) = s"
proof -
  have "takeWhile (\<lambda>b. b \<noteq> 0) (s @ 0 # rest) = s @ takeWhile (\<lambda>b. b \<noteq> 0) (0 # rest)"
    using assms by (intro takeWhile_append2) auto
  then show ?thesis by simp
qed

lemma c_string_new:
  assumes "0 \<notin> set s" "length s < avail m"
  shows "c_string (snd (mem_alloc m (s @ [0]))) (fst (mem_alloc m (s @ [0]))) = Inr s"
  using assms by (simp add: c_string_def mem_alloc_def mem_block_def takeWhile_nul_append)

lemma mem_read_length: "mem_read m p n = Inr bs \<Longrightarrow> length bs = n"
  by (auto simp: mem_read_def rbind_eq_Inr split: if_splits)

lemma c_string_nul_free: "c_string m p = Inr s \<Longrightarrow> 0 \<notin> set s"
  by (auto simp: c_string_def rbind_eq_Inr dest: set_takeWhileD split: if_splits)

lemma c_string_read:
  assumes "c_string m p = Inr s"
  shows "mem_read m p (length s) = Inr s"
proof -
  from assms obtain bs where bs: "mem_block m p = Inr bs" "s = takeWhile (\<lambda>b. b \<noteq> 0) bs"
    by (auto simp: c_string_def rbind_eq_Inr split: if_splits)
  have "length s \<le> length bs" using bs(2) by (simp add: length_takeWhile_le)
  moreover have "take (length s) bs = s"
    using bs(2) takeWhile_eq_take [of "\<lambda>b. b \<noteq> 0" bs] by simp
  ultimately show ?thesis using bs(1) by (auto simp: mem_read_def)
qed

lemma c_string_freed [simp]:
  "c_string (m\<lparr>blocks := (blocks m)(b := None)\<rparr>) (Ptr b off) = Inl UseAfterFree"
  by (simp add: c_string_def mem_block_def)

end
