(* ===== verification/Arena.thy ===== *)
theory Arena
  imports C_Memory
begin

text \<open>
  \<^verbatim>\<open>src/core/arena/arena.c\<close>: the bump allocator that holds a shard's keys and values. The struct is
  a record; sizes are 64-bit and the rounding and the bounds test wrap as \<open>size_t\<close> does.
\<close>

record arena =
  arena_base :: ptr
  arena_size :: u64
  arena_offset :: u64

text \<open>\<open>sizeof(arena)\<close>; \<open>fill\<close> is what \<open>aligned_alloc\<close> leaves in the fresh object.\<close>

definition arena_create :: "mem \<Rightarrow> u64 \<Rightarrow> (nat \<Rightarrow> byte) \<Rightarrow> arena option \<times> mem" where
  "arena_create m sz fill =
     (case mem_reserve m 24 of
        None \<Rightarrow> (None, m)
      | Some m1 \<Rightarrow>
          (case mem_alloc m1 (map fill [0..<unat sz]) of
             (NULL, m2) \<Rightarrow> (None, mem_release m2 24)
           | (p, m2) \<Rightarrow>
               (Some \<lparr>arena_base = p, arena_size = sz, arena_offset = 0\<rparr>, m2)))"

definition align8 :: "u64 \<Rightarrow> u64" where
  "align8 sz = (sz + 7) AND NOT 7"

definition arena_alloc :: "arena \<Rightarrow> u64 \<Rightarrow> ptr \<times> arena" where
  "arena_alloc a sz =
     (let n = align8 sz in
      if arena_size a < arena_offset a + n then (NULL, a)
      else (ptr_add (arena_base a) (unat (arena_offset a)),
            a\<lparr>arena_offset := arena_offset a + n\<rparr>))"

definition arena_reset :: "arena \<Rightarrow> arena" where
  "arena_reset a = a\<lparr>arena_offset := 0\<rparr>"

definition arena_free :: "mem \<Rightarrow> arena \<Rightarrow> mem res" where
  "arena_free m a = rbind (mem_free m (arena_base a)) (\<lambda>m'. Inr (mem_release m' 24))"

section \<open>Rounding\<close>

lemma align8_div: "align8 s = push_bit 3 (drop_bit 3 (s + 7))"
proof -
  have "(7 :: u64) = mask 3" by (simp add: mask_eq_exp_minus_1)
  then have "align8 s = (s + 7) AND NOT (mask 3)" by (simp only: align8_def)
  also have "\<dots> = push_bit 3 (drop_bit 3 (s + 7))"
    by (intro bit_word_eqI) (auto simp: bit_simps)
  finally show ?thesis .
qed

lemma unat_align8:
  assumes "unat s + 7 < 2 ^ 64"
  shows "unat (align8 s) = 8 * ((unat s + 7) div 8)"
proof -
  have s7: "unat (s + 7) = unat s + 7" using assms by (simp add: unat_word_ariths)
  have d: "unat (drop_bit 3 (s + 7)) = (unat s + 7) div 8"
    by (simp only: unat_drop_bit_eq) (simp add: drop_bit_eq_div s7)
  have "align8 s = 8 * drop_bit 3 (s + 7)"
    by (simp add: align8_div push_bit_eq_mult mult.commute)
  then have "unat (align8 s) = (8 * ((unat s + 7) div 8)) mod 2 ^ 64"
    by (simp only: unat_word_ariths d) simp
  also have "\<dots> = 8 * ((unat s + 7) div 8)"
    by (rule mod_less) (use assms in linarith)
  finally show ?thesis .
qed

lemma align8_wraps:
  assumes "2 ^ 64 \<le> unat s + 7"
  shows "align8 s = 0"
proof -
  have "unat (s + 7) = unat s + 7 - 2 ^ 64" using assms by (simp add: unat_plus_if')
  also have "\<dots> < 8" using unat_less_u64 [of s] by linarith
  finally have "unat (drop_bit 3 (s + 7)) = 0"
    by (simp only: unat_drop_bit_eq) (simp add: drop_bit_eq_div)
  then show ?thesis by (simp only: align8_div unat_0_iff push_bit_of_0)
qed

section \<open>The arena invariant\<close>

text \<open>
  The base is an object of its own, the offset is aligned and inside the arena, and the arena is
  not larger than half the address space (the program's are 8 and 32 megabytes).
\<close>

definition arena_ok :: "arena \<Rightarrow> bool" where
  "arena_ok a \<longleftrightarrow>
     (\<exists>b. arena_base a = Ptr b 0) \<and> arena_offset a \<le> arena_size a
     \<and> 8 dvd unat (arena_offset a) \<and> unat (arena_size a) \<le> 2 ^ 63"

text \<open>The bytes a request takes, when neither the rounding nor the sum wraps.\<close>

definition rounded :: "u64 \<Rightarrow> nat" where
  "rounded s = 8 * ((unat s + 7) div 8)"

lemma rounded_ge: "unat s \<le> rounded s"
  by (simp add: rounded_def)

text \<open>What a caller may ask for without wrapping anything.\<close>

abbreviation sane_request :: "u64 \<Rightarrow> bool" where
  "sane_request s \<equiv> unat s < 2 ^ 63 - 8"

lemma arena_sum:
  assumes "arena_ok a" "sane_request s"
  shows "unat (arena_offset a + align8 s) = unat (arena_offset a) + rounded s"
proof -
  have s7: "unat s + 7 < 2 ^ 64" using assms(2) by simp
  have "unat (arena_offset a) \<le> 2 ^ 63"
    using assms(1) by (auto simp: arena_ok_def word_le_nat_alt)
  moreover have "rounded s < 2 ^ 63" using assms(2) by (simp add: rounded_def)
  ultimately have "unat (arena_offset a) + unat (align8 s) < 2 ^ 64"
    unfolding unat_align8 [OF s7] rounded_def by simp
  then show ?thesis
    using unat_align8 [OF s7] by (simp add: unat_plus_if' rounded_def)
qed

lemma arena_alloc_cases:
  assumes "arena_ok a" "sane_request s" "arena_base a = Ptr b 0"
  shows "arena_alloc a s =
    (if unat (arena_offset a) + rounded s \<le> unat (arena_size a)
     then (Ptr b (unat (arena_offset a)),
           a\<lparr>arena_offset := arena_offset a + align8 s\<rparr>)
     else (NULL, a))"
  using assms arena_sum [OF assms(1,2)]
  by (auto simp: arena_alloc_def Let_def word_less_nat_alt)

lemma arena_alloc_ok:
  assumes "arena_ok a" "sane_request s"
  shows "arena_ok (snd (arena_alloc a s))"
proof -
  obtain b where b: "arena_base a = Ptr b 0" using assms(1) by (auto simp: arena_ok_def)
  show ?thesis
    using assms arena_sum [OF assms]
    by (auto simp: arena_alloc_cases [OF assms b] arena_ok_def word_le_nat_alt rounded_def)
qed

lemma arena_reset_ok: "arena_ok a \<Longrightarrow> arena_ok (arena_reset a)"
  by (auto simp: arena_ok_def arena_reset_def word_le_nat_alt)

section \<open>Allocators that hand out disjoint regions\<close>

text \<open>
  What a client of a region allocator may rely on: every region lies between what was in use
  before and what is in use after. A run of requests then yields disjoint regions inside the
  limit, whatever the allocator does with the requests it refuses.
\<close>

fun grab_all :: "('a \<Rightarrow> 'r \<Rightarrow> (nat \<times> nat) option \<times> 'a) \<Rightarrow> 'a \<Rightarrow> 'r list \<Rightarrow> (nat \<times> nat) list" where
  "grab_all grab a [] = []"
| "grab_all grab a (r # rs) =
     (case grab a r of
        (None, a') \<Rightarrow> grab_all grab a' rs
      | (Some reg, a') \<Rightarrow> reg # grab_all grab a' rs)"

definition before :: "nat \<times> nat \<Rightarrow> nat \<times> nat \<Rightarrow> bool" where
  "before r r' \<longleftrightarrow> snd r \<le> fst r'"

locale region_allocator =
  fixes inv :: "'a \<Rightarrow> bool" and used :: "'a \<Rightarrow> nat" and limit :: "'a \<Rightarrow> nat"
    and grab :: "'a \<Rightarrow> 'r \<Rightarrow> (nat \<times> nat) option \<times> 'a" and allowed :: "'r \<Rightarrow> bool"
  assumes grab_inv: "inv a \<Longrightarrow> allowed r \<Longrightarrow> inv (snd (grab a r))"
    and grab_limit: "inv a \<Longrightarrow> allowed r \<Longrightarrow> limit (snd (grab a r)) = limit a"
    and grab_mono: "inv a \<Longrightarrow> allowed r \<Longrightarrow> used a \<le> used (snd (grab a r))"
    and grab_region: "inv a \<Longrightarrow> allowed r \<Longrightarrow> grab a r = (Some reg, a') \<Longrightarrow>
      used a \<le> fst reg \<and> snd reg \<le> used a'"
    and used_limit: "inv a \<Longrightarrow> used a \<le> limit a"
begin

lemma regions_above:
  "inv a \<Longrightarrow> list_all allowed rs \<Longrightarrow> reg \<in> set (grab_all grab a rs) \<Longrightarrow> used a \<le> fst reg"
proof (induction rs arbitrary: a)
  case (Cons r rs)
  obtain o' a' where g: "grab a r = (o', a')" by (cases "grab a r")
  have *: "inv a'" "used a \<le> used a'"
    using grab_inv [of a r] grab_mono [of a r] Cons.prems g by auto
  have "used a \<le> used a' \<Longrightarrow> reg \<in> set (grab_all grab a' rs) \<Longrightarrow> used a \<le> fst reg"
    using Cons.IH [OF *(1)] Cons.prems(2) by fastforce
  then show ?case
    using g Cons.prems grab_region [of a r] * by (cases o') auto
qed simp

lemma regions_below:
  "inv a \<Longrightarrow> list_all allowed rs \<Longrightarrow> reg \<in> set (grab_all grab a rs) \<Longrightarrow> snd reg \<le> limit a"
proof (induction rs arbitrary: a)
  case (Cons r rs)
  obtain o' a' where g: "grab a r = (o', a')" by (cases "grab a r")
  have *: "inv a'" "limit a' = limit a"
    using grab_inv [of a r] grab_limit [of a r] Cons.prems g by auto
  have **: "snd reg \<le> limit a" if "reg \<in> set (grab_all grab a' rs)"
    using Cons.IH [OF *(1)] Cons.prems(2) that *(2) by simp
  show ?case
  proof (cases o')
    case None
    then show ?thesis using g Cons.prems ** by simp
  next
    case (Some reg')
    then have "snd reg' \<le> limit a"
      using grab_region [of a r reg' a'] used_limit [OF *(1)] *(2) Cons.prems g by auto
    then show ?thesis using g Cons.prems ** Some by auto
  qed
qed simp

lemma regions_disjoint:
  "inv a \<Longrightarrow> list_all allowed rs \<Longrightarrow> sorted_wrt before (grab_all grab a rs)"
proof (induction rs arbitrary: a)
  case (Cons r rs)
  obtain o' a' where g: "grab a r = (o', a')" by (cases "grab a r")
  have i: "inv a'" using grab_inv [of a r] Cons.prems g by auto
  then have IH: "sorted_wrt before (grab_all grab a' rs)" using Cons by auto
  show ?case
  proof (cases o')
    case None
    then show ?thesis using g IH by simp
  next
    case (Some reg)
    then have "snd reg \<le> used a'" using g grab_region [of a r reg a'] Cons.prems by auto
    moreover have "\<forall>reg' \<in> set (grab_all grab a' rs). used a' \<le> fst reg'"
      using regions_above [OF i] Cons.prems(2) by auto
    ultimately have "\<forall>reg' \<in> set (grab_all grab a' rs). before reg reg'"
      by (auto simp: before_def)
    then show ?thesis using g IH Some by simp
  qed
qed simp

end

text \<open>An arena allocation as the region of the base object it occupies.\<close>

definition arena_grab :: "arena \<Rightarrow> u64 \<Rightarrow> (nat \<times> nat) option \<times> arena" where
  "arena_grab a s =
     (case arena_alloc a s of
        (NULL, a') \<Rightarrow> (None, a')
      | (Ptr b off, a') \<Rightarrow> (Some (off, off + unat s), a'))"

lemma arena_grab_cases:
  assumes "arena_ok a" "sane_request s"
  shows "arena_grab a s =
    (if unat (arena_offset a) + rounded s \<le> unat (arena_size a)
     then (Some (unat (arena_offset a), unat (arena_offset a) + unat s),
           a\<lparr>arena_offset := arena_offset a + align8 s\<rparr>)
     else (None, a))"
proof -
  obtain b where b: "arena_base a = Ptr b 0" using assms(1) by (auto simp: arena_ok_def)
  show ?thesis by (simp add: arena_grab_def arena_alloc_cases [OF assms b])
qed

interpretation arena_regions: region_allocator
  arena_ok "\<lambda>a. unat (arena_offset a)" "\<lambda>a. unat (arena_size a)" arena_grab
  "\<lambda>s. unat s < 2 ^ 63 - 8"
proof (unfold_locales, goal_cases)
  case (1 a s)
  then show ?case using arena_alloc_ok [of a s]
    by (auto simp: arena_grab_def split: prod.splits ptr.splits)
next
  case (2 a s)
  then show ?case by (simp add: arena_grab_cases)
next
  case (3 a s)
  then show ?case by (simp add: arena_grab_cases arena_sum)
next
  case (4 a s reg a')
  then show ?case using rounded_ge [of s]
    by (auto simp: arena_grab_cases arena_sum split: if_splits)
next
  case (5 a)
  then show ?case by (simp add: arena_ok_def word_le_nat_alt)
qed

section \<open>Properties\<close>

text \<open>
  C23. The allocations of any run of requests on an arena are pairwise disjoint, in order, and
  inside the arena: no two keys or values a shard stores ever overlap.
\<close>

theorem arena_allocations_disjoint:
  assumes "arena_ok a" "list_all (\<lambda>s. unat s < 2 ^ 63 - 8) reqs"
  shows "sorted_wrt before (grab_all arena_grab a reqs)
    \<and> (\<forall>reg \<in> set (grab_all arena_grab a reqs).
         unat (arena_offset a) \<le> fst reg \<and> snd reg \<le> unat (arena_size a))"
  using arena_regions.regions_disjoint [OF assms] arena_regions.regions_above [OF assms]
    arena_regions.regions_below [OF assms] by blast

definition demo_arena :: arena where
  "demo_arena = \<lparr>arena_base = Ptr 0 0, arena_size = 32, arena_offset = 0\<rparr>"

lemma demo_arena_ok: "arena_ok demo_arena"
  by (simp add: arena_ok_def demo_arena_def)

theorem arena_allocations_disjoint_witness:
  "grab_all arena_grab demo_arena [3, 12, 40, 8] = [(0, 3), (8, 20), (24, 32)]
   \<and> sorted_wrt before (grab_all arena_grab demo_arena [3, 12, 40, 8])"
proof
  show "grab_all arena_grab demo_arena [3, 12, 40, 8] = [(0, 3), (8, 20), (24, 32)]"
    by (simp add: arena_grab_def arena_alloc_def demo_arena_def align8_def)
  show "sorted_wrt before (grab_all arena_grab demo_arena [3, 12, 40, 8])"
    using arena_allocations_disjoint [OF demo_arena_ok, of "[3, 12, 40, 8]"] by simp
qed

text \<open>
  The functional behaviour of one allocation: a request is granted exactly when its size
  rounded up to a multiple of 8 still fits; it then gets the current offset, 8-byte aligned, and
  the offset moves past it; a refused request returns \<open>NULL\<close> and changes nothing.
\<close>

theorem arena_alloc_spec:
  assumes "arena_ok a" "unat s < 2 ^ 63 - 8" "arena_base a = Ptr b 0"
  shows "(if unat (arena_offset a) + rounded s \<le> unat (arena_size a)
     then fst (arena_alloc a s) = Ptr b (unat (arena_offset a))
       \<and> 8 dvd unat (arena_offset a)
       \<and> unat (arena_offset (snd (arena_alloc a s))) = unat (arena_offset a) + rounded s
     else arena_alloc a s = (NULL, a))
    \<and> arena_ok (snd (arena_alloc a s))"
  using assms arena_alloc_ok [OF assms(1,2)] arena_alloc_cases [OF assms] arena_sum [OF assms(1,2)]
  by (auto simp: arena_ok_def)

theorem arena_alloc_spec_witness:
  "fst (arena_alloc demo_arena 12) = Ptr 0 0
   \<and> unat (arena_offset (snd (arena_alloc demo_arena 12))) = 16"
  using arena_alloc_spec [OF demo_arena_ok, of 12 0]
  by (simp add: demo_arena_def rounded_def)

text \<open>
  A request within 7 bytes of \<open>2 ^ 64\<close> wraps in the rounding: the arena answers with a
  pointer, not \<open>NULL\<close>, and reserves nothing, so the next allocation gets the same address.
\<close>

theorem arena_alloc_wraps:
  assumes "arena_ok a" "2 ^ 64 \<le> unat s + 7"
  shows "arena_alloc a s = (ptr_add (arena_base a) (unat (arena_offset a)), a)"
  using assms by (auto simp: arena_alloc_def align8_wraps arena_ok_def dest: leD)

theorem arena_alloc_wraps_witness: "arena_alloc demo_arena 18446744073709551615 = (Ptr 0 0, demo_arena)"
  using arena_alloc_wraps [OF demo_arena_ok, of 18446744073709551615] by (simp add: demo_arena_def)

end
