(* ===== verification/Hashmap.thy ===== *)
theory Hashmap
  imports C_Memory Hash Complex_Main
begin

text \<open>
  \<^verbatim>\<open>src/core/hashmap/hashmap.c\<close>: an open-addressing table with Robin Hood probing and tombstones.
  A node holds a pointer to the caller's key, so the operations take the memory the keys live in.
  The struct fields keep their widths: \<open>key_len\<close>, \<open>val_len\<close>, \<open>dib\<close> and \<open>flags\<close> are 16 bits.

  The probing loops are unbounded (\<open>for(;;)\<close>): they are partial functions into an option, and
  \<open>None\<close> means the call never returns.
\<close>

section \<open>The data\<close>

record hm_node =
  node_key :: ptr
  node_value :: ptr
  node_hash :: u64
  node_key_len :: u16
  node_val_len :: u16
  node_dib :: u16
  node_flags :: u16

record hashmap =
  hm_buckets :: "hm_node list"
  hm_capacity :: u64
  hm_count :: u64
  hm_load_factor :: rat

definition HM_FLAG_TOMB :: u16 where "HM_FLAG_TOMB = 1"

definition HM_CAP :: u64 where "HM_CAP = push_bit 16 1"

text \<open>What \<open>calloc\<close> leaves in a bucket.\<close>

definition empty_node :: hm_node where
  "empty_node = \<lparr>node_key = NULL, node_value = NULL, node_hash = 0, node_key_len = 0,
     node_val_len = 0, node_dib = 0, node_flags = 0\<rparr>"

section \<open>The operations\<close>

text \<open>\<open>sizeof(hashmap)\<close> and \<open>sizeof(hm_node)\<close> are both 32 on the target.\<close>

definition hm_create :: "mem \<Rightarrow> u64 \<Rightarrow> hashmap option \<times> mem" where
  "hm_create m capacity =
     (case mem_reserve m 32 of
        None \<Rightarrow> (None, m)
      | Some m1 \<Rightarrow>
          (case mem_reserve m1 (32 * unat capacity) of
             None \<Rightarrow> (None, mem_release m1 32)
           | Some m2 \<Rightarrow>
               (Some \<lparr>hm_buckets = replicate (unat capacity) empty_node,
                      hm_capacity = capacity, hm_count = 0, hm_load_factor = 3 / 4\<rparr>, m2)))"

definition idx :: "hashmap \<Rightarrow> u64 \<Rightarrow> u64" where
  "idx hm hash = hash AND (hm_capacity hm - 1)"

definition next_idx :: "hashmap \<Rightarrow> u64 \<Rightarrow> u64" where
  "next_idx hm i = (i + 1) AND (hm_capacity hm - 1)"

text \<open>\<open>&hm->buckets[i]\<close>, dereferenced.\<close>

definition bucket :: "hashmap \<Rightarrow> u64 \<Rightarrow> hm_node res" where
  "bucket hm i =
     (if unat i < length (hm_buckets hm) then Inr (hm_buckets hm ! unat i)
      else Inl OutOfBounds)"

definition set_bucket :: "hashmap \<Rightarrow> u64 \<Rightarrow> hm_node \<Rightarrow> hashmap" where
  "set_bucket hm i node = hm\<lparr>hm_buckets := (hm_buckets hm)[unat i := node]\<rparr>"

text \<open>
  The test \<open>node->hash == hash && node->key_len == key_len && memcmp(...) == 0\<close>. Only when the
  first two hold is the node's key pointer followed; \<open>key_len\<close> is a \<open>size_t\<close>, the field 16 bits.
\<close>

definition key_match :: "mem \<Rightarrow> hm_node \<Rightarrow> u64 \<Rightarrow> bytes \<Rightarrow> bool res" where
  "key_match m node hash key =
     (if node_hash node = hash \<and> (ucast (node_key_len node) :: u64) = of_nat (length key)
      then rbind (mem_read m (node_key node) (length key)) (\<lambda>k. Inr (k = key))
      else Inr False)"

definition is_tomb :: "hm_node \<Rightarrow> bool" where
  "is_tomb node \<longleftrightarrow> node_flags node AND HM_FLAG_TOMB \<noteq> 0"

partial_function (option) hm_insert_loop ::
    "mem \<Rightarrow> bytes \<Rightarrow> u64 \<Rightarrow> ptr \<Rightarrow> u64 \<Rightarrow> hashmap \<Rightarrow> hm_node \<Rightarrow> u64 \<Rightarrow> (int \<times> hashmap) res option"
  where
  "hm_insert_loop m key hash value val_len hm cur i =
     (case bucket hm i of
        Inl e \<Rightarrow> Some (Inl e)
      | Inr node \<Rightarrow>
          if node_hash node = 0 \<or> is_tomb node
          then Some (Inr (0, (set_bucket hm i cur)\<lparr>hm_count := hm_count hm + 1\<rparr>))
          else
            (case key_match m node hash key of
               Inl e \<Rightarrow> Some (Inl e)
             | Inr same \<Rightarrow>
                 if same
                 then Some (Inr (0, set_bucket hm i
                        (node\<lparr>node_value := value, node_val_len := ucast val_len\<rparr>)))
                 else if node_dib node < node_dib cur
                 then hm_insert_loop m key hash value val_len (set_bucket hm i cur)
                        (node\<lparr>node_dib := node_dib node + 1\<rparr>) (next_idx hm i)
                 else hm_insert_loop m key hash value val_len hm
                        (cur\<lparr>node_dib := node_dib cur + 1\<rparr>) (next_idx hm i)))"

declare hm_insert_loop.simps [code]

definition new_node :: "bytes \<Rightarrow> ptr \<Rightarrow> ptr \<Rightarrow> u64 \<Rightarrow> hm_node" where
  "new_node k key value val_len =
     \<lparr>node_key = key, node_value = value, node_hash = FNV_1a k,
      node_key_len = of_nat (length k), node_val_len = ucast val_len,
      node_dib = 0, node_flags = 0\<rparr>"

definition hm_insert ::
    "mem \<Rightarrow> hashmap option \<Rightarrow> ptr \<Rightarrow> ptr \<Rightarrow> u64 \<Rightarrow> (int \<times> hashmap option) res option" where
  "hm_insert m hmp key value val_len =
     (case hmp of
        None \<Rightarrow> Some (Inr (- 1, None))
      | Some hm \<Rightarrow>
          if key = NULL then Some (Inr (- 1, Some hm))
          else
            (case c_string m key of
               Inl e \<Rightarrow> Some (Inl e)
             | Inr k \<Rightarrow>
                 map_option (map_sum id (apsnd Some))
                   (hm_insert_loop m k (FNV_1a k) value val_len hm
                      (new_node k key value val_len) (idx hm (FNV_1a k)))))"

partial_function (option) hm_get_loop ::
    "mem \<Rightarrow> bytes \<Rightarrow> u64 \<Rightarrow> hashmap \<Rightarrow> u16 \<Rightarrow> u64 \<Rightarrow> ptr res option" where
  "hm_get_loop m key hash hm dib i =
     (case bucket hm i of
        Inl e \<Rightarrow> Some (Inl e)
      | Inr node \<Rightarrow>
          if node_hash node = 0 \<or> node_dib node < dib then Some (Inr NULL)
          else
            (case key_match m node hash key of
               Inl e \<Rightarrow> Some (Inl e)
             | Inr same \<Rightarrow>
                 if same then Some (Inr (node_value node))
                 else hm_get_loop m key hash hm (dib + 1) (next_idx hm i)))"

declare hm_get_loop.simps [code]

definition hm_get :: "mem \<Rightarrow> hashmap option \<Rightarrow> ptr \<Rightarrow> ptr res option" where
  "hm_get m hmp key =
     (case hmp of
        None \<Rightarrow> Some (Inr NULL)
      | Some hm \<Rightarrow>
          if key = NULL then Some (Inr NULL)
          else
            (case c_string m key of
               Inl e \<Rightarrow> Some (Inl e)
             | Inr k \<Rightarrow> hm_get_loop m k (FNV_1a k) hm 0 (idx hm (FNV_1a k))))"

partial_function (option) hm_delete_loop ::
    "mem \<Rightarrow> bytes \<Rightarrow> u64 \<Rightarrow> hashmap \<Rightarrow> u16 \<Rightarrow> u64 \<Rightarrow> (int \<times> hashmap) res option" where
  "hm_delete_loop m key hash hm dib i =
     (case bucket hm i of
        Inl e \<Rightarrow> Some (Inl e)
      | Inr node \<Rightarrow>
          if node_hash node = 0 \<or> node_dib node < dib then Some (Inr (- 1, hm))
          else
            (case key_match m node hash key of
               Inl e \<Rightarrow> Some (Inl e)
             | Inr same \<Rightarrow>
                 if same
                 then Some (Inr (0,
                        (set_bucket hm i (node\<lparr>node_flags := node_flags node OR HM_FLAG_TOMB\<rparr>))
                          \<lparr>hm_count := hm_count hm - 1\<rparr>))
                 else hm_delete_loop m key hash hm (dib + 1) (next_idx hm i)))"

declare hm_delete_loop.simps [code]

text \<open>\<open>free_value\<close> is a parameter of the C function that its body never uses.\<close>

definition hm_delete ::
    "mem \<Rightarrow> hashmap option \<Rightarrow> ptr \<Rightarrow> int \<Rightarrow> (int \<times> hashmap option) res option" where
  "hm_delete m hmp key free_value =
     (case hmp of
        None \<Rightarrow> Some (Inr (- 1, None))
      | Some hm \<Rightarrow>
          if key = NULL then Some (Inr (- 1, Some hm))
          else
            (case c_string m key of
               Inl e \<Rightarrow> Some (Inl e)
             | Inr k \<Rightarrow>
                 map_option (map_sum id (apsnd Some))
                   (hm_delete_loop m k (FNV_1a k) hm 0 (idx hm (FNV_1a k)))))"

text \<open>\<open>free(hm->buckets); free(hm)\<close>: neither keys nor values are freed, whatever the flag.\<close>

definition hm_free :: "mem \<Rightarrow> hashmap option \<Rightarrow> int \<Rightarrow> mem" where
  "hm_free m hmp free_values =
     (case hmp of
        None \<Rightarrow> m
      | Some hm \<Rightarrow> mem_release (mem_release m (32 * length (hm_buckets hm))) 32)"

end
