(* ===== verification/Hashmap_Probing.thy ===== *)
theory Hashmap_Probing
  imports Hashmap "HOL-Library.Multiset"
begin

text \<open>
  Why the table of \<^verbatim>\<open>src/core/hashmap/hashmap.c\<close> works while nothing has been deleted from it: the
  Robin Hood invariant, its preservation by every step of the insertion loop, the termination
  of the three loops, and each operation as an operation on a finite map from keys to values.
  The invariant is local: a node that is not in its home bucket has an occupied bucket before it
  whose distance is at most one smaller.
\<close>

section \<open>The Robin Hood invariant\<close>

definition at_pos :: "hm_node list \<Rightarrow> nat \<Rightarrow> hm_node" where
  "at_pos T p = T ! (p mod length T)"

definition occ :: "hm_node \<Rightarrow> bool" where
  "occ nd \<longleftrightarrow> node_hash nd \<noteq> 0"

definition dib_of :: "hm_node \<Rightarrow> nat" where
  "dib_of nd = unat (node_dib nd)"

definition carry :: "hm_node list \<Rightarrow> nat \<Rightarrow> nat \<Rightarrow> bool" where
  "carry T p c \<longleftrightarrow>
     0 < c \<longrightarrow> occ (at_pos T (p + (length T - 1))) \<and> c \<le> dib_of (at_pos T (p + (length T - 1))) + 1"

definition chain :: "hm_node list \<Rightarrow> bool" where
  "chain T \<longleftrightarrow> (\<forall>p. occ (at_pos T p) \<longrightarrow> carry T p (dib_of (at_pos T p)))"

definition home :: "hm_node list \<Rightarrow> hm_node \<Rightarrow> nat" where
  "home T nd = unat (node_hash nd) mod length T"

definition homes :: "hm_node list \<Rightarrow> bool" where
  "homes T \<longleftrightarrow>
     (\<forall>p. occ (at_pos T p) \<longrightarrow> (home T (at_pos T p) + dib_of (at_pos T p)) mod length T = p mod length T)"

definition key_of :: "mem \<Rightarrow> hm_node \<Rightarrow> bytes" where
  "key_of m nd = (case c_string m (node_key nd) of Inl _ \<Rightarrow> [] | Inr k \<Rightarrow> k)"

definition node_ok :: "mem \<Rightarrow> hm_node \<Rightarrow> bool" where
  "node_ok m nd \<longleftrightarrow> node_flags nd = 0 \<and>
     (\<exists>k. c_string m (node_key nd) = Inr k \<and> FNV_1a k = node_hash nd
        \<and> length k = unat (node_key_len nd))"

definition nodes_ok :: "mem \<Rightarrow> hm_node list \<Rightarrow> bool" where
  "nodes_ok m T \<longleftrightarrow> (\<forall>nd \<in> set T. occ nd \<longrightarrow> node_ok m nd)"

definition table_ok :: "mem \<Rightarrow> hm_node list \<Rightarrow> bool" where
  "table_ok m T \<longleftrightarrow> chain T \<and> homes T \<and> nodes_ok m T"

definition entries :: "mem \<Rightarrow> hm_node list \<Rightarrow> (bytes \<times> ptr) list" where
  "entries m T = map (\<lambda>nd. (key_of m nd, node_value nd)) (filter occ T)"

definition hm_ok :: "mem \<Rightarrow> hashmap \<Rightarrow> bool" where
  "hm_ok m hm \<longleftrightarrow>
     (\<exists>k. unat (hm_capacity hm) = 2 ^ k) \<and> length (hm_buckets hm) = unat (hm_capacity hm)
     \<and> table_ok m (hm_buckets hm) \<and> distinct (map fst (entries m (hm_buckets hm)))
     \<and> unat (hm_count hm) = length (entries m (hm_buckets hm))"

definition hm_view :: "mem \<Rightarrow> hashmap \<Rightarrow> bytes \<Rightarrow> ptr option" where
  "hm_view m hm = map_of (entries m (hm_buckets hm))"

lemma at_pos_cong: "p mod length T = q mod length T \<Longrightarrow> at_pos T p = at_pos T q"
  by (simp add: at_pos_def)

lemma at_pos_in: "T \<noteq> [] \<Longrightarrow> at_pos T p \<in> set T"
  by (simp add: at_pos_def)

lemma at_pos_update:
  assumes "T \<noteq> []"
  shows "at_pos (T[p mod length T := x]) q = (if q mod length T = p mod length T then x else at_pos T q)"
  using assms by (auto simp: at_pos_def)

lemma prev_cong:
  "q mod length T = p mod length T \<Longrightarrow>
   (q + (length T - 1)) mod length T = (p + (length T - 1)) mod length T"
  by (metis mod_add_left_eq)

lemma carry_cong: "q mod length T = p mod length T \<Longrightarrow> carry T q c = carry T p c"
  using at_pos_cong [OF prev_cong, of q T p] by (simp add: carry_def)

lemma prev_next:
  assumes "T \<noteq> []"
  shows "(p + 1 + (length T - 1)) mod length T = p mod length T"
proof -
  have "p + 1 + (length T - 1) = p + length T" using assms by (cases T) auto
  then show ?thesis by (simp only: mod_add_self2)
qed

lemma carry_next:
  assumes "T \<noteq> []"
  shows "carry T (p + 1) c \<longleftrightarrow> (0 < c \<longrightarrow> occ (at_pos T p) \<and> c \<le> dib_of (at_pos T p) + 1)"
  using at_pos_cong [OF prev_next [OF assms], of p] by (simp add: carry_def)

lemma chain_put:
  assumes "T \<noteq> []" "chain T" "carry T p (dib_of x)" "occ x"
    "occ (at_pos T p) \<longrightarrow> dib_of (at_pos T p) \<le> dib_of x"
  shows "chain (T[p mod length T := x])"
  unfolding chain_def
proof (intro allI impI)
  fix q
  let ?T = "T[p mod length T := x]"
  let ?r = "q + (length T - 1)"
  assume o: "occ (at_pos ?T q)"
  show "carry ?T q (dib_of (at_pos ?T q))"
  proof (cases "q mod length T = p mod length T")
    case True
    then have c: "carry T q (dib_of x)" using carry_cong assms(3) by blast
    show ?thesis
      using True c assms(1,4) by (auto simp: carry_def at_pos_update)
  next
    case False
    then have c: "carry T q (dib_of (at_pos T q))"
      using o assms(1,2) by (auto simp: chain_def at_pos_update)
    show ?thesis
    proof (cases "?r mod length T = p mod length T")
      case True
      then have "at_pos T ?r = at_pos T p" by (rule at_pos_cong)
      then show ?thesis using True False c assms(1,4,5) by (auto simp: carry_def at_pos_update)
    next
      case r: False
      then show ?thesis using False c assms(1) by (auto simp: carry_def at_pos_update)
    qed
  qed
qed

lemma homes_put:
  assumes "T \<noteq> []" "homes T" "(home T x + dib_of x) mod length T = p mod length T"
  shows "homes (T[p mod length T := x])"
  using assms by (auto simp: homes_def home_def at_pos_update)

lemma nodes_ok_put: "nodes_ok m T \<Longrightarrow> node_ok m x \<Longrightarrow> nodes_ok m (T[i := x])"
  using set_update_subset_insert [of T i x] by (auto simp: nodes_ok_def)

lemma carry_back:
  assumes "chain T" "carry T p c" "1 \<le> j" "j \<le> c"
  shows "occ (at_pos T (p + j * (length T - 1)))
    \<and> c \<le> dib_of (at_pos T (p + j * (length T - 1))) + j"
  using assms(3,4)
proof (induction j rule: dec_induct)
  case base
  then show ?case using assms(2) by (simp add: carry_def)
next
  case (step j)
  let ?q = "p + j * (length T - 1)"
  have IH: "occ (at_pos T ?q)" "c \<le> dib_of (at_pos T ?q) + j" using step by auto
  then have "carry T ?q (dib_of (at_pos T ?q))" using assms(1) by (simp add: chain_def)
  moreover have "0 < dib_of (at_pos T ?q)" using IH(2) step.prems by simp
  ultimately have "occ (at_pos T (?q + (length T - 1)))"
    "dib_of (at_pos T ?q) \<le> dib_of (at_pos T (?q + (length T - 1))) + 1"
    by (auto simp: carry_def)
  moreover have eq: "p + Suc j * (length T - 1) = ?q + (length T - 1)"
    by (simp only: mult_Suc add.assoc add.commute [of "length T - 1"])
  ultimately show ?case using IH(2) unfolding eq by simp
qed

lemma back_inj:
  fixes n :: nat
  assumes "0 < n"
  shows "inj_on (\<lambda>j. (p + j * (n - 1)) mod n) {1..n}"
proof -
  have key: "i = j" if ij: "i \<le> j" "1 \<le> i" "j \<le> n"
      and eq: "(p + i * (n - 1)) mod n = (p + j * (n - 1)) mod n" for i j :: nat
  proof -
    have "n dvd (p + j * (n - 1)) - (p + i * (n - 1))"
      using eq ij(1) by (metis mod_eq_dvd_iff_nat add_le_mono mult_le_mono1 order_refl)
    then have "n dvd (j - i) * (n - 1)" by (simp add: diff_mult_distrib)
    moreover have "coprime n (n - 1)" 
      using coprime_diff_one_left_nat [OF assms] by (simp add: coprime_commute)
    ultimately have "n dvd j - i" by (simp add: coprime_dvd_mult_left_iff)
    then show ?thesis using ij by (auto dest: dvd_imp_le)
  qed
  show ?thesis
    by (rule inj_onI) (metis atLeastAtMost_iff key nat_le_linear)
qed

lemma occ_count: "length (filter occ T) = card {i. i < length T \<and> occ (T ! i)}"
  by (simp add: length_filter_conv_card)

lemma carry_bound:
  assumes "chain T" "carry T p c" "length (filter occ T) < length T"
  shows "c \<le> length (filter occ T)"
proof -
  let ?n = "length T" and ?f = "\<lambda>j. (p + j * (length T - 1)) mod length T"
  let ?S = "{1..min c ?n}"
  have n: "0 < ?n" using assms(3) by linarith
  have "?f ` ?S \<subseteq> {i. i < ?n \<and> occ (T ! i)}"
    using carry_back [OF assms(1,2)] n by (auto simp: at_pos_def)
  then have "card (?f ` ?S) \<le> length (filter occ T)"
    unfolding occ_count by (intro card_mono) auto
  moreover have "inj_on ?f ?S"
    using back_inj [OF n, of p] by (rule inj_on_subset) auto
  ultimately have "min c ?n \<le> length (filter occ T)"
    by (simp add: card_image)
  then show ?thesis using assms(3) by simp
qed

section \<open>Slots and entries\<close>

lemma bucket_at:
  assumes "unat i = p mod length (hm_buckets hm)" "hm_buckets hm \<noteq> []"
  shows "bucket hm i = Inr (at_pos (hm_buckets hm) p)"
  using assms by (simp add: bucket_def at_pos_def)

lemma next_idx_at:
  assumes "unat (hm_capacity hm) = 2 ^ k" "length (hm_buckets hm) = unat (hm_capacity hm)"
    "unat i = p mod length (hm_buckets hm)"
  shows "unat (next_idx hm i) = (p + 1) mod length (hm_buckets hm)"
  using assms unat_succ_mask [OF assms(1), of i] by (simp add: next_idx_def mod_Suc_eq)

lemma idx_at:
  assumes "unat (hm_capacity hm) = 2 ^ k" "length (hm_buckets hm) = unat (hm_capacity hm)"
  shows "unat (idx hm h) = unat h mod length (hm_buckets hm)"
  using assms unat_and_mask [OF assms(1), of h] by (simp add: idx_def)

lemma entries_update:
  assumes "i < length T"
  shows "mset (entries m (T[i := x])) + (if occ (T ! i) then {#(key_of m (T ! i), node_value (T ! i))#} else {#})
    = mset (entries m T) + (if occ x then {#(key_of m x, node_value x)#} else {#})"
  using assms
proof (induction T arbitrary: i)
  case (Cons a T)
  show ?case
  proof (cases i)
    case 0
    then show ?thesis by (simp add: entries_def)
  next
    case (Suc j)
    then show ?thesis using Cons.IH [of j] Cons.prems by (auto simp: entries_def)
  qed
qed simp

lemma entries_at:
  assumes "T \<noteq> []" "occ (at_pos T p)"
  shows "(key_of m (at_pos T p), node_value (at_pos T p)) \<in> set (entries m T)"
  using assms at_pos_in [of T p] by (auto simp: entries_def)

lemma entries_length: "length (entries m T) = length (filter occ T)"
  by (simp add: entries_def)

text \<open>Distinct keys sit in distinct slots.\<close>

lemma distinct_slots:
  assumes "distinct (map fst (entries m T))" "i < length T" "j < length T"
    "occ (T ! i)" "occ (T ! j)" "key_of m (T ! i) = key_of m (T ! j)"
  shows "i = j"
  using assms
proof (induction T arbitrary: i j)
  case (Cons a T)
  have *: "key_of m (T ! l) \<in> key_of m ` {x \<in> set T. occ x}"
    if "l < length T" "occ (T ! l)" for l
    using that by auto
  show ?case
    using Cons.prems Cons.IH [of "i - 1" "j - 1"] * [of "i - 1"] * [of "j - 1"]
    by (cases i; cases j) (auto simp: entries_def comp_def split: if_splits)
qed simp

lemma view_entry:
  assumes "distinct (map fst (entries m (hm_buckets hm)))"
  shows "hm_view m hm k = Some v \<longleftrightarrow> (k, v) \<in> set (entries m (hm_buckets hm))"
  using assms by (simp add: hm_view_def)

lemma view_slot:
  assumes "hm_view m hm k = Some v" "length (hm_buckets hm) = n"
  obtains i where "i < n" "occ (hm_buckets hm ! i)" "key_of m (hm_buckets hm ! i) = k"
    "node_value (hm_buckets hm ! i) = v"
proof -
  have "(k, v) \<in> set (entries m (hm_buckets hm))"
    using assms(1) by (auto simp: hm_view_def dest: map_of_SomeD)
  then obtain nd where "nd \<in> set (hm_buckets hm)" "occ nd" "k = key_of m nd" "v = node_value nd"
    by (auto simp: entries_def)
  then show ?thesis using that assms(2) by (metis in_set_conv_nth)
qed

text \<open>On a well-formed node the three-part test decides equality of keys.\<close>

lemma key_match_ok:
  assumes "node_ok m nd" "length key < 2 ^ 64"
  shows "key_match m nd (FNV_1a key) key = Inr (key_of m nd = key)"
proof -
  obtain k where k: "c_string m (node_key nd) = Inr k" "FNV_1a k = node_hash nd"
    "length k = unat (node_key_len nd)"
    using assms(1) by (auto simp: node_ok_def)
  have ko: "key_of m nd = k" using k(1) by (simp add: key_of_def)
  have u: "(ucast (node_key_len nd) :: u64) = of_nat (length k)"
    by (simp only: k(3) of_nat_unat)
  show ?thesis
  proof (cases "node_hash nd = FNV_1a key \<and> (ucast (node_key_len nd) :: u64) = of_nat (length key)")
    case True
    have "length k < 2 ^ 64" using k(3) unsigned_less [of "node_key_len nd", where ?'a = nat] by simp
    then have "length key = length k"
      using True u assms(2) by (metis of_nat_u64_inj)
    then show ?thesis using True c_string_read [OF k(1)] ko by (simp add: key_match_def)
  next
    case False
    then have "k \<noteq> key" using k(2) u by auto
    then show ?thesis using False ko by (simp only: key_match_def if_False)
  qed
qed

section \<open>Probing\<close>

text \<open>Room: at least one bucket has never been used.\<close>

definition room :: "hm_node list \<Rightarrow> bool" where
  "room T \<longleftrightarrow> length (filter occ T) < length T"

lemma room_nonempty: "room T \<Longrightarrow> T \<noteq> []"
  by (auto simp: room_def)

lemma first_empty:
  assumes "room T"
  obtains r where "r < length T" "\<not> occ (at_pos T (p + r))" "\<And>j. j < r \<Longrightarrow> occ (at_pos T (p + j))"
proof -
  let ?n = "length T"
  obtain e where e: "e < ?n" "\<not> occ (T ! e)"
    using assms by (metis filter_True in_set_conv_nth less_irrefl room_def)
  let ?r = "(e + (?n - p mod ?n)) mod ?n"
  have n: "0 < ?n" using e(1) by linarith
  then have "p mod ?n < ?n" by (rule mod_less_divisor)
  have "(p + ?r) mod ?n = (p mod ?n + (e + (?n - p mod ?n))) mod ?n"
    by (simp add: mod_simps)
  also have "p mod ?n + (e + (?n - p mod ?n)) = e + ?n"
    using \<open>p mod ?n < ?n\<close> by simp
  finally have "\<not> occ (at_pos T (p + ?r))" using e by (simp add: at_pos_def)
  then have ex: "\<exists>r. \<not> occ (at_pos T (p + r))" by blast
  let ?l = "LEAST r. \<not> occ (at_pos T (p + r))"
  have "?l \<le> ?r" using \<open>\<not> occ (at_pos T (p + ?r))\<close> by (rule Least_le)
  moreover have "?r < ?n" using n by (rule mod_less_divisor)
  ultimately show ?thesis
    using that [of ?l] LeastI_ex [OF ex] not_less_Least by (metis le_less_trans)
qed

text \<open>From a node \<open>s\<close> slots past position \<open>q\<close> the chain reaches back to \<open>q\<close>.\<close>

lemma probe_run:
  assumes "T \<noteq> []" "chain T"
  shows "occ (at_pos T (q + s)) \<Longrightarrow> s \<le> dib_of (at_pos T (q + s)) \<Longrightarrow>
    occ (at_pos T q) \<and> dib_of (at_pos T (q + s)) \<le> dib_of (at_pos T q) + s"
proof (induction s)
  case (Suc s)
  have "carry T (q + s + 1) (dib_of (at_pos T (q + Suc s)))"
    using Suc.prems(1) assms(2) by (simp add: chain_def)
  then have "occ (at_pos T (q + s))" "dib_of (at_pos T (q + Suc s)) \<le> dib_of (at_pos T (q + s)) + 1"
    using Suc.prems(2) carry_next [OF assms(1), of "q + s"] by auto
  then show ?case using Suc by auto
qed simp

definition start_of :: "hm_node list \<Rightarrow> bytes \<Rightarrow> nat" where
  "start_of T key = unat (FNV_1a key) mod length T"

text \<open>
  The path a probe for a stored key takes: the key sits \<open>d\<close> slots past its home, and each slot
  before it is occupied by another key whose distance is at least the probe's.
\<close>

definition stored_at :: "mem \<Rightarrow> hm_node list \<Rightarrow> bytes \<Rightarrow> nat \<Rightarrow> bool" where
  "stored_at m T key d \<longleftrightarrow>
     (let nd = at_pos T (start_of T key + d)
      in occ nd \<and> key_of m nd = key \<and> dib_of nd = d)"

lemma stored_path:
  assumes "T \<noteq> []" "chain T" "room T" "distinct (map fst (entries m T))" "stored_at m T key d" "j < d"
  shows "occ (at_pos T (start_of T key + j))" "j \<le> dib_of (at_pos T (start_of T key + j))"
    "key_of m (at_pos T (start_of T key + j)) \<noteq> key"
proof -
  let ?h = "start_of T key" and ?n = "length T"
  have d: "occ (at_pos T (?h + d))" "key_of m (at_pos T (?h + d)) = key" "dib_of (at_pos T (?h + d)) = d"
    using assms(5) by (auto simp: stored_at_def Let_def)
  have "?h + j + (d - j) = ?h + d" using assms(6) by simp
  then show o: "occ (at_pos T (?h + j))" and "j \<le> dib_of (at_pos T (?h + j))"
    using probe_run [OF assms(1,2), of "?h + j" "d - j"] d assms(6) by auto
  have "carry T (?h + d) d" using assms(2) d by (auto simp: chain_def)
  then have "d < ?n" using carry_bound assms(2,3) by (fastforce simp: room_def)
  show "key_of m (at_pos T (?h + j)) \<noteq> key"
  proof
    assume "key_of m (at_pos T (?h + j)) = key"
    then have "(?h + j) mod ?n = (?h + d) mod ?n"
      using distinct_slots [OF assms(4), of "(?h + j) mod ?n" "(?h + d) mod ?n"] o d assms(1)
      by (simp add: at_pos_def)
    then have "?n dvd d - j"
      using mod_eq_dvd_iff_nat [of "?h + j" "?h + d" ?n] assms(6) by simp
    then show False using \<open>d < ?n\<close> assms(6) by (auto dest: dvd_imp_le)
  qed
qed

lemma stored_somewhere:
  assumes "T \<noteq> []" "homes T" "nodes_ok m T" "nd \<in> set T" "occ nd" "key_of m nd = key"
  obtains d where "stored_at m T key d" "at_pos T (start_of T key + d) = nd"
proof -
  obtain i where i: "i < length T" "T ! i = nd" using assms(4) by (metis in_set_conv_nth)
  have ai: "at_pos T i = nd" using i by (simp add: at_pos_def)
  have "node_ok m nd" using assms(3-5) by (auto simp: nodes_ok_def)
  then have "node_hash nd = FNV_1a key" using assms(6) by (auto simp: node_ok_def key_of_def)
  then have "(start_of T key + dib_of nd) mod length T = i mod length T"
    using assms(2,5) ai by (metis home_def homes_def start_of_def)
  then have "at_pos T (start_of T key + dib_of nd) = nd" using at_pos_cong ai by metis
  then show ?thesis using that [of "dib_of nd"] assms(5,6) by (simp add: stored_at_def)
qed

lemma at_node_ok:
  assumes "T \<noteq> []" "nodes_ok m T" "occ (at_pos T p)"
  shows "node_ok m (at_pos T p)"
  using assms at_pos_in [of T p] by (auto simp: nodes_ok_def)

lemma u16_dib:
  assumes "j \<le> dib_of nd"
  shows "\<not> node_dib nd < of_nat j" "\<not> node_dib nd < (of_nat j :: u16)" 
proof -
  have "dib_of nd < 2 ^ 16" using unsigned_less [of "node_dib nd", where ?'a = nat] by (simp add: dib_of_def)
  then have "unat (of_nat j :: u16) = j" using assms by (simp add: unat_of_nat)
  then show "\<not> node_dib nd < of_nat j" "\<not> node_dib nd < (of_nat j :: u16)"
    using assms by (simp_all add: word_less_nat_alt dib_of_def)
qed

section \<open>The lookups\<close>

text \<open>What the proofs about a whole operation assume of the table it starts from.\<close>

definition lookup_ready :: "mem \<Rightarrow> hashmap \<Rightarrow> bool" where
  "lookup_ready m hm \<longleftrightarrow> hm_ok m hm \<and> room (hm_buckets hm)"

lemma hm_okD:
  assumes "hm_ok m hm" "room (hm_buckets hm)"
  shows "\<exists>k. unat (hm_capacity hm) = 2 ^ k" "length (hm_buckets hm) = unat (hm_capacity hm)"
    "chain (hm_buckets hm)" "homes (hm_buckets hm)" "nodes_ok m (hm_buckets hm)"
    "distinct (map fst (entries m (hm_buckets hm)))"
    "unat (hm_count hm) = length (entries m (hm_buckets hm))" "hm_buckets hm \<noteq> []"
  using assms room_nonempty by (auto simp: hm_ok_def table_ok_def)

text \<open>
  The search that \<open>hm_get\<close> and \<open>hm_delete\<close> share, with its outcome: the slot of the key, if found.
\<close>

partial_function (option) probe_loop ::
    "mem \<Rightarrow> bytes \<Rightarrow> u64 \<Rightarrow> hashmap \<Rightarrow> u16 \<Rightarrow> u64 \<Rightarrow> u64 option res option" where
  "probe_loop m key hash hm dib i =
     (case bucket hm i of
        Inl e \<Rightarrow> Some (Inl e)
      | Inr node \<Rightarrow>
          if node_hash node = 0 \<or> node_dib node < dib then Some (Inr None)
          else
            (case key_match m node hash key of
               Inl e \<Rightarrow> Some (Inl e)
             | Inr same \<Rightarrow>
                 if same then Some (Inr (Some i))
                 else probe_loop m key hash hm (dib + 1) (next_idx hm i)))"

definition get_result :: "hashmap \<Rightarrow> u64 option \<Rightarrow> ptr" where
  "get_result hm slot =
     (case slot of None \<Rightarrow> NULL | Some i \<Rightarrow> node_value (hm_buckets hm ! unat i))"

definition tomb_slot :: "hashmap \<Rightarrow> u64 \<Rightarrow> hashmap" where
  "tomb_slot hm i =
     (set_bucket hm i ((hm_buckets hm ! unat i)
        \<lparr>node_flags := node_flags (hm_buckets hm ! unat i) OR HM_FLAG_TOMB\<rparr>))
     \<lparr>hm_count := hm_count hm - 1\<rparr>"

definition delete_result :: "hashmap \<Rightarrow> u64 option \<Rightarrow> int \<times> hashmap" where
  "delete_result hm slot = (case slot of None \<Rightarrow> (- 1, hm) | Some i \<Rightarrow> (0, tomb_slot hm i))"

lemma bucket_Inr: "bucket hm i = Inr nd \<Longrightarrow> nd = hm_buckets hm ! unat i"
  by (auto simp: bucket_def split: if_splits)

lemma get_of_probe:
  assumes "probe_loop m key hash hm dib i = Some r"
  shows "hm_get_loop m key hash hm dib i = Some (map_sum id (get_result hm) r)"
proof (rule probe_loop.raw_induct [where P = "\<lambda>m key hash hm dib i r.
      hm_get_loop m key hash hm dib i = Some (map_sum id (get_result hm) r)", OF _ assms], goal_cases)
  case (1 f m key hash hm dib i r)
  then show ?case
    by (subst hm_get_loop.simps)
      (auto simp: get_result_def dest: bucket_Inr split: sum.splits if_splits)
qed

lemma probe_of_get:
  assumes "hm_get_loop m key hash hm dib i = Some r"
  shows "probe_loop m key hash hm dib i \<noteq> None"
proof (rule hm_get_loop.raw_induct [where P = "\<lambda>m key hash hm dib i r.
      probe_loop m key hash hm dib i \<noteq> None", OF _ assms], goal_cases)
  case (1 f m key hash hm dib i r)
  then show ?case by (subst probe_loop.simps) (auto split: sum.splits if_splits)
qed

lemma get_eq_probe:
  "hm_get_loop m key hash hm dib i
    = map_option (map_sum id (get_result hm)) (probe_loop m key hash hm dib i)"
  using get_of_probe [of m key hash hm dib i] probe_of_get [of m key hash hm dib i]
  by (cases "probe_loop m key hash hm dib i"; cases "hm_get_loop m key hash hm dib i") auto

lemma delete_of_probe:
  assumes "probe_loop m key hash hm dib i = Some r"
  shows "hm_delete_loop m key hash hm dib i = Some (map_sum id (delete_result hm) r)"
proof (rule probe_loop.raw_induct [where P = "\<lambda>m key hash hm dib i r.
      hm_delete_loop m key hash hm dib i = Some (map_sum id (delete_result hm) r)", OF _ assms],
    goal_cases)
  case (1 f m key hash hm dib i r)
  then show ?case
    by (subst hm_delete_loop.simps)
      (auto simp: delete_result_def tomb_slot_def dest: bucket_Inr split: sum.splits if_splits)
qed

lemma probe_of_delete:
  assumes "hm_delete_loop m key hash hm dib i = Some r"
  shows "probe_loop m key hash hm dib i \<noteq> None"
proof (rule hm_delete_loop.raw_induct [where P = "\<lambda>m key hash hm dib i r.
      probe_loop m key hash hm dib i \<noteq> None", OF _ assms], goal_cases)
  case (1 f m key hash hm dib i r)
  then show ?case by (subst probe_loop.simps) (auto split: sum.splits if_splits)
qed

lemma delete_eq_probe:
  "hm_delete_loop m key hash hm dib i
    = map_option (map_sum id (delete_result hm)) (probe_loop m key hash hm dib i)"
  using delete_of_probe [of m key hash hm dib i] probe_of_delete [of m key hash hm dib i]
  by (cases "probe_loop m key hash hm dib i"; cases "hm_delete_loop m key hash hm dib i") auto

lemma probe_found:
  assumes ok: "hm_ok m hm" "room (hm_buckets hm)" and key: "length key < 2 ^ 64"
    and st: "stored_at m (hm_buckets hm) key d"
    and t: "unat t = (start_of (hm_buckets hm) key + d) mod length (hm_buckets hm)"
  shows "j \<le> d \<Longrightarrow> unat i = (start_of (hm_buckets hm) key + j) mod length (hm_buckets hm) \<Longrightarrow>
    probe_loop m key (FNV_1a key) hm (of_nat j) i
    = Some (Inr (Some t))"
proof (induction "d - j" arbitrary: j i)
  case 0
  let ?T = "hm_buckets hm" and ?h = "start_of (hm_buckets hm) key"
  note D = hm_okD [OF ok]
  have dj: "d = j" using 0 by simp
  have it: "i = t" using 0(3) t dj by (simp add: word_unat_eq_iff)
  have nd: "occ (at_pos ?T (?h + d))" "key_of m (at_pos ?T (?h + d)) = key"
    "dib_of (at_pos ?T (?h + d)) = d"
    using st by (auto simp: stored_at_def Let_def)
  show ?case
    using bucket_at [OF 0(3) D(8)] nd dj it u16_dib [of j "at_pos ?T (?h + d)"]
      key_match_ok [OF at_node_ok [OF D(8,5) nd(1)] key]
    by (subst probe_loop.simps) (simp add: occ_def)
next
  case (Suc e)
  let ?T = "hm_buckets hm" and ?h = "start_of (hm_buckets hm) key"
  note D = hm_okD [OF ok]
  obtain k where k: "unat (hm_capacity hm) = 2 ^ k" using D(1) by blast
  have jd: "j < d" using Suc.hyps(2) by simp
  note path = stored_path [OF D(8,3) ok(2) D(6) st jd]
  have nx: "unat (next_idx hm i) = (?h + Suc j) mod length ?T"
    using next_idx_at [OF k D(2) Suc.prems(2)] by simp
  have "probe_loop m key (FNV_1a key) hm (of_nat j) i
    = probe_loop m key (FNV_1a key) hm (of_nat (Suc j)) (next_idx hm i)"
    using bucket_at [OF Suc.prems(2) D(8)] path u16_dib [OF path(2)]
      key_match_ok [OF at_node_ok [OF D(8,5) path(1)] key]
    by (subst probe_loop.simps) (simp add: occ_def add.commute)
  then show ?case using Suc.hyps(1) [of "Suc j" "next_idx hm i"] Suc.hyps(2) nx jd by simp
qed

lemma probe_absent:
  assumes ok: "hm_ok m hm" "room (hm_buckets hm)" and key: "length key < 2 ^ 64"
  shows "unat i = p mod length (hm_buckets hm) \<Longrightarrow>
    (\<And>j. j < r \<Longrightarrow> occ (at_pos (hm_buckets hm) (p + j))) \<Longrightarrow>
    \<not> occ (at_pos (hm_buckets hm) (p + r)) \<Longrightarrow>
    (\<And>j. j < r \<Longrightarrow> key_of m (at_pos (hm_buckets hm) (p + j)) \<noteq> key) \<Longrightarrow>
    probe_loop m key (FNV_1a key) hm dib i = Some (Inr None)"
proof (induction r arbitrary: p i dib)
  case 0
  then show ?case using bucket_at [OF 0(1)] hm_okD(8) [OF ok]
    by (subst probe_loop.simps) (simp add: occ_def)
next
  case (Suc r)
  let ?T = "hm_buckets hm"
  note D = hm_okD [OF ok]
  obtain k where k: "unat (hm_capacity hm) = 2 ^ k" using D(1) by blast
  have o: "occ (at_pos ?T p)" "key_of m (at_pos ?T p) \<noteq> key"
    using Suc.prems(2,4) [of 0] by auto
  have nx: "unat (next_idx hm i) = (p + 1) mod length ?T"
    using next_idx_at [OF k D(2) Suc.prems(1)] .
  have "probe_loop m key (FNV_1a key) hm (dib + 1) (next_idx hm i) = Some (Inr None)"
  proof (rule Suc.IH [OF nx])
    show "occ (at_pos ?T (p + 1 + j))" if "j < r" for j
      using Suc.prems(2) [of "Suc j"] that by simp
    show "\<not> occ (at_pos ?T (p + 1 + r))" using Suc.prems(3) by simp
    show "key_of m (at_pos ?T (p + 1 + j)) \<noteq> key" if "j < r" for j
      using Suc.prems(4) [of "Suc j"] that by simp
  qed
  then show ?case
    using bucket_at [OF Suc.prems(1) D(8)] o key_match_ok [OF at_node_ok [OF D(8,5) o(1)] key]
    by (subst probe_loop.simps) simp
qed



lemma absent_keys:
  assumes ok: "hm_ok m hm" "room (hm_buckets hm)" and none: "hm_view m hm key = None"
    and o: "occ (at_pos (hm_buckets hm) p)"
  shows "key_of m (at_pos (hm_buckets hm) p) \<noteq> key"
proof
  assume "key_of m (at_pos (hm_buckets hm) p) = key"
  then have "(key, node_value (at_pos (hm_buckets hm) p)) \<in> set (entries m (hm_buckets hm))"
    using entries_at [OF hm_okD(8) [OF ok] o, of m] by simp
  then show False using none by (force simp: hm_view_def map_of_eq_None_iff)
qed

lemma present_stored:
  assumes ok: "hm_ok m hm" "room (hm_buckets hm)" and some: "hm_view m hm key = Some v"
  obtains d where "stored_at m (hm_buckets hm) key d"
    "node_value (at_pos (hm_buckets hm) (start_of (hm_buckets hm) key + d)) = v"
proof -
  note D = hm_okD [OF ok]
  obtain i where i: "i < length (hm_buckets hm)" "occ (hm_buckets hm ! i)"
    "key_of m (hm_buckets hm ! i) = key" "node_value (hm_buckets hm ! i) = v"
    using view_slot [OF some refl] by blast
  then obtain d where "stored_at m (hm_buckets hm) key d"
    "at_pos (hm_buckets hm) (start_of (hm_buckets hm) key + d) = hm_buckets hm ! i"
    using stored_somewhere [OF D(8,4,5), of "hm_buckets hm ! i" key] by auto
  then show ?thesis using that i(4) by auto
qed

text \<open>The slot of a stored key, and that the search finds exactly the stored keys.\<close>

lemma slot_word:
  assumes "hm_ok m hm" "room (hm_buckets hm)"
  shows "unat (of_nat (p mod length (hm_buckets hm)) :: u64) = p mod length (hm_buckets hm)"
proof (rule unat_of_nat_u64)
  note D = hm_okD [OF assms]
  have "p mod length (hm_buckets hm) < length (hm_buckets hm)" using D(8) by simp
  then show "p mod length (hm_buckets hm) < 2 ^ 64"
    using D(2) unat_less_u64 [of "hm_capacity hm"] by simp
qed

lemma probe_spec:
  assumes ok: "hm_ok m hm" "room (hm_buckets hm)" and len: "length k < 2 ^ 64"
  shows "\<exists>slot. probe_loop m k (FNV_1a k) hm 0 (idx hm (FNV_1a k)) = Some (Inr slot)
    \<and> (case hm_view m hm k of
         None \<Rightarrow> slot = None
       | Some v \<Rightarrow> \<exists>i. slot = Some i \<and> unat i < length (hm_buckets hm)
           \<and> node_value (hm_buckets hm ! unat i) = v)"
proof -
  note D = hm_okD [OF ok]
  let ?T = "hm_buckets hm" and ?h = "start_of (hm_buckets hm) k"
  obtain b where b: "unat (hm_capacity hm) = 2 ^ b" using D(1) by blast
  have i: "unat (idx hm (FNV_1a k)) = (?h + 0) mod length ?T"
    using idx_at [OF b D(2)] by (simp add: start_of_def)
  show ?thesis
  proof (cases "hm_view m hm k")
    case None
    obtain r where r: "\<not> occ (at_pos ?T (?h + 0 + r))" "\<And>j. j < r \<Longrightarrow> occ (at_pos ?T (?h + 0 + j))"
      using first_empty [OF ok(2)] by metis
    have "probe_loop m k (FNV_1a k) hm 0 (idx hm (FNV_1a k)) = Some (Inr None)"
      by (rule probe_absent [OF ok len i r(2) r(1)])
        (use absent_keys [OF ok None] r(2) in auto)
    then show ?thesis using None by simp
  next
    case (Some v)
    then obtain d where d: "stored_at m ?T k d" "node_value (at_pos ?T (?h + d)) = v"
      using present_stored [OF ok] by blast
    let ?t = "of_nat ((?h + d) mod length ?T) :: u64"
    have t: "unat ?t = (?h + d) mod length ?T" by (rule slot_word [OF ok])
    then show ?thesis
      using probe_found [OF ok len d(1) t _ i] Some d(2) D(8) by (simp add: at_pos_def)
  qed
qed

lemma hm_get_view:
  assumes "hm_ok m hm" "room (hm_buckets hm)" "c_string m key = Inr k" "length k < 2 ^ 64"
  shows "hm_get m (Some hm) key = Some (Inr (case hm_view m hm k of None \<Rightarrow> NULL | Some v \<Rightarrow> v))"
proof -
  have nn: "key \<noteq> NULL" using assms(3) by (auto simp: c_string_def mem_block_def)
  show ?thesis
    using probe_spec [OF assms(1,2,4)] nn assms(3)
    by (auto simp: hm_get_def get_eq_probe get_result_def split: option.splits)
qed

section \<open>Insertion\<close>

lemma tomb_free: "node_flags nd = 0 \<Longrightarrow> \<not> is_tomb nd"
  by (simp add: is_tomb_def)

lemma node_ok_not_tomb: "node_ok m nd \<Longrightarrow> \<not> is_tomb nd"
  by (simp add: node_ok_def tomb_free)

lemma insert_loop_found:
  assumes ok: "hm_ok m hm" "room (hm_buckets hm)" and key: "length key < 2 ^ 64"
    and st: "stored_at m (hm_buckets hm) key d"
    and t: "unat t = (start_of (hm_buckets hm) key + d) mod length (hm_buckets hm)"
  shows "j \<le> d \<Longrightarrow> unat i = (start_of (hm_buckets hm) key + j) mod length (hm_buckets hm) \<Longrightarrow>
    node_dib cur = of_nat j \<Longrightarrow>
    hm_insert_loop m key (FNV_1a key) value val_len hm cur i
    = Some (Inr (0, set_bucket hm t
        ((at_pos (hm_buckets hm) (start_of (hm_buckets hm) key + d))
          \<lparr>node_value := value, node_val_len := ucast val_len\<rparr>)))"
proof (induction "d - j" arbitrary: j i cur)
  case 0
  let ?T = "hm_buckets hm" and ?h = "start_of (hm_buckets hm) key"
  note D = hm_okD [OF ok]
  have dj: "d = j" using 0 by simp
  have it: "i = t" using 0(3) t dj by (simp add: word_unat_eq_iff)
  have nd: "occ (at_pos ?T (?h + d))" "key_of m (at_pos ?T (?h + d)) = key"
    using st by (auto simp: stored_at_def Let_def)
  note nok = at_node_ok [OF D(8,5) nd(1)]
  show ?case
    using bucket_at [OF 0(3) D(8)] nd dj it key_match_ok [OF nok key] node_ok_not_tomb [OF nok]
    by (subst hm_insert_loop.simps) (simp add: occ_def)
next
  case (Suc e)
  let ?T = "hm_buckets hm" and ?h = "start_of (hm_buckets hm) key"
  note D = hm_okD [OF ok]
  obtain k where k: "unat (hm_capacity hm) = 2 ^ k" using D(1) by blast
  have jd: "j < d" using Suc.hyps(2) by simp
  note path = stored_path [OF D(8,3) ok(2) D(6) st jd]
  note nok = at_node_ok [OF D(8,5) path(1)]
  have nx: "unat (next_idx hm i) = (?h + Suc j) mod length ?T"
    using next_idx_at [OF k D(2) Suc.prems(2)] by simp
  let ?cur = "cur\<lparr>node_dib := node_dib cur + 1\<rparr>"
  have dib: "node_dib ?cur = of_nat (Suc j)" using Suc.prems(3) by (simp add: add.commute)
  have "hm_insert_loop m key (FNV_1a key) value val_len hm cur i
    = hm_insert_loop m key (FNV_1a key) value val_len hm ?cur (next_idx hm i)"
    using bucket_at [OF Suc.prems(2) D(8)] path u16_dib [OF path(2)] Suc.prems(3)
      key_match_ok [OF nok key] node_ok_not_tomb [OF nok]
    by (subst hm_insert_loop.simps) (simp add: occ_def)
  then show ?case using Suc.hyps(1) [OF _ _ nx dib] Suc.hyps(2) jd by simp
qed

text \<open>A node about to be placed at position \<open>p\<close>.\<close>

definition placeable :: "mem \<Rightarrow> hm_node list \<Rightarrow> nat \<Rightarrow> hm_node \<Rightarrow> bool" where
  "placeable m T p nd \<longleftrightarrow>
     occ nd \<and> node_ok m nd \<and> carry T p (dib_of nd)
     \<and> (home T nd + dib_of nd) mod length T = p mod length T"

lemma table_put:
  assumes "T \<noteq> []" "table_ok m T" "placeable m T p x"
    "occ (at_pos T p) \<longrightarrow> dib_of (at_pos T p) \<le> dib_of x"
  shows "table_ok m (T[p mod length T := x])"
  using assms chain_put [OF assms(1)] homes_put [OF assms(1)] nodes_ok_put
  by (auto simp: table_ok_def placeable_def)

lemma entries_put:
  assumes "T \<noteq> []" "occ x"
  shows "mset (entries m (T[p mod length T := x]))
      + (if occ (at_pos T p) then {#(key_of m (at_pos T p), node_value (at_pos T p))#} else {#})
    = add_mset (key_of m x, node_value x) (mset (entries m T))"
proof -
  have "p mod length T < length T" using assms(1) by simp
  from entries_update [OF this, of m x] show ?thesis
    using assms(2) by (simp only: at_pos_def if_True union_mset_add_mset_right add.right_neutral)
qed

lemma filter_occ_put:
  assumes "T \<noteq> []" "occ x" "occ (at_pos T p)"
  shows "length (filter occ (T[p mod length T := x])) = length (filter occ T)"
  using arg_cong [OF entries_put [OF assms(1,2), of undefined p], of size] assms(3)
  by (simp add: entries_length)

lemma dib_succ:
  assumes "dib_of nd < 65535"
  shows "dib_of (nd\<lparr>node_dib := node_dib nd + 1\<rparr>) = dib_of nd + 1"
  using assms by (simp add: dib_of_def unat_word_ariths)

text \<open>The displaced or passed-over node is placeable one slot further on.\<close>

lemma placeable_next:
  assumes "T \<noteq> []" "placeable m T' p nd" "length T' = length T" "occ (at_pos T p)"
    "dib_of nd \<le> dib_of (at_pos T p)" "chain T" "length (filter occ T) < length T"
    "length (filter occ T) \<le> 65535"
  shows "placeable m T (p + 1) (nd\<lparr>node_dib := node_dib nd + 1\<rparr>)"
proof -
  have c: "carry T (p + 1) (dib_of nd + 1)"
    unfolding carry_next [OF assms(1)] using assms(4,5) by simp
  then have "dib_of nd + 1 \<le> 65535"
    using carry_bound [OF assms(6) c assms(7)] assms(8) by simp
  then have d: "dib_of (nd\<lparr>node_dib := node_dib nd + 1\<rparr>) = dib_of nd + 1"
    by (intro dib_succ) simp
  have "(home T nd + dib_of nd) mod length T = p mod length T"
    using assms(2,3) by (simp add: placeable_def home_def)
  then have "(home T nd + (dib_of nd + 1)) mod length T = (p + 1) mod length T"
    by (metis add.assoc mod_add_left_eq)
  then show ?thesis using assms(2) c d by (simp add: placeable_def occ_def node_ok_def home_def)
qed


text \<open>
  The loop on a key that is not stored: it runs to the first empty bucket, \<open>r\<close> slots ahead, and
  leaves a well-formed table that holds one more entry.
\<close>

text \<open>One step of the loop over an occupied bucket that holds another key: displace it or go on.\<close>

lemma insert_loop_step:
  assumes "hm_buckets hm \<noteq> []" "unat i = p mod length (hm_buckets hm)" "length key < 2 ^ 64"
    and "occ (at_pos (hm_buckets hm) p)" "node_ok m (at_pos (hm_buckets hm) p)" "key_of m (at_pos (hm_buckets hm) p) \<noteq> key"
  shows "hm_insert_loop m key (FNV_1a key) value val_len hm cur i =
    (let nd = at_pos (hm_buckets hm) p in
     if node_dib nd < node_dib cur
     then hm_insert_loop m key (FNV_1a key) value val_len
            (hm\<lparr>hm_buckets := (hm_buckets hm)[p mod length (hm_buckets hm) := cur]\<rparr>)
            (nd\<lparr>node_dib := node_dib nd + 1\<rparr>) (next_idx hm i)
     else hm_insert_loop m key (FNV_1a key) value val_len hm (cur\<lparr>node_dib := node_dib cur + 1\<rparr>) (next_idx hm i))"
  using bucket_at [OF assms(2,1)] assms(2,4,6) key_match_ok [OF assms(5,3)] node_ok_not_tomb [OF assms(5)]
  by (subst hm_insert_loop.simps) (simp add: occ_def set_bucket_def next_idx_def Let_def)

text \<open>The table after an entry has been displaced by \<open>cur\<close>: the displaced one can be placed further on.\<close>

lemma displaced:
  fixes T p cur
  defines "T' \<equiv> T[p mod length T := cur]"
  assumes "T \<noteq> []" "table_ok m T" "placeable m T p cur" "occ (at_pos T p)" "dib_of (at_pos T p) < dib_of cur"
    and "length (filter occ T) < length T" "length (filter occ T) \<le> 65535"
  shows "table_ok m T'" "length (filter occ T') = length (filter occ T)"
    "placeable m T' (p + 1) ((at_pos T p)\<lparr>node_dib := node_dib (at_pos T p) + 1\<rparr>)"
    "mset (entries m T') + {#(key_of m (at_pos T p), node_value (at_pos T p))#}
      = add_mset (key_of m cur, node_value cur) (mset (entries m T))"
    "\<And>j. 1 + j < length T \<Longrightarrow> at_pos T' (p + 1 + j) = at_pos T (p + 1 + j)"
proof -
  have oc: "occ cur" using assms(4) by (simp add: placeable_def)
  have tab: "chain T" "homes T" "nodes_ok m T" using assms(3) by (auto simp: table_ok_def)
  show tab': "table_ok m T'" unfolding T'_def using table_put [OF assms(2,3,4)] assms(6) by simp
  show cnt: "length (filter occ T') = length (filter occ T)"
    unfolding T'_def using filter_occ_put [OF assms(2) oc assms(5)] .
  have pl: "placeable m T p (at_pos T p)"
    using assms(5) at_node_ok [OF assms(2) tab(3) assms(5)] tab by (simp add: placeable_def chain_def homes_def)
  have self: "at_pos T' p = cur" unfolding T'_def using at_pos_update [OF assms(2)] by simp
  show "placeable m T' (p + 1) ((at_pos T p)\<lparr>node_dib := node_dib (at_pos T p) + 1\<rparr>)"
    by (rule placeable_next [where T' = T])
      (use assms(2,6-8) pl self oc tab' cnt T'_def in \<open>simp_all add: table_ok_def\<close>)
  show "mset (entries m T') + {#(key_of m (at_pos T p), node_value (at_pos T p))#}
      = add_mset (key_of m cur, node_value cur) (mset (entries m T))"
    unfolding T'_def using entries_put [OF assms(2) oc, of m p] assms(5) by simp
  show "at_pos T' (p + 1 + j) = at_pos T (p + 1 + j)" if "1 + j < length T" for j
  proof -
    have "(p + 1 + j) mod length T \<noteq> p mod length T"
    proof
      assume "(p + 1 + j) mod length T = p mod length T"
      then have "length T dvd 1 + j" by (simp add: mod_eq_dvd_iff_nat add.assoc)
      then show False using that by (auto dest: dvd_imp_le)
    qed
    then show ?thesis unfolding T'_def using at_pos_update [OF assms(2)] by simp
  qed
qed

text \<open>The loop ends with the carried node stored in a well-formed table, and nothing else gained or lost.\<close>

definition inserts :: "mem \<Rightarrow> bytes \<Rightarrow> ptr \<Rightarrow> u64 \<Rightarrow> hashmap \<Rightarrow> hm_node \<Rightarrow> u64 \<Rightarrow> bool" where
  "inserts m key value val_len hm cur i \<longleftrightarrow>
     (\<exists>T'. hm_insert_loop m key (FNV_1a key) value val_len hm cur i
        = Some (Inr (0, hm\<lparr>hm_buckets := T', hm_count := hm_count hm + 1\<rparr>))
      \<and> length T' = length (hm_buckets hm) \<and> table_ok m T'
      \<and> mset (entries m T') = add_mset (key_of m cur, node_value cur) (mset (entries m (hm_buckets hm))))"

lemma inserts_here:
  assumes "hm_buckets hm \<noteq> []" "table_ok m (hm_buckets hm)" "placeable m (hm_buckets hm) p cur"
    and "unat i = p mod length (hm_buckets hm)" "\<not> occ (at_pos (hm_buckets hm) p)"
  shows "inserts m key value val_len hm cur i"
proof -
  let ?T = "hm_buckets hm"
  have o: "occ cur" using assms(3) by (simp add: placeable_def)
  have "hm_insert_loop m key (FNV_1a key) value val_len hm cur i
    = Some (Inr (0, hm\<lparr>hm_buckets := ?T[p mod length ?T := cur], hm_count := hm_count hm + 1\<rparr>))"
    using bucket_at [OF assms(4,1)] assms(4,5)
    by (subst hm_insert_loop.simps) (simp add: occ_def set_bucket_def)
  then show ?thesis
    using table_put [OF assms(1-3)] entries_put [OF assms(1) o, of m p] assms(5) by (auto simp: inserts_def)
qed

lemma inserts_swap:
  assumes "inserts m key value val_len (hm\<lparr>hm_buckets := T\<rparr>) cur' (next_idx hm i)" "length T = length (hm_buckets hm)"
    and "hm_insert_loop m key (FNV_1a key) value val_len hm cur i
      = hm_insert_loop m key (FNV_1a key) value val_len (hm\<lparr>hm_buckets := T\<rparr>) cur' (next_idx hm i)"
    and "add_mset (key_of m cur', node_value cur') (mset (entries m T))
      = add_mset (key_of m cur, node_value cur) (mset (entries m (hm_buckets hm)))"
  shows "inserts m key value val_len hm cur i"
  using assms by (auto simp: inserts_def)

lemma insert_loop_absent:
  assumes cap: "unat (hm_capacity hm) = 2 ^ b" and key: "length key < 2 ^ 64"
  shows "length (hm_buckets hm) = unat (hm_capacity hm) \<Longrightarrow> table_ok m (hm_buckets hm) \<Longrightarrow>
    room (hm_buckets hm) \<Longrightarrow> length (filter occ (hm_buckets hm)) \<le> 65535 \<Longrightarrow>
    placeable m (hm_buckets hm) p cur \<Longrightarrow> unat i = p mod length (hm_buckets hm) \<Longrightarrow>
    r < length (hm_buckets hm) \<Longrightarrow> \<not> occ (at_pos (hm_buckets hm) (p + r)) \<Longrightarrow>
    (\<And>j. j < r \<Longrightarrow> occ (at_pos (hm_buckets hm) (p + j))
                 \<and> key_of m (at_pos (hm_buckets hm) (p + j)) \<noteq> key) \<Longrightarrow>
    inserts m key value val_len hm cur i"
  using cap
proof (induction r arbitrary: hm p i cur)
  case (0 hm)
  have "hm_buckets hm \<noteq> []" using 0(7) by auto
  then show ?case using inserts_here [OF _ 0(2,5,6)] 0(8) by simp
next
  case (Suc r hm)
  let ?T = "hm_buckets hm"
  let ?nd = "at_pos ?T p"
  have ne: "?T \<noteq> []" using Suc.prems(7) by auto
  have o: "occ ?nd" "key_of m ?nd \<noteq> key" using Suc.prems(9) [of 0] by auto
  have nok: "node_ok m ?nd" using at_node_ok [OF ne _ o(1)] Suc.prems(2) by (simp add: table_ok_def)
  have room': "length (filter occ ?T) < length ?T" using Suc.prems(3) by (simp add: room_def)
  have nx: "unat (next_idx hm i) = (p + 1) mod length ?T" using next_idx_at [OF Suc.prems(10,1,6)] .
  have ahead: "occ (at_pos ?T (p + 1 + j)) \<and> key_of m (at_pos ?T (p + 1 + j)) \<noteq> key" if "j < r" for j
    using Suc.prems(9) [of "Suc j"] that by simp
  have free: "\<not> occ (at_pos ?T (p + 1 + r))" using Suc.prems(8) by simp
  note step = insert_loop_step [OF ne Suc.prems(6) key o(1) nok o(2), of "value" val_len cur]
  show ?case
  proof (cases "node_dib ?nd < node_dib cur")
    case False
    let ?cur = "cur\<lparr>node_dib := node_dib cur + 1\<rparr>"
    have le: "dib_of cur \<le> dib_of ?nd" using False by (simp add: dib_of_def word_less_nat_alt)
    have "placeable m ?T (p + 1) ?cur"
      by (rule placeable_next [OF ne Suc.prems(5) refl o(1) le _ room' Suc.prems(4)])
        (use Suc.prems(2) in \<open>simp add: table_ok_def\<close>)
    then have "inserts m key value val_len hm ?cur (next_idx hm i)"
      using Suc.IH [OF Suc.prems(1-4) _ nx _ free ahead Suc.prems(10)] Suc.prems(7) by simp
    then show ?thesis using step False by (simp add: inserts_def key_of_def)
  next
    case True
    then have lt: "dib_of ?nd < dib_of cur" by (simp add: dib_of_def word_less_nat_alt)
    note d = displaced [OF ne Suc.prems(2,5) o(1) lt room' Suc.prems(4)]
    let ?hm = "hm\<lparr>hm_buckets := ?T[p mod length ?T := cur]\<rparr>" and ?cur = "?nd\<lparr>node_dib := node_dib ?nd + 1\<rparr>"
    have "inserts m key value val_len ?hm ?cur (next_idx hm i)"
    proof (rule Suc.IH [where p = "p + 1"])
      show "\<not> occ (at_pos (hm_buckets ?hm) (p + 1 + r))" using free d(5) [of r] Suc.prems(7) by simp
      show "occ (at_pos (hm_buckets ?hm) (p + 1 + j)) \<and>
          key_of m (at_pos (hm_buckets ?hm) (p + 1 + j)) \<noteq> key" if "j < r" for j
        using ahead [OF that] d(5) [of j] that Suc.prems(7) by simp
    qed (use Suc.prems(1,3,4,7,10) d(1-3) nx in \<open>simp_all add: room_def\<close>)
    then show ?thesis
      by (rule inserts_swap) (use step True d(4) in \<open>simp_all add: key_of_def Let_def\<close>)
  qed
qed

text \<open>Two lists of pairs with the same elements and distinct keys are the same map.\<close>

lemma map_of_mset_eq:
  assumes "mset xs = mset ys" "distinct (map fst ys)"
  shows "distinct (map fst xs) \<and> map_of xs = map_of ys"
proof -
  have d: "distinct (map fst xs)"
    using mset_eq_imp_distinct_iff [of "map fst xs" "map fst ys"] assms by simp
  have "map_of xs k = map_of ys k" for k
  proof (cases "map_of ys k")
    case None
    then have "k \<notin> fst ` set xs"
      using assms(1) by (simp add: map_of_eq_None_iff mset_eq_setD [OF assms(1)])
    then show ?thesis using None by (metis map_of_eq_None_iff)
  next
    case (Some v)
    then have "(k, v) \<in> set xs" using mset_eq_setD [OF assms(1)] by (simp add: map_of_SomeD)
    then show ?thesis using Some d by simp
  qed
  then show ?thesis using d by blast
qed

lemma room_count:
  assumes "hm_ok m hm"
  shows "room (hm_buckets hm) \<longleftrightarrow> hm_count hm < hm_capacity hm"
  using assms by (simp add: room_def hm_ok_def entries_length word_less_nat_alt)

lemma new_node_facts:
  assumes "c_string m key = Inr k" "FNV_1a k \<noteq> 0" "length k < 65536"
  shows "occ (new_node k key val val_len)" "node_ok m (new_node k key val val_len)"
    "dib_of (new_node k key val val_len) = 0" "key_of m (new_node k key val val_len) = k"
    "node_value (new_node k key val val_len) = val"
proof -
  have "unat (of_nat (length k) :: u16) = length k" using assms(3) by (simp add: unat_of_nat)
  then show "node_ok m (new_node k key val val_len)"
    using assms by (simp add: node_ok_def new_node_def)
qed (use assms in \<open>simp_all add: occ_def new_node_def dib_of_def key_of_def\<close>)

lemma hm_insert_absent:
  assumes ready: "hm_ok m hm" "hm_count hm < hm_capacity hm" "hm_count hm < 65536"
    and key: "c_string m key = Inr k" "FNV_1a k \<noteq> 0" "length k < 65536"
    and none: "hm_view m hm k = None"
  shows "\<exists>T'. hm_insert m (Some hm) key val val_len
      = Some (Inr (0, Some (hm\<lparr>hm_buckets := T', hm_count := hm_count hm + 1\<rparr>)))
    \<and> hm_ok m (hm\<lparr>hm_buckets := T', hm_count := hm_count hm + 1\<rparr>)
    \<and> hm_view m (hm\<lparr>hm_buckets := T', hm_count := hm_count hm + 1\<rparr>) = (hm_view m hm)(k \<mapsto> val)"
proof -
  let ?T = "hm_buckets hm" and ?nd = "new_node k key val val_len"
  have room: "room ?T" using room_count ready by blast
  note D = hm_okD [OF ready(1) room]
  note N = new_node_facts [OF key, of val val_len]
  obtain b where b: "unat (hm_capacity hm) = 2 ^ b" using D(1) by blast
  have nn: "key \<noteq> NULL" using key(1) by (auto simp: c_string_def mem_block_def)
  have cnt: "length (filter occ ?T) \<le> 65535"
    using ready(3) D(7) by (simp add: entries_length word_less_nat_alt)
  have i: "unat (idx hm (FNV_1a k)) = start_of ?T k mod length ?T"
    using idx_at [OF b D(2)] by (simp add: start_of_def)
  have pl: "placeable m ?T (start_of ?T k) ?nd"
    using N by (simp add: placeable_def carry_def home_def start_of_def new_node_def)
  obtain r where r: "r < length ?T" "\<not> occ (at_pos ?T (start_of ?T k + r))"
    "\<And>j. j < r \<Longrightarrow> occ (at_pos ?T (start_of ?T k + j))"
    using first_empty [OF room] by metis
  have tab: "table_ok m ?T" using D by (simp add: table_ok_def)
  have k64: "length k < 2 ^ 64" using key(3) by simp
  obtain T' where T': "hm_insert_loop m k (FNV_1a k) val val_len hm ?nd (idx hm (FNV_1a k))
        = Some (Inr (0, hm\<lparr>hm_buckets := T', hm_count := hm_count hm + 1\<rparr>))"
      "length T' = length ?T" "table_ok m T'"
      "mset (entries m T') = add_mset (k, val) (mset (entries m ?T))"
    using insert_loop_absent [OF b k64 D(2) tab room cnt pl i r(1,2)] r(3)
      absent_keys [OF ready(1) room none] N(4,5) unfolding inserts_def by metis
  have kn: "k \<notin> set (map fst (entries m ?T))"
    using none by (simp add: hm_view_def map_of_eq_None_iff)
  have m': "distinct (map fst (entries m T')) \<and> map_of (entries m T') = map_of ((k, val) # entries m ?T)"
    by (rule map_of_mset_eq) (use T'(4) kn D(6) in auto)
  have "unat (hm_count hm + 1) = length (entries m T')"
    using arg_cong [OF T'(4), of size] D(7) ready(3)
    by (simp add: unat_word_ariths word_less_nat_alt)
  then have "hm_ok m (hm\<lparr>hm_buckets := T', hm_count := hm_count hm + 1\<rparr>)"
    using D b T' m' by (auto simp: hm_ok_def)
  moreover have "hm_insert m (Some hm) key val val_len
      = Some (Inr (0, Some (hm\<lparr>hm_buckets := T', hm_count := hm_count hm + 1\<rparr>)))"
    using T'(1) nn key(1) by (simp add: hm_insert_def)
  moreover have "hm_view m (hm\<lparr>hm_buckets := T', hm_count := hm_count hm + 1\<rparr>)
      = (hm_view m hm)(k \<mapsto> val)"
    using m' by (simp add: hm_view_def)
  ultimately show ?thesis by blast
qed

lemma replace_entry:
  assumes "distinct (map fst es)" "(k, old) \<in> set es" "add_mset (k, old) (mset es') = add_mset (k, val) (mset es)"
  shows "distinct (map fst es') \<and> map_of es' = (map_of es)(k \<mapsto> val) \<and> length es' = length es"
proof -
  obtain zs where zs: "mset es = mset ((k, old) # zs)"
    using assms(2) by (metis mset.simps(2) ex_mset insert_DiffM set_mset_mset)
  then have zs': "mset es' = mset ((k, val) # zs)" using assms(3) by simp
  have "distinct (map fst ((k, old) # zs))" using map_of_mset_eq [OF zs [symmetric]] assms(1) by blast
  then have d: "distinct (map fst ((k, val) # zs))" and old: "map_of es = map_of ((k, old) # zs)"
    using map_of_mset_eq [OF zs] by simp_all
  have "length es' = length es" using arg_cong [OF assms(3), of size] by simp
  then show ?thesis using map_of_mset_eq [OF zs' d] old by simp
qed

lemma hm_insert_present:
  assumes ready: "hm_ok m hm" "hm_count hm < hm_capacity hm"
    and key: "c_string m key = Inr k" "length k < 65536"
    and some: "hm_view m hm k = Some old"
  shows "\<exists>T'. hm_insert m (Some hm) key val val_len
      = Some (Inr (0, Some (hm\<lparr>hm_buckets := T'\<rparr>)))
    \<and> hm_ok m (hm\<lparr>hm_buckets := T'\<rparr>)
    \<and> hm_view m (hm\<lparr>hm_buckets := T'\<rparr>) = (hm_view m hm)(k \<mapsto> val)"
proof -
  let ?T = "hm_buckets hm"
  have room: "room ?T" using room_count ready by blast
  note D = hm_okD [OF ready(1) room]
  obtain b where b: "unat (hm_capacity hm) = 2 ^ b" using D(1) by blast
  have nn: "key \<noteq> NULL" using key(1) by (auto simp: c_string_def mem_block_def)
  have k64: "length k < 2 ^ 64" using key(2) by simp
  obtain d where d: "stored_at m ?T k d" "node_value (at_pos ?T (start_of ?T k + d)) = old"
    using present_stored [OF ready(1) room some] by blast
  let ?p = "start_of ?T k + d"
  let ?nd = "at_pos ?T ?p" and ?x = "(at_pos ?T (start_of ?T k + d))\<lparr>node_value := val, node_val_len := ucast val_len\<rparr>"
  let ?T' = "?T[?p mod length ?T := ?x]"
  have nd: "occ ?nd" "key_of m ?nd = k" using d(1) by (auto simp: stored_at_def Let_def)
  note nok = at_node_ok [OF D(8,5) nd(1)]
  let ?t = "of_nat (?p mod length ?T) :: u64"
  have t: "unat ?t = ?p mod length ?T" by (rule slot_word [OF ready(1) room])
  have i: "unat (idx hm (FNV_1a k)) = (start_of ?T k + 0) mod length ?T"
    using idx_at [OF b D(2)] by (simp add: start_of_def)
  have "hm_insert_loop m k (FNV_1a k) val val_len hm (new_node k key val val_len)
      (idx hm (FNV_1a k)) = Some (Inr (0, hm\<lparr>hm_buckets := ?T'\<rparr>))"
    using insert_loop_found [OF ready(1) room k64 d(1) t _ i, of "new_node k key val val_len" val val_len] t
    by (simp add: new_node_def set_bucket_def)
  then have run: "hm_insert m (Some hm) key val val_len = Some (Inr (0, Some (hm\<lparr>hm_buckets := ?T'\<rparr>)))"
    using nn key(1) by (simp add: hm_insert_def)
  have x: "occ ?x" "key_of m ?x = k" "dib_of ?x = dib_of ?nd" "home ?T ?x = home ?T ?nd" "node_ok m ?x"
    using nd nok by (simp_all add: occ_def key_of_def dib_of_def home_def node_ok_def)
  have pl: "placeable m ?T ?p ?x"
    using x nd(1) D(3,4) by (simp add: placeable_def chain_def homes_def)
  have tab: "table_ok m ?T'"
    by (rule table_put [OF D(8) _ pl]) (use D x in \<open>simp_all add: table_ok_def\<close>)
  have ms: "add_mset (k, old) (mset (entries m ?T')) = add_mset (k, val) (mset (entries m ?T))"
    using entries_put [OF D(8) x(1), of m ?p] nd d(2) x(2) by simp
  have "(k, old) \<in> set (entries m ?T)" using some D(6) by (simp add: hm_view_def)
  note new = replace_entry [OF D(6) this ms]
  have "hm_ok m (hm\<lparr>hm_buckets := ?T'\<rparr>)"
    using D b tab new by (auto simp: hm_ok_def)
  moreover have "hm_view m (hm\<lparr>hm_buckets := ?T'\<rparr>) = (hm_view m hm)(k \<mapsto> val)"
    using new by (simp add: hm_view_def)
  ultimately show ?thesis using run by blast
qed

lemma hm_create_ok_lemma:
  assumes "unat capacity = 2 ^ b" "hm_create mm capacity = (Some hm, m')"
  shows "hm_ok m hm" "hm_view m hm = (\<lambda>_. None)" "hm_count hm = 0" "hm_capacity hm = capacity"
proof -
  have hm: "hm = \<lparr>hm_buckets = replicate (unat capacity) empty_node,
                      hm_capacity = capacity, hm_count = 0, hm_load_factor = 3 / 4\<rparr>"
    using assms(2) by (auto simp: hm_create_def split: option.splits)
  have ne: "replicate (unat capacity) empty_node \<noteq> []" using assms(1) by auto
  have at: "\<not> occ (at_pos (replicate (unat capacity) empty_node) p)" for p
    using at_pos_in [OF ne, of p] by (simp add: occ_def empty_node_def)
  have e: "entries m (replicate n empty_node) = []" for n
    by (simp add: entries_def occ_def empty_node_def)
  show "hm_ok m hm" "hm_view m hm = (\<lambda>_. None)" "hm_count hm = 0" "hm_capacity hm = capacity"
    using assms(1) at e by (auto simp: hm hm_ok_def table_ok_def chain_def homes_def nodes_ok_def
        hm_view_def occ_def empty_node_def)
qed



section \<open>Deletion\<close>

text \<open>Two tables that differ in flags and count only.\<close>

definition same_nodes :: "hashmap \<Rightarrow> hashmap \<Rightarrow> bool" where
  "same_nodes hm hm' \<longleftrightarrow>
     hm_capacity hm' = hm_capacity hm
     \<and> map (\<lambda>nd. nd\<lparr>node_flags := 0\<rparr>) (hm_buckets hm') = map (\<lambda>nd. nd\<lparr>node_flags := 0\<rparr>) (hm_buckets hm)"

lemma same_nodes_sym: "same_nodes hm hm' \<Longrightarrow> same_nodes hm' hm"
  by (simp add: same_nodes_def)

lemma same_nodes_nth:
  assumes "same_nodes hm hm'" "i < length (hm_buckets hm)"
  shows "i < length (hm_buckets hm')"
    "(hm_buckets hm' ! i)\<lparr>node_flags := 0\<rparr> = (hm_buckets hm ! i)\<lparr>node_flags := 0\<rparr>"
  using assms arg_cong [of _ _ length] by (auto simp: same_nodes_def list_eq_iff_nth_eq)

lemma flags_eqD:
  assumes "(nd' :: hm_node)\<lparr>node_flags := 0\<rparr> = nd\<lparr>node_flags := 0\<rparr>"
  shows "node_hash nd' = node_hash nd" "node_dib nd' = node_dib nd" "node_value nd' = node_value nd"
    "key_match m nd' hash key = key_match m nd hash key"
  using assms by (cases nd; cases nd'; simp add: key_match_def)+

lemma same_nodes_bucket:
  assumes "same_nodes hm hm'"
  shows "bucket hm i = Inl e \<Longrightarrow> bucket hm' i = Inl e"
    "bucket hm i = Inr nd \<Longrightarrow> \<exists>nd'. bucket hm' i = Inr nd' \<and> nd'\<lparr>node_flags := 0\<rparr> = nd\<lparr>node_flags := 0\<rparr>"
  using same_nodes_nth [OF assms, of "unat i"] same_nodes_nth [OF same_nodes_sym [OF assms], of "unat i"]
  by (auto simp: bucket_def split: if_splits)

lemma probe_same_nodes:
  assumes "probe_loop m key hash hm dib i = Some r" "same_nodes hm hm'"
  shows "probe_loop m key hash hm' dib i = Some r"
proof -
  have "same_nodes hm hm' \<longrightarrow> probe_loop m key hash hm' dib i = Some r"
  proof (rule probe_loop.raw_induct [where P = "\<lambda>m key hash hm dib i r.
      same_nodes hm hm' \<longrightarrow> probe_loop m key hash hm' dib i = Some r", OF _ assms(1)], goal_cases)
    case (1 f m key hash hm dib i r)
    show ?case
    proof
      assume s: "same_nodes hm hm'"
      then have c: "next_idx hm' i = next_idx hm i" by (simp add: next_idx_def same_nodes_def)
      show "probe_loop m key hash hm' dib i = Some r"
      proof (cases "bucket hm i")
        case (Inl e)
        then show ?thesis using 1(2) same_nodes_bucket(1) [OF s Inl]
          by (subst probe_loop.simps) simp
      next
        case (Inr nd)
        then obtain nd' where nd': "bucket hm' i = Inr nd'"
          "nd'\<lparr>node_flags := 0\<rparr> = nd\<lparr>node_flags := 0\<rparr>"
          using same_nodes_bucket(2) [OF s] by blast
        show ?thesis using 1(1) [of m key hash hm "dib + 1" "next_idx hm i" r] 1(2) s Inr nd'(1) c
            flags_eqD [OF nd'(2)]
          by (subst probe_loop.simps) (auto split: sum.splits if_splits)
      qed
    qed
  qed
  then show ?thesis using assms(2) by blast
qed

lemma probe_same_nodes_eq:
  assumes "same_nodes hm hm'"
  shows "probe_loop m key hash hm' dib i = probe_loop m key hash hm dib i"
proof (cases "probe_loop m key hash hm dib i")
  case (Some r)
  then show ?thesis using probe_same_nodes [OF Some assms] by simp
next
  case None
  then show ?thesis
    using probe_same_nodes [OF _ same_nodes_sym [OF assms], of m key hash dib i]
    by (cases "probe_loop m key hash hm' dib i") auto
qed

text \<open>The slot a search reports is a bucket.\<close>

lemma probe_in_range:
  assumes "probe_loop m key hash hm dib i = Some (Inr (Some t))"
  shows "unat t < length (hm_buckets hm)"
proof -
  have "\<forall>t. r = Inr (Some t) \<longrightarrow> unat t < length (hm_buckets hm)"
    if "probe_loop m key hash hm dib i = Some r" for r
    by (rule probe_loop.raw_induct [where P = "\<lambda>m key hash hm dib i r.
          \<forall>t. r = Inr (Some t) \<longrightarrow> unat t < length (hm_buckets hm)", OF _ that])
      (auto simp: bucket_def split: sum.splits if_splits)
  then show ?thesis using assms by blast
qed

lemma tomb_slot_same:
  assumes "unat t < length (hm_buckets hm)"
  shows "same_nodes hm (tomb_slot hm t)"
  using assms
  by (auto simp: same_nodes_def tomb_slot_def set_bucket_def list_eq_iff_nth_eq nth_list_update)

lemma get_result_same:
  assumes "same_nodes hm hm'" "\<forall>t. slot = Some t \<longrightarrow> unat t < length (hm_buckets hm)"
  shows "get_result hm' slot = get_result hm slot"
proof (cases slot)
  case (Some t)
  then have "unat t < length (hm_buckets hm)" using assms(2) by simp
  from flags_eqD(3) [OF same_nodes_nth(2) [OF assms(1) this]] show ?thesis
    using Some by (simp add: get_result_def)
qed (simp add: get_result_def)

lemma hm_get_same_nodes:
  assumes "same_nodes hm hm'"
  shows "hm_get m (Some hm') key = hm_get m (Some hm) key"
proof -
  have "hm_get_loop m k h hm' 0 (idx hm' h) = hm_get_loop m k h hm 0 (idx hm h)" for k h
  proof -
    have i: "idx hm' h = idx hm h" using assms by (simp add: idx_def same_nodes_def)
    have "map_sum id (get_result hm') r = map_sum id (get_result hm) r"
      if "probe_loop m k h hm 0 (idx hm h) = Some r" for r
    proof (cases r)
      case (Inr b)
      have "get_result hm' b = get_result hm b"
        by (rule get_result_same [OF assms]) (use that Inr probe_in_range in auto)
      then show ?thesis using Inr by simp
    qed simp
    then show ?thesis
      unfolding get_eq_probe probe_same_nodes_eq [OF assms] i
      by (cases "probe_loop m k h hm 0 (idx hm h)") simp_all
  qed
  then show ?thesis by (auto simp: hm_get_def split: sum.splits)
qed

lemma hm_delete_cases:
  assumes "hm_delete m (Some hm) key fv = Some (Inr (rc, hm'))"
  obtains "rc = - 1" "hm' = Some hm"
  | t where "rc = 0" "hm' = Some (tomb_slot hm t)" "unat t < length (hm_buckets hm)"
proof (cases "key = NULL")
  case True
  then show ?thesis using assms that(1) by (simp add: hm_delete_def)
next
  case False
  then obtain k where k: "c_string m key = Inr k"
    using assms by (cases "c_string m key") (auto simp: hm_delete_def)
  let ?p = "probe_loop m k (FNV_1a k) hm 0 (idx hm (FNV_1a k))"
  obtain slot where p: "?p = Some (Inr slot)"
    and r: "(rc, hm') = apsnd Some (delete_result hm slot)"
    using assms False k
    by (cases ?p) (auto simp: hm_delete_def delete_eq_probe map_sum_def split: sum.splits)
  show ?thesis
    using p r that probe_in_range [of m k "FNV_1a k" hm 0 "idx hm (FNV_1a k)"]
    by (cases slot) (auto simp: delete_result_def)
qed

lemma hm_delete_same_nodes:
  assumes "hm_delete m (Some hm) key fv = Some (Inr (rc, Some hm1))" "same_nodes hm hm'"
  shows "\<exists>hm2. hm_delete m (Some hm') key fv = Some (Inr (rc, Some hm2)) \<and> same_nodes hm' hm2"
proof (cases "key = NULL")
  case True
  then show ?thesis using assms by (auto simp: hm_delete_def same_nodes_def)
next
  case False
  then obtain k where k: "c_string m key = Inr k"
    using assms by (cases "c_string m key") (auto simp: hm_delete_def)
  let ?p = "\<lambda>h. probe_loop m k (FNV_1a k) h 0 (idx h (FNV_1a k))"
  have i: "idx hm' (FNV_1a k) = idx hm (FNV_1a k)" using assms(2) by (simp add: idx_def same_nodes_def)
  obtain slot where p: "?p hm = Some (Inr slot)" and r: "(rc, Some hm1) = apsnd Some (delete_result hm slot)"
    using assms False k
    by (cases "?p hm") (auto simp: hm_delete_def delete_eq_probe map_sum_def split: sum.splits)
  have p': "?p hm' = Some (Inr slot)" using p probe_same_nodes_eq [OF assms(2)] i by simp
  have d: "hm_delete m (Some hm') key fv = Some (Inr (apsnd Some (delete_result hm' slot)))"
    using p' False k by (simp add: hm_delete_def delete_eq_probe)
  show ?thesis
  proof (cases slot)
    case None
    then show ?thesis using d r by (simp add: delete_result_def same_nodes_def)
  next
    case (Some t)
    then have "same_nodes hm' (tomb_slot hm' t)" using probe_in_range p' tomb_slot_same by blast
    then show ?thesis using d r Some by (simp add: delete_result_def)
  qed
qed

lemma hm_delete_view:
  assumes "hm_ok m hm" "room (hm_buckets hm)" "c_string m key = Inr k" "length k < 2 ^ 64"
  shows "\<exists>hm'. hm_delete m (Some hm) key fv
    = Some (Inr (if hm_view m hm k = None then - 1 else 0, Some hm'))
    \<and> hm' = (if hm_view m hm k = None then hm else hm') \<and> same_nodes hm hm'
    \<and> hm_count hm' = hm_count hm - (if hm_view m hm k = None then 0 else 1)"
proof -
  have nn: "key \<noteq> NULL" using assms(3) by (auto simp: c_string_def mem_block_def)
  show ?thesis
    using probe_spec [OF assms(1,2,4)] nn assms(3) tomb_slot_same
    by (auto simp: hm_delete_def delete_eq_probe delete_result_def tomb_slot_def set_bucket_def
        same_nodes_def split: option.splits)
qed


end
