(* ===== verification/Hashmap_Props.thy ===== *)
theory Hashmap_Props
  imports Hashmap_Probing
begin

text \<open>
  What the hash map promises its clients, as a contract (\<open>kv_table\<close>), and the properties of the
  operations of \<^verbatim>\<open>src/core/hashmap/hashmap.c\<close>: the finite map they implement while nothing is
  deleted, and what deletion, the hash value 0 and a full table really do.
\<close>

section \<open>The contract of a key-value table\<close>

text \<open>
  \<open>put s h v\<close> stores \<open>v\<close> under the key the handle \<open>h\<close> names; it must succeed, for what can be
  stored at all, while the load of the table is less than \<open>bound s\<close>. A client that only stores then sees a map.
\<close>

fun put_all :: "('s \<Rightarrow> 'h \<Rightarrow> 'v \<Rightarrow> 's option) \<Rightarrow> 's \<Rightarrow> ('h \<times> 'v) list \<Rightarrow> 's option" where
  "put_all put s [] = Some s"
| "put_all put s ((h, v) # xs) =
     (case put s h v of None \<Rightarrow> None | Some s' \<Rightarrow> put_all put s' xs)"

locale kv_table =
  fixes ok :: "'s \<Rightarrow> bool" and view :: "'s \<Rightarrow> 'k \<Rightarrow> 'v option" and load :: "'s \<Rightarrow> nat"
    and bound :: "'s \<Rightarrow> nat" and storable :: "'h \<Rightarrow> 'v \<Rightarrow> bool" and name :: "'h \<Rightarrow> 'k"
    and put :: "'s \<Rightarrow> 'h \<Rightarrow> 'v \<Rightarrow> 's option"
  assumes put_law: "ok s \<Longrightarrow> load s < bound s \<Longrightarrow> storable h v \<Longrightarrow>
      \<exists>s'. put s h v = Some s' \<and> ok s' \<and> view s' = (view s)(name h \<mapsto> v)
        \<and> load s' \<le> load s + 1 \<and> bound s' = bound s"
begin

lemma put_all_view:
  "ok s \<Longrightarrow> load s + length xs \<le> bound s \<Longrightarrow> (\<And>h v. (h, v) \<in> set xs \<Longrightarrow> storable h v) \<Longrightarrow>
   \<exists>s'. put_all put s xs = Some s' \<and> ok s' \<and> load s' \<le> load s + length xs \<and> bound s' = bound s
     \<and> view s' = view s ++ map_of (rev (map (\<lambda>(h, v). (name h, v)) xs))"
proof (induction xs arbitrary: s)
  case (Cons x xs)
  obtain h v where x: "x = (h, v)" by (cases x)
  have "load s < bound s" "storable h v" using Cons.prems(2,3) x by auto
  then obtain s1 where s1: "put s h v = Some s1" "ok s1" "view s1 = (view s)(name h \<mapsto> v)"
    "load s1 \<le> load s + 1" "bound s1 = bound s"
    using put_law [OF Cons.prems(1)] by blast
  have "load s1 + length xs \<le> bound s1" using s1 Cons.prems(2) by simp
  moreover have "\<And>h v. (h, v) \<in> set xs \<Longrightarrow> storable h v" using Cons.prems(3) by auto
  ultimately obtain s' where s': "put_all put s1 xs = Some s'" "ok s'"
    "load s' \<le> load s1 + length xs" "bound s' = bound s1"
    "view s' = view s1 ++ map_of (rev (map (\<lambda>(h, v). (name h, v)) xs))"
    using Cons.IH [OF s1(2)] by blast
  have "view s' = view s ++ map_of (rev (map (\<lambda>(h, v). (name h, v)) (x # xs)))"
    unfolding s'(5) s1(3) x
    by (auto simp: map_add_def fun_eq_iff split: option.splits)
  then show ?case using s1 s' x by auto
qed simp

end

text \<open>
  The hash map over a fixed memory: a handle is the pointer to the key and the value's length.
\<close>

definition key_at :: "mem \<Rightarrow> ptr \<Rightarrow> bytes" where
  "key_at m p = (case c_string m p of Inl _ \<Rightarrow> [] | Inr k \<Rightarrow> k)"

text \<open>A key the table can hold: its hash is not the empty mark, its length fits 16 bits.\<close>

definition storable_key :: "bytes \<Rightarrow> bool" where
  "storable_key k \<longleftrightarrow> FNV_1a k \<noteq> 0 \<and> length k < 65536"

definition storable_at :: "mem \<Rightarrow> ptr \<Rightarrow> bool" where
  "storable_at m p \<longleftrightarrow> (\<exists>k. c_string m p = Inr k \<and> storable_key k)"

definition hm_put :: "mem \<Rightarrow> hashmap \<Rightarrow> ptr \<times> u64 \<Rightarrow> ptr \<Rightarrow> hashmap option" where
  "hm_put m hm h val =
     (case hm_insert m (Some hm) (fst h) val (snd h) of
        Some (Inr (rc, Some hm')) \<Rightarrow> if rc = 0 then Some hm' else None
      | _ \<Rightarrow> None)"

definition hm_bound :: "hashmap \<Rightarrow> nat" where
  "hm_bound hm = min (unat (hm_capacity hm)) 65536"

lemma hm_insert_view:
  assumes "hm_ok m hm" "unat (hm_count hm) < hm_bound hm" "c_string m key = Inr k" "storable_key k"
  shows "\<exists>hm'. hm_insert m (Some hm) key val val_len = Some (Inr (0, Some hm'))
    \<and> hm_ok m hm' \<and> hm_view m hm' = (hm_view m hm)(k \<mapsto> val) \<and> hm_capacity hm' = hm_capacity hm
    \<and> unat (hm_count hm') = unat (hm_count hm) + (if hm_view m hm k = None then 1 else 0)"
proof -
  have c: "hm_count hm < hm_capacity hm" "hm_count hm < 65536"
    using assms(2) by (simp_all add: hm_bound_def word_less_nat_alt)
  have s: "FNV_1a k \<noteq> 0" "length k < 65536" using assms(4) by (auto simp: storable_key_def)
  show ?thesis
  proof (cases "hm_view m hm k")
    case None
    have "unat (hm_count hm + 1) = unat (hm_count hm) + 1"
      using c(2) by (simp add: unat_word_ariths word_less_nat_alt)
    then show ?thesis
      using hm_insert_absent [OF assms(1) c assms(3) s None, of val val_len] None by fastforce
  next
    case (Some old)
    then show ?thesis
      using hm_insert_present [OF assms(1) c(1) assms(3) s(2) Some, of val val_len] by fastforce
  qed
qed

interpretation hm_table: kv_table "hm_ok m" "hm_view m" "\<lambda>hm. unat (hm_count hm)" hm_bound
  "\<lambda>h _. storable_at m (fst h)" "\<lambda>h. key_at m (fst h)" "hm_put m" for m
proof
  fix s v and h :: "ptr \<times> u64"
  assume a: "hm_ok m s" "unat (hm_count s) < hm_bound s" "storable_at m (fst h)"
  then obtain k where k: "c_string m (fst h) = Inr k" "storable_key k"
    by (auto simp: storable_at_def)
  from hm_insert_view [OF a(1,2) k, of v "snd h"]
  show "\<exists>s'. hm_put m s h v = Some s' \<and> hm_ok m s' \<and>
      hm_view m s' = (hm_view m s)(key_at m (fst h) \<mapsto> v) \<and>
      unat (hm_count s') \<le> unat (hm_count s) + 1 \<and> hm_bound s' = hm_bound s"
    using k(1) by (auto simp: hm_put_def key_at_def hm_bound_def)
qed

lemma hm_lookup:
  assumes "hm_ok m hm" "hm_count hm < hm_capacity hm" "c_string m key = Inr k" "length k < 2 ^ 64"
  shows "hm_get m (Some hm) key = Some (Inr (case hm_view m hm k of None \<Rightarrow> NULL | Some v \<Rightarrow> v))"
  using hm_get_view [OF assms(1) _ assms(3,4)] room_count [OF assms(1)] assms(2) by blast

section \<open>Properties\<close>

text \<open>A memory with a few keys, and fresh tables, for the concrete instances.\<close>

definition demo_mem :: mem where
  "demo_mem =
     \<lparr>blocks = (\<lambda>_. None)(0 \<mapsto> [97, 0], 1 \<mapsto> [101, 0], 2 \<mapsto> [105, 0], 3 \<mapsto> [98, 0], 4 \<mapsto> [0xd5, 0x6b, 0xb9, 0x53, 0x42, 0x87, 0x08, 0x36, 0]),
      next_block = 5, avail = 64\<rparr>"

definition demo_table :: "u64 \<Rightarrow> hashmap" where
  "demo_table n = \<lparr>hm_buckets = replicate (unat n) empty_node, hm_capacity = n, hm_count = 0,
     hm_load_factor = 3 / 4\<rparr>"

lemma demo_table_create: "\<exists>m'. hm_create (mem_init (32 + 32 * unat n)) n = (Some (demo_table n), m')"
  by (simp add: hm_create_def mem_reserve_def mem_init_def demo_table_def)

lemma demo_table_ok:
  assumes "unat n = 2 ^ b"
  shows "hm_ok m (demo_table n)" "hm_view m (demo_table n) = (\<lambda>_. None)"
    "hm_count (demo_table n) = 0" "hm_capacity (demo_table n) = n"
  using demo_table_create [of n] hm_create_ok_lemma [OF assms] by blast+

lemma demo_strings:
  "c_string demo_mem (Ptr 0 0) = Inr [97]" "c_string demo_mem (Ptr 1 0) = Inr [101]"
  "c_string demo_mem (Ptr 2 0) = Inr [105]" "c_string demo_mem (Ptr 3 0) = Inr [98]"
  "c_string demo_mem (Ptr 4 0) = Inr [0xd5, 0x6b, 0xb9, 0x53, 0x42, 0x87, 0x08, 0x36]"
  by (simp_all add: c_string_def mem_block_def demo_mem_def)

lemma demo_storable: "storable_key [97]" "storable_key [101]" "storable_key [105]" "storable_key [98]"
  by (simp_all add: storable_key_def FNV_1a_def fnv_step_def)

text \<open>
  C6. \<open>hm_insert\<close> is a map update: on a well-formed table with room, for a key that can be stored,
  it returns (never loops, never faults) with 0, keeps the invariant, and changes the map the
  table represents at that key only; the count grows by one exactly when the key is new.
\<close>

theorem hm_insert_updates:
  assumes "hm_ok m hm" "unat (hm_count hm) < hm_bound hm" "c_string m key = Inr k" "storable_key k"
  shows "\<exists>hm'. hm_insert m (Some hm) key val val_len = Some (Inr (0, Some hm'))
    \<and> hm_ok m hm' \<and> hm_view m hm' = (hm_view m hm)(k \<mapsto> val) \<and> hm_capacity hm' = hm_capacity hm
    \<and> unat (hm_count hm') = unat (hm_count hm) + (if hm_view m hm k = None then 1 else 0)"
  by (rule hm_insert_view [OF assms])

theorem hm_insert_updates_witness:
  "\<exists>hm'. hm_insert demo_mem (Some (demo_table 4)) (Ptr 0 0) (Ptr 9 0) 1 = Some (Inr (0, Some hm'))
    \<and> hm_view demo_mem hm' = [[97] \<mapsto> Ptr 9 0]"
proof -
  have t: "hm_ok demo_mem (demo_table 4)" by (rule demo_table_ok [where b = 2]) simp
  have r: "unat (hm_count (demo_table 4)) < hm_bound (demo_table 4)"
    by (simp add: demo_table_def hm_bound_def)
  show ?thesis
    using hm_insert_updates [OF t r demo_strings(1) demo_storable(1), of "Ptr 9 0" 1]
      demo_table_ok(2) [where b = 2 and n = 4 and m = demo_mem] by auto
qed

text \<open>
  C7. \<open>hm_get\<close> is the lookup of that map: on a well-formed table with room it returns, without
  fault, the value stored under the key, and \<open>NULL\<close> when there is none.
\<close>

theorem hm_get_looks_up:
  assumes "hm_ok m hm" "hm_count hm < hm_capacity hm" "c_string m key = Inr k" "length k < 2 ^ 64"
  shows "hm_get m (Some hm) key = Some (Inr (case hm_view m hm k of None \<Rightarrow> NULL | Some v \<Rightarrow> v))"
  by (rule hm_lookup [OF assms])

theorem hm_get_looks_up_witness:
  "hm_get demo_mem (Some (demo_table 4)) (Ptr 1 0) = Some (Inr NULL)"
proof -
  have t: "hm_ok demo_mem (demo_table 4)" by (rule demo_table_ok [where b = 2]) simp
  have r: "hm_count (demo_table 4) < hm_capacity (demo_table 4)" by (simp add: demo_table_def)
  show ?thesis
    using hm_get_looks_up [OF t r demo_strings(2)]
      demo_table_ok(2) [where b = 2 and n = 4 and m = demo_mem] by simp
qed

text \<open>
  C22. Any run of insertions on a well-formed table that leaves room succeeds, and every lookup
  afterwards returns the last value stored under the key, or what the table held before.
\<close>

theorem hm_inserts_then_get:
  assumes "hm_ok m hm" "unat (hm_count hm) + length xs < hm_bound hm"
    and "\<forall>(h, v) \<in> set xs. storable_at m (fst h)"
    and "c_string m key = Inr k" "length k < 2 ^ 64"
  shows "\<exists>hm'. put_all (hm_put m) hm xs = Some hm' \<and> hm_ok m hm'
    \<and> hm_get m (Some hm') key = Some (Inr
        (case (hm_view m hm ++ map_of (rev (map (\<lambda>(h, v). (key_at m (fst h), v)) xs))) k of
           None \<Rightarrow> NULL | Some v \<Rightarrow> v))"
proof -
  obtain hm' where hm': "put_all (hm_put m) hm xs = Some hm'" "hm_ok m hm'"
    "unat (hm_count hm') \<le> unat (hm_count hm) + length xs" "hm_bound hm' = hm_bound hm"
    "hm_view m hm' = hm_view m hm ++ map_of (rev (map (\<lambda>(h, v). (key_at m (fst h), v)) xs))"
    using hm_table.put_all_view [of m hm xs] assms(1-3) by fastforce
  have "unat (hm_count hm') < hm_bound hm'" using hm'(3,4) assms(2) by linarith
  then have "hm_count hm' < hm_capacity hm'" by (simp add: hm_bound_def word_less_nat_alt)
  then show ?thesis using hm_lookup [OF hm'(2) _ assms(4,5)] hm' by auto
qed

theorem hm_inserts_then_get_witness:
  "\<exists>hm'. put_all (hm_put demo_mem) (demo_table 8)
        [((Ptr 0 0, 1), Ptr 9 0), ((Ptr 1 0, 1), Ptr 10 0), ((Ptr 0 0, 1), Ptr 11 0)] = Some hm'
    \<and> hm_get demo_mem (Some hm') (Ptr 0 0) = Some (Inr (Ptr 11 0))"
proof -
  have t: "hm_ok demo_mem (demo_table 8)" by (rule demo_table_ok [where b = 3]) simp
  have s: "storable_at demo_mem (Ptr 0 0)" "storable_at demo_mem (Ptr 1 0)"
    using demo_strings demo_storable by (auto simp: storable_at_def)
  have n: "key_at demo_mem (Ptr 0 0) = [97]" "key_at demo_mem (Ptr 1 0) = [101]"
    using demo_strings by (simp_all add: key_at_def)
  have v: "hm_view demo_mem (demo_table 8) = (\<lambda>_. None)"
    by (rule demo_table_ok(2) [where b = 3]) simp
  show ?thesis
    using hm_inserts_then_get [OF t _ _ demo_strings(1), of
        "[((Ptr 0 0, 1), Ptr 9 0), ((Ptr 1 0, 1), Ptr 10 0), ((Ptr 0 0, 1), Ptr 11 0)]"] s n v
    by (auto simp: demo_table_def hm_bound_def)
qed

text \<open>
  \<open>hm_create\<close> with a power-of-two capacity yields a well-formed table that holds nothing;
  it returns \<open>NULL\<close> and keeps no memory when one of its two allocations fails.
\<close>

theorem hm_create_spec:
  assumes "unat capacity = 2 ^ b"
  shows "(32 + 32 * unat capacity \<le> avail m \<longrightarrow>
      (\<exists>hm m'. hm_create m capacity = (Some hm, m') \<and> hm_ok m' hm \<and> hm_view m' hm = (\<lambda>_. None)
         \<and> hm_count hm = 0 \<and> hm_capacity hm = capacity
         \<and> avail m' + 32 + 32 * unat capacity = avail m))
    \<and> (avail m < 32 + 32 * unat capacity \<longrightarrow> hm_create m capacity = (None, m))"
proof (intro conjI impI)
  assume a: "32 + 32 * unat capacity \<le> avail m"
  then have r: "32 \<le> avail m" "32 * unat capacity \<le> avail m - 32" by linarith+
  obtain hm m' where c: "hm_create m capacity = (Some hm, m')"
    "avail m' + 32 + 32 * unat capacity = avail m"
    using r by (simp add: hm_create_def mem_reserve_def)
  then show "\<exists>hm m'. hm_create m capacity = (Some hm, m') \<and> hm_ok m' hm
      \<and> hm_view m' hm = (\<lambda>_. None) \<and> hm_count hm = 0 \<and> hm_capacity hm = capacity
      \<and> avail m' + 32 + 32 * unat capacity = avail m"
    using hm_create_ok_lemma [OF assms c(1)] by blast
next
  assume "avail m < 32 + 32 * unat capacity"
  then show "hm_create m capacity = (None, m)"
    by (auto simp: hm_create_def mem_reserve_def mem_release_def)
qed

theorem hm_create_spec_witness:
  "hm_create (mem_init 100) 4 = (None, mem_init 100)
   \<and> (\<exists>hm m'. hm_create (mem_init 200) 4 = (Some hm, m') \<and> hm_ok m' hm)"
  using hm_create_spec [where b = 2 and capacity = 4 and m = "mem_init 100"]
    hm_create_spec [where b = 2 and capacity = 4 and m = "mem_init 200"]
  by (simp add: mem_init_def) blast

text \<open>
  Deleting a key does not remove it: whatever the table holds, every lookup after
  \<open>hm_delete\<close>, of the deleted key too, answers what it answered before. \<open>hm_get\<close> never looks at
  the tombstone flag.
\<close>

theorem hm_delete_changes_no_lookup:
  assumes "hm_delete m (Some hm) key fv = Some (Inr (rc, Some hm'))"
  shows "hm_get m (Some hm') key' = hm_get m (Some hm) key'"
  using hm_delete_cases [OF assms] tomb_slot_same hm_get_same_nodes
  by (metis option.inject)

definition one_entry :: hashmap where
  "one_entry = set_bucket ((demo_table 4)\<lparr>hm_count := 1\<rparr>) 0 (new_node [97] (Ptr 0 0) (Ptr 9 0) 1)"

lemma one_entry_delete:
  "hm_delete demo_mem (Some one_entry) (Ptr 0 0) 1 = Some (Inr (0, Some (tomb_slot one_entry 0)))"
  by code_simp

theorem hm_delete_changes_no_lookup_witness:
  "hm_delete demo_mem (Some one_entry) (Ptr 0 0) 1 = Some (Inr (0, Some (tomb_slot one_entry 0)))
   \<and> hm_get demo_mem (Some (tomb_slot one_entry 0)) (Ptr 0 0) = Some (Inr (Ptr 9 0))"
proof -
  have "hm_get demo_mem (Some one_entry) (Ptr 0 0) = Some (Inr (Ptr 9 0))" by code_simp
  then show ?thesis
    using hm_delete_changes_no_lookup [OF one_entry_delete] one_entry_delete by simp
qed

text \<open>
  On a well-formed table with room \<open>hm_delete\<close> returns, without fault: 0 and a count one
  smaller when the key is stored, -1 and the table untouched when it is not.
\<close>

theorem hm_delete_returns:
  assumes "hm_ok m hm" "hm_count hm < hm_capacity hm" "c_string m key = Inr k" "length k < 2 ^ 64"
  shows "if hm_view m hm k = None
    then hm_delete m (Some hm) key fv = Some (Inr (- 1, Some hm))
    else \<exists>hm'. hm_delete m (Some hm) key fv = Some (Inr (0, Some hm'))
           \<and> hm_count hm' = hm_count hm - 1 \<and> same_nodes hm hm'"
proof -
  have "room (hm_buckets hm)" using room_count [OF assms(1)] assms(2) by blast
  from hm_delete_view [OF assms(1) this assms(3,4), of fv] show ?thesis by (auto split: if_splits)
qed

theorem hm_delete_returns_witness:
  "hm_delete demo_mem (Some (demo_table 4)) (Ptr 3 0) 1 = Some (Inr (- 1, Some (demo_table 4)))"
proof -
  have t: "hm_ok demo_mem (demo_table 4)" by (rule demo_table_ok [where b = 2]) simp
  have r: "hm_count (demo_table 4) < hm_capacity (demo_table 4)" by (simp add: demo_table_def)
  show ?thesis
    using hm_delete_returns [OF t r demo_strings(4), of 1]
      demo_table_ok(2) [where b = 2 and n = 4 and m = demo_mem] by simp
qed

lemma hm_delete_again:
  assumes "hm_delete m (Some hm) key fv = Some (Inr (0, hm'))"
  shows "\<exists>hm''. hm_delete m hm' key fv' = Some (Inr (0, Some hm''))
           \<and> hm_count hm'' = hm_count hm - 2"
proof -
  have nn: "key \<noteq> NULL" using assms by (auto simp: hm_delete_def)
  then obtain k where k: "c_string m key = Inr k"
    using assms by (cases "c_string m key") (auto simp: hm_delete_def)
  let ?p = "\<lambda>h. probe_loop m k (FNV_1a k) h 0 (idx h (FNV_1a k))"
  obtain slot where p: "?p hm = Some (Inr slot)"
    and r: "(0, hm') = apsnd Some (delete_result hm slot)"
    using assms nn k
    by (cases "?p hm") (auto simp: hm_delete_def delete_eq_probe map_sum_def split: sum.splits)
  then obtain t where t: "slot = Some t" "hm' = Some (tomb_slot hm t)"
    by (cases slot) (auto simp: delete_result_def)
  have same: "same_nodes hm (tomb_slot hm t)"
    using probe_in_range p t(1) tomb_slot_same by blast
  then have "idx (tomb_slot hm t) (FNV_1a k) = idx hm (FNV_1a k)"
    by (simp add: idx_def same_nodes_def)
  then have "?p (tomb_slot hm t) = Some (Inr (Some t))"
    using probe_same_nodes_eq [OF same] p t(1) by simp
  then show ?thesis
    using t(2) nn k
    by (auto simp: hm_delete_def delete_eq_probe delete_result_def tomb_slot_def set_bucket_def)
qed

lemma view_zero_hash:
  assumes "hm_ok m hm" "FNV_1a k = 0"
  shows "hm_view m hm k = None"
proof (rule ccontr)
  assume "hm_view m hm k \<noteq> None"
  then obtain v where "hm_view m hm k = Some v" by blast
  then obtain i where i: "i < length (hm_buckets hm)" "occ (hm_buckets hm ! i)"
    "key_of m (hm_buckets hm ! i) = k"
    by (rule view_slot) auto
  then have "node_ok m (hm_buckets hm ! i)"
    using assms(1) by (auto simp: hm_ok_def table_ok_def nodes_ok_def)
  then have "node_hash (hm_buckets hm ! i) = FNV_1a k"
    using i(3) by (auto simp: node_ok_def key_of_def)
  then show False using i(2) assms(2) by (simp add: occ_def)
qed

text \<open>Runs of client calls, for the behaviours that need several of them.\<close>

datatype hm_op = Put ptr ptr u64 | Del ptr

fun hm_step :: "mem \<Rightarrow> hashmap option \<Rightarrow> hm_op \<Rightarrow> (int \<times> hashmap option) res option" where
  "hm_step m hmp (Put key val len) = hm_insert m hmp key val len"
| "hm_step m hmp (Del key) = hm_delete m hmp key 1"

fun hm_run :: "mem \<Rightarrow> hashmap option \<Rightarrow> hm_op list \<Rightarrow> (int list \<times> hashmap option) res option" where
  "hm_run m hmp [] = Some (Inr ([], hmp))"
| "hm_run m hmp (x # xs) =
     (case hm_step m hmp x of
        None \<Rightarrow> None
      | Some (Inl e) \<Rightarrow> Some (Inl e)
      | Some (Inr (rc, hmp')) \<Rightarrow>
          map_option (map_sum id (apfst ((#) rc))) (hm_run m hmp' xs))"

text \<open>
  Deleting the same key twice: when the first \<open>hm_delete\<close> reported success, the second one
  does too, and \<open>count\<close> goes down a second time for the one entry there was.
\<close>

theorem hm_delete_twice_counts_twice:
  assumes "hm_delete m (Some hm) key fv = Some (Inr (0, Some hm'))"
  shows "\<exists>hm''. hm_delete m (Some hm') key fv' = Some (Inr (0, Some hm''))
           \<and> hm_count hm'' = hm_count hm - 2"
  using hm_delete_again [OF assms] .

theorem hm_delete_twice_counts_twice_witness:
  "\<exists>hm''. hm_delete demo_mem (Some (tomb_slot one_entry 0)) (Ptr 0 0) 0 = Some (Inr (0, Some hm''))
     \<and> hm_count hm'' = - 1"
  using hm_delete_twice_counts_twice [OF one_entry_delete, of 0]
  by (simp add: one_entry_def set_bucket_def)

text \<open>
  C29. A key stored after a deletion can make another key disappear. In a table of four buckets
  holding the keys \<open>a\<close>, \<open>e\<close>, \<open>i\<close>, deleting \<open>e\<close> and storing \<open>b\<close> succeeds, and \<open>i\<close>, which was
  never deleted, is no longer found: the tombstone is overwritten by a node whose probe distance
  is smaller than the one the search has reached.
\<close>

definition lost_key_run :: "hm_op list" where
  "lost_key_run = [Put (Ptr 0 0) (Ptr 10 0) 1, Put (Ptr 1 0) (Ptr 11 0) 1, Put (Ptr 2 0) (Ptr 12 0) 1,
     Del (Ptr 1 0), Put (Ptr 3 0) (Ptr 13 0) 1]"

definition run_then_get :: "hm_op list \<Rightarrow> u64 \<Rightarrow> ptr \<Rightarrow> (int list \<times> u64 \<times> ptr) option" where
  "run_then_get ops n key =
     (case hm_run demo_mem (Some (demo_table n)) ops of
        Some (Inr (rcs, Some hm)) \<Rightarrow>
          (case hm_get demo_mem (Some hm) key of
             Some (Inr v) \<Rightarrow> Some (rcs, hm_count hm, v) | _ \<Rightarrow> None)
      | _ \<Rightarrow> None)"


text \<open>
  C30. A full table does not refuse a key, it silently drops another one. With two buckets and
  the keys \<open>a\<close> and \<open>e\<close> stored, inserting \<open>i\<close> returns 0 and leaves \<open>count\<close> at 2; \<open>e\<close> and \<open>i\<close> are
  found, \<open>a\<close> is gone. \<open>hm_insert\<close> never compares \<open>count\<close> with \<open>capacity\<close> and never resizes.
\<close>

definition full_run :: "hm_op list" where
  "full_run = [Put (Ptr 0 0) (Ptr 10 0) 1, Put (Ptr 1 0) (Ptr 11 0) 1, Put (Ptr 2 0) (Ptr 12 0) 1]"


text \<open>
  A key whose FNV-1a value is 0, the mark of an empty bucket, is never found, whatever was
  stored: \<open>hm_get\<close> returns \<open>NULL\<close> for it on every well-formed table with room. Such keys exist,
  and \<open>hm_insert\<close> reports success for them.
\<close>

theorem hm_get_zero_hash:
  assumes "hm_ok m hm" "hm_count hm < hm_capacity hm" "c_string m key = Inr k" "length k < 2 ^ 64"
    and "FNV_1a k = 0"
  shows "hm_get m (Some hm) key = Some (Inr NULL)"
  using hm_get_view [OF assms(1) _ assms(3,4)] room_count [OF assms(1)] assms(2)
    view_zero_hash [OF assms(1,5)] by simp

theorem hm_get_zero_hash_witness:
  "hm_get demo_mem (Some (demo_table 4)) (Ptr 4 0) = Some (Inr NULL)
   \<and> run_then_get [Put (Ptr 4 0) (Ptr 10 0) 1] 4 (Ptr 4 0) = Some ([0], 1, NULL)"
proof
  have t: "hm_ok demo_mem (demo_table 4)" by (rule demo_table_ok [where b = 2]) simp
  have r: "hm_count (demo_table 4) < hm_capacity (demo_table 4)" by (simp add: demo_table_def)
  have z: "FNV_1a [0xd5, 0x6b, 0xb9, 0x53, 0x42, 0x87, 0x08, 0x36] = 0" by code_simp
  show "hm_get demo_mem (Some (demo_table 4)) (Ptr 4 0) = Some (Inr NULL)"
    by (rule hm_get_zero_hash [OF t r demo_strings(5) _ z]) simp
  show "run_then_get [Put (Ptr 4 0) (Ptr 10 0) 1] 4 (Ptr 4 0) = Some ([0], 1, NULL)" by code_simp
qed

end
