(* ===== verification/Weak_Memory.thy ===== *)
theory Weak_Memory
  imports Orca_Prelude
begin

text \<open>
  The part of the C11 memory model that \<^verbatim>\<open>ringbuffer.c\<close> leans on: atomic loads and stores with an order, and
  plain accesses, which must be ordered by happens-before. Threads run in program order; an atomic
  variable keeps all values stored to it, and a load may return any that is not older than what its
  thread has seen. An acquire load of a release store makes the storing thread's past the loading
  thread's past. Two plain accesses to one place that are not ordered, one of them a write, are a data
  race, which is undefined behaviour and a fault here.
\<close>

section \<open>Clocks\<close>

text \<open>
  What a thread has seen: for each atomic variable the newest of its values, as its index, and for each
  thread how many of its plain accesses happened before.
\<close>

record ('l, 't) clock =
  ck_loc :: "'l \<Rightarrow> nat"
  ck_thr :: "'t \<Rightarrow> nat"

definition ck_zero :: "('l, 't) clock" where
  "ck_zero = \<lparr>ck_loc = (\<lambda>_. 0), ck_thr = (\<lambda>_. 0)\<rparr>"

definition ck_join :: "('l, 't) clock \<Rightarrow> ('l, 't) clock \<Rightarrow> ('l, 't) clock" where
  "ck_join c d = \<lparr>ck_loc = (\<lambda>l. max (ck_loc c l) (ck_loc d l)), ck_thr = (\<lambda>t. max (ck_thr c t) (ck_thr d t))\<rparr>"

definition ck_le :: "('l, 't) clock \<Rightarrow> ('l, 't) clock \<Rightarrow> bool" where
  "ck_le c d \<longleftrightarrow> (\<forall>l. ck_loc c l \<le> ck_loc d l) \<and> (\<forall>t. ck_thr c t \<le> ck_thr d t)"

definition ck_saw :: "'l \<Rightarrow> nat \<Rightarrow> ('l, 't) clock \<Rightarrow> ('l, 't) clock" where
  "ck_saw l i c = c\<lparr>ck_loc := (ck_loc c)(l := i)\<rparr>"

definition ck_tick :: "'t \<Rightarrow> ('l, 't) clock \<Rightarrow> ('l, 't) clock" where
  "ck_tick t c = c\<lparr>ck_thr := (ck_thr c)(t := ck_thr c t + 1)\<rparr>"

lemma ck_simps [simp]:
  "ck_loc (ck_join c d) l = max (ck_loc c l) (ck_loc d l)" "ck_thr (ck_join c d) t = max (ck_thr c t) (ck_thr d t)"
  "ck_loc (ck_saw l i c) = (ck_loc c)(l := i)" "ck_thr (ck_saw l i c) = ck_thr c"
  "ck_loc (ck_tick t c) = ck_loc c" "ck_thr (ck_tick t c) = (ck_thr c)(t := ck_thr c t + 1)"
  "ck_loc ck_zero l = 0" "ck_thr ck_zero t = 0"
  by (simp_all add: ck_join_def ck_saw_def ck_tick_def ck_zero_def)

lemma ck_le_refl [simp]: "ck_le c c" and ck_le_zero [simp]: "ck_le ck_zero c"
  by (simp_all add: ck_le_def)

lemma ck_le_trans [trans]: "ck_le c d \<Longrightarrow> ck_le d e \<Longrightarrow> ck_le c e"
  unfolding ck_le_def using order_trans by blast

lemma ck_le_join [simp]: "ck_le (ck_join c d) e \<longleftrightarrow> ck_le c e \<and> ck_le d e"
  by (auto simp: ck_le_def)

lemma ck_le_saw: "ck_le c e \<Longrightarrow> i \<le> ck_loc e l \<Longrightarrow> ck_le (ck_saw l i c) e"
  by (simp add: ck_le_def)

section \<open>The memory\<close>

datatype morder = Relaxed | Acquire | Release

record ('l, 't, 'v) message =
  ms_val :: 'v
  ms_clock :: "('l, 't) clock"

text \<open>
  For each atomic variable the values stored, oldest first; for each thread its clock; for each plain
  place its value, the last write, by whom and the how-manieth access of that thread, and the last
  read of each thread.
\<close>

record ('l, 't, 'x, 'v, 'p) wmem =
  wm_threads :: "'t list"
  wm_hist :: "'l \<Rightarrow> ('l, 't, 'v) message list"
  wm_clock :: "'t \<Rightarrow> ('l, 't) clock"
  wm_cell :: "'x \<Rightarrow> 'p"
  wm_written :: "'x \<Rightarrow> ('t \<times> nat) option"
  wm_read :: "'x \<Rightarrow> 't \<Rightarrow> nat"

text \<open>Memory set up before the threads start.\<close>

definition wm_start :: "'t list \<Rightarrow> ('l \<Rightarrow> 'v) \<Rightarrow> ('x \<Rightarrow> 'p) \<Rightarrow> ('l, 't, 'x, 'v, 'p) wmem" where
  "wm_start ts val cell = \<lparr>wm_threads = ts, wm_hist = (\<lambda>l. [\<lparr>ms_val = val l, ms_clock = ck_zero\<rparr>]),
     wm_clock = (\<lambda>_. ck_zero), wm_cell = cell, wm_written = (\<lambda>_. None), wm_read = (\<lambda>_ _. 0)\<rparr>"

text \<open>\<open>i\<close> is the value the load returns; \<open>None\<close> when the thread can no longer, or not yet, see it.\<close>

definition atomic_load ::
    "'t \<Rightarrow> morder \<Rightarrow> 'l \<Rightarrow> nat \<Rightarrow> ('l, 't, 'x, 'v, 'p) wmem \<Rightarrow> ('v \<times> ('l, 't, 'x, 'v, 'p) wmem) option" where
  "atomic_load t ord l i m =
     (if ck_loc (wm_clock m t) l \<le> i \<and> i < length (wm_hist m l) then
        let msg = wm_hist m l ! i;
            c = ck_saw l i (wm_clock m t);
            c' = (if ord = Acquire then ck_join c (ms_clock msg) else c)
        in Some (ms_val msg, m\<lparr>wm_clock := (wm_clock m)(t := c')\<rparr>)
      else None)"

definition atomic_store :: "'t \<Rightarrow> morder \<Rightarrow> 'l \<Rightarrow> 'v \<Rightarrow> ('l, 't, 'x, 'v, 'p) wmem \<Rightarrow> ('l, 't, 'x, 'v, 'p) wmem" where
  "atomic_store t ord l v m =
     (let i = length (wm_hist m l);
          c = ck_saw l i (wm_clock m t);
          sent = (if ord = Release then c else ck_saw l i ck_zero)
      in m\<lparr>wm_hist := (wm_hist m)(l := wm_hist m l @ [\<lparr>ms_val = v, ms_clock = sent\<rparr>]),
           wm_clock := (wm_clock m)(t := c)\<rparr>)"

definition write_ordered :: "('l, 't, 'x, 'v, 'p) wmem \<Rightarrow> 't \<Rightarrow> 'x \<Rightarrow> bool" where
  "write_ordered m t x \<longleftrightarrow> (case wm_written m x of None \<Rightarrow> True | Some (u, n) \<Rightarrow> n \<le> ck_thr (wm_clock m t) u)"

definition reads_ordered :: "('l, 't, 'x, 'v, 'p) wmem \<Rightarrow> 't \<Rightarrow> 'x \<Rightarrow> bool" where
  "reads_ordered m t x \<longleftrightarrow> list_all (\<lambda>u. wm_read m x u \<le> ck_thr (wm_clock m t) u) (wm_threads m)"

definition plain_write ::
    "'t \<Rightarrow> 'x \<Rightarrow> 'p \<Rightarrow> ('l, 't, 'x, 'v, 'p) wmem \<Rightarrow> ('l, 't, 'x, 'v, 'p) wmem res" where
  "plain_write t x p m =
     (if write_ordered m t x \<and> reads_ordered m t x then
        let c = ck_tick t (wm_clock m t)
        in Inr (m\<lparr>wm_clock := (wm_clock m)(t := c), wm_cell := (wm_cell m)(x := p),
                  wm_written := (wm_written m)(x := Some (t, ck_thr c t))\<rparr>)
      else Inl DataRace)"

definition plain_read :: "'t \<Rightarrow> 'x \<Rightarrow> ('l, 't, 'x, 'v, 'p) wmem \<Rightarrow> ('p \<times> ('l, 't, 'x, 'v, 'p) wmem) res" where
  "plain_read t x m =
     (if write_ordered m t x then
        let c = ck_tick t (wm_clock m t)
        in Inr (wm_cell m x, m\<lparr>wm_clock := (wm_clock m)(t := c),
                  wm_read := (wm_read m)(x := (wm_read m x)(t := ck_thr c t))\<rparr>)
      else Inl DataRace)"

section \<open>No thread sees more than there is\<close>

definition clocks_le :: "('l, 't, 'x, 'v, 'p) wmem \<Rightarrow> ('l, 't) clock \<Rightarrow> bool" where
  "clocks_le m e \<longleftrightarrow> (\<forall>t. ck_le (wm_clock m t) e) \<and> (\<forall>l. \<forall>msg \<in> set (wm_hist m l). ck_le (ms_clock msg) e)"

lemma clocks_le_mono: "clocks_le m e \<Longrightarrow> ck_le e e' \<Longrightarrow> clocks_le m e'"
  unfolding clocks_le_def using ck_le_trans by blast

lemma clocks_le_start [simp]: "clocks_le (wm_start ts val cell) e"
  by (simp add: clocks_le_def wm_start_def)

lemma load_keeps:
  assumes "atomic_load t ord l i m = Some (v, m')"
  shows "wm_threads m' = wm_threads m" "wm_hist m' = wm_hist m" "wm_cell m' = wm_cell m" "wm_written m' = wm_written m"
    "wm_read m' = wm_read m" "\<And>u. u \<noteq> t \<Longrightarrow> wm_clock m' u = wm_clock m u" "v = ms_val (wm_hist m l ! i)"
    "ck_loc (wm_clock m t) l \<le> i" "i < length (wm_hist m l)" "i \<le> ck_loc (wm_clock m' t) l"
    "\<And>k. k \<noteq> l \<Longrightarrow> ck_loc (wm_clock m t) k \<le> ck_loc (wm_clock m' t) k"
    "\<And>u. ck_thr (wm_clock m t) u \<le> ck_thr (wm_clock m' t) u"
    "ord = Acquire \<Longrightarrow> ck_le (ms_clock (wm_hist m l ! i)) (wm_clock m' t)"
    "\<And>u. ck_thr (wm_clock m' t) u = (if ord = Acquire then max (ck_thr (wm_clock m t) u) (ck_thr (ms_clock (wm_hist m l ! i)) u)
      else ck_thr (wm_clock m t) u)"
  using assms by (auto simp: atomic_load_def Let_def ck_le_def split: if_splits)

lemma load_clocks_le:
  assumes "atomic_load t ord l i m = Some (v, m')" "clocks_le m e" "length (wm_hist m l) \<le> ck_loc e l + 1"
  shows "clocks_le m' e"
proof -
  have i: "i \<le> ck_loc e l" "wm_hist m l ! i \<in> set (wm_hist m l)"
    using load_keeps(9) [OF assms(1)] assms(3) by simp_all
  have saw: "ck_le (ck_saw l i (wm_clock m t)) e" using assms(2) i(1) by (auto simp: clocks_le_def intro: ck_le_saw)
  have msg: "ck_le (ms_clock (wm_hist m l ! i)) e" using assms(2) i(2) by (simp add: clocks_le_def)
  show ?thesis using assms(1,2) saw msg by (auto simp: atomic_load_def clocks_le_def Let_def split: if_splits)
qed

lemma load_possible:
  assumes "clocks_le m e" "ck_loc e l < length (wm_hist m l)"
  shows "\<exists>i v m'. atomic_load t ord l i m = Some (v, m')"
proof -
  have "ck_loc (wm_clock m t) l \<le> ck_loc e l" using assms(1) by (simp add: clocks_le_def ck_le_def)
  then show ?thesis using assms(2) by (intro exI [of _ "ck_loc e l"]) (simp add: atomic_load_def Let_def)
qed

lemma store_clocks_le:
  assumes "clocks_le m e" "ck_le e e'" "length (wm_hist m l) \<le> ck_loc e' l"
  shows "clocks_le (atomic_store t ord l v m) e'"
proof -
  have "clocks_le m e'" by (rule clocks_le_mono [OF assms(1,2)])
  then show ?thesis using assms(3) by (auto simp: atomic_store_def clocks_le_def Let_def intro: ck_le_saw)
qed

section \<open>Plain accesses\<close>

lemma plain_write_possible:
  "write_ordered m t x \<Longrightarrow> reads_ordered m t x \<Longrightarrow> \<exists>m'. plain_write t x p m = Inr m'"
  by (simp add: plain_write_def Let_def)

lemma plain_write_keeps:
  assumes "plain_write t x p m = Inr m'"
  shows "wm_threads m' = wm_threads m" "wm_hist m' = wm_hist m" "wm_read m' = wm_read m"
    "wm_cell m' = (wm_cell m)(x := p)" "wm_written m' = (wm_written m)(x := Some (t, ck_thr (wm_clock m t) t + 1))"
    "wm_clock m' = (wm_clock m)(t := ck_tick t (wm_clock m t))"
  using assms by (auto simp: plain_write_def Let_def split: if_splits)

lemma plain_read_possible: "write_ordered m t x \<Longrightarrow> \<exists>v. plain_read t x m = Inr v"
  by (simp add: plain_read_def Let_def)

lemma plain_read_keeps:
  assumes "plain_read t x m = Inr (p, m')"
  shows "wm_threads m' = wm_threads m" "wm_hist m' = wm_hist m" "wm_cell m' = wm_cell m" "wm_written m' = wm_written m"
    "wm_read m' = (wm_read m)(x := (wm_read m x)(t := ck_thr (wm_clock m t) t + 1))"
    "wm_clock m' = (wm_clock m)(t := ck_tick t (wm_clock m t))" "p = wm_cell m x" "write_ordered m t x"
  using assms by (auto simp: plain_read_def Let_def split: if_splits)

lemma tick_clocks_le:
  assumes "clocks_le m e" "ck_le e e'" "ck_thr (wm_clock m t) t < ck_thr e' t"
    and "wm_hist m' = wm_hist m" "wm_clock m' = (wm_clock m)(t := ck_tick t (wm_clock m t))"
  shows "clocks_le m' e'"
proof -
  have "clocks_le m e'" by (rule clocks_le_mono [OF assms(1,2)])
  then show ?thesis using assms(3-5) by (simp add: clocks_le_def ck_le_def)
qed

end
