(* ===== verification/RingBuffer.thy ===== *)
theory RingBuffer
  imports C_Memory
begin

text \<open>
  \<^verbatim>\<open>src/core/shard/ringbuffer/ringbuffer.c\<close>: the ring each shard receives its requests through.
  The counters \<open>hp\<close> (next write) and \<open>rp\<close> (next read) only grow; a slot is a counter masked with
  \<open>cap - 1\<close>. The array holds pointers, of any type \<open>'p\<close> here; \<open>NULL\<close>, the answer of an empty
  read, is \<open>None\<close>. This theory has the operations as sequential functions and the contract they
  implement, a bounded FIFO; \<open>Ring_Interleaving\<close> splits them into their atomic accesses.
\<close>

section \<open>The operations\<close>

record 'p rBuff =
  rb_hp :: u64
  rb_rp :: u64
  rb_cap :: u64
  rb_proc :: "'p list option"

text \<open>
  The result of \<open>malloc(cap * sizeof(proc_t *))\<close> is stored unchecked; \<open>fill\<close> is what the new
  array holds. The product is a \<open>size_t\<close>.
\<close>

definition rBuff_init :: "mem \<Rightarrow> u64 \<Rightarrow> (nat \<Rightarrow> 'p) \<Rightarrow> 'p rBuff \<times> mem" where
  "rBuff_init m cap fill =
     (let n = unat (cap * 8) in
      case mem_reserve m n of
        None \<Rightarrow> (\<lparr>rb_hp = 0, rb_rp = 0, rb_cap = cap, rb_proc = None\<rparr>, m)
      | Some m' \<Rightarrow>
          (\<lparr>rb_hp = 0, rb_rp = 0, rb_cap = cap, rb_proc = Some (map fill [0..<n div 8])\<rparr>, m'))"

definition rb_slot :: "'p rBuff \<Rightarrow> u64 \<Rightarrow> nat" where
  "rb_slot r i = unat (i AND (rb_cap r - 1))"

definition rBuff_write :: "'p rBuff \<Rightarrow> 'p \<Rightarrow> (bool \<times> 'p rBuff) res" where
  "rBuff_write r p =
     (if (rb_hp r + 1) AND (rb_cap r - 1) = rb_rp r then Inr (False, r)
      else case rb_proc r of
        None \<Rightarrow> Inl NullDeref
      | Some xs \<Rightarrow>
          if rb_slot r (rb_hp r) < length xs
          then Inr (True, r\<lparr>rb_proc := Some (xs[rb_slot r (rb_hp r) := p]), rb_hp := rb_hp r + 1\<rparr>)
          else Inl OutOfBounds)"

definition rBuff_read :: "'p rBuff \<Rightarrow> ('p option \<times> 'p rBuff) res" where
  "rBuff_read r =
     (if rb_rp r = rb_hp r then Inr (None, r)
      else case rb_proc r of
        None \<Rightarrow> Inl NullDeref
      | Some xs \<Rightarrow>
          if rb_slot r (rb_rp r) < length xs
          then Inr (Some (xs ! rb_slot r (rb_rp r)), r\<lparr>rb_rp := rb_rp r + 1\<rparr>)
          else Inl OutOfBounds)"

definition isFull :: "'p rBuff \<Rightarrow> bool" where
  "isFull r \<longleftrightarrow> (rb_hp r + 1) AND (rb_cap r - 1) = rb_rp r"

section \<open>The queue a ring represents\<close>

definition rb_count :: "'p rBuff \<Rightarrow> nat" where
  "rb_count r = unat (rb_hp r - rb_rp r)"

definition rb_ok :: "'p rBuff \<Rightarrow> bool" where
  "rb_ok r \<longleftrightarrow>
     (\<exists>k. unat (rb_cap r) = 2 ^ k) \<and> rb_count r \<le> unat (rb_cap r)
     \<and> (case rb_proc r of None \<Rightarrow> False | Some xs \<Rightarrow> length xs = unat (rb_cap r))"

definition rb_list :: "'p rBuff \<Rightarrow> 'p list" where
  "rb_list r =
     (case rb_proc r of None \<Rightarrow> []
      | Some xs \<Rightarrow> map (\<lambda>i. xs ! ((unat (rb_rp r) + i) mod unat (rb_cap r))) [0..<rb_count r])"

lemma rb_ok_cases:
  assumes "rb_ok r"
  obtains xs k where "rb_proc r = Some xs" "length xs = unat (rb_cap r)" "unat (rb_cap r) = 2 ^ k"
    "rb_count r \<le> unat (rb_cap r)" "0 < unat (rb_cap r)"
  using assms by (cases "rb_proc r") (auto simp: rb_ok_def)

lemma length_rb_list: "rb_ok r \<Longrightarrow> length (rb_list r) = rb_count r"
  by (erule rb_ok_cases) (simp add: rb_list_def)

lemma rb_hp_sum: "rb_hp r = rb_rp r + of_nat (rb_count r)"
  by (simp add: rb_count_def)

text \<open>A slot is the counter modulo the capacity, over the wrap-around of the counter too.\<close>

lemma slot_mod:
  assumes "unat (rb_cap r) = 2 ^ k"
  shows "rb_slot r i = unat i mod unat (rb_cap r)"
  using unat_and_mask [OF assms] by (simp add: rb_slot_def)

lemma slot_add:
  assumes "unat (rb_cap r) = 2 ^ k"
  shows "rb_slot r (i + of_nat n) = (unat i + n) mod unat (rb_cap r)"
proof -
  have "rb_slot r (i + of_nat n) = ((unat i + n) mod 2 ^ 64) mod unat (rb_cap r)"
    by (simp add: slot_mod [OF assms] unat_word_ariths unat_of_nat mod_simps)
  also have "\<dots> = (unat i + n) mod unat (rb_cap r)"
    by (rule mod_mod_cancel [OF pow2_dvd_64 [OF assms]])
  finally show ?thesis .
qed

lemma full_iff:
  assumes "unat (rb_cap r) = 2 ^ k" "rb_count r < unat (rb_cap r)"
  shows "isFull r \<longleftrightarrow> unat (rb_rp r) < unat (rb_cap r) \<and> rb_count r + 1 = unat (rb_cap r)"
proof -
  let ?c = "unat (rb_cap r)" and ?n = "rb_count r" and ?r = "unat (rb_rp r)"
  have c: "0 < ?c" using assms(2) by linarith
  have "unat ((rb_hp r + 1) AND (rb_cap r - 1)) = rb_slot r (rb_rp r + of_nat (?n + 1))"
    by (simp add: rb_slot_def rb_count_def add.commute)
  also have "\<dots> = (?r + (?n + 1)) mod ?c" by (rule slot_add [OF assms(1)])
  finally have f: "isFull r \<longleftrightarrow> (?r + (?n + 1)) mod ?c = ?r"
    by (simp add: isFull_def word_unat_eq_iff)
  show ?thesis
  proof (cases "?r < ?c")
    case True
    have "(?r + (?n + 1)) mod ?c = ?r \<longleftrightarrow> ?n + 1 = ?c"
    proof
      assume e: "(?r + (?n + 1)) mod ?c = ?r"
      show "?n + 1 = ?c"
      proof (rule ccontr)
        assume "?n + 1 \<noteq> ?c"
        then have n: "?n + 1 < ?c" using assms(2) by simp
        show False
        proof (cases "?r + (?n + 1) < ?c")
          case False
          then have "(?r + (?n + 1)) mod ?c = ?r + (?n + 1) - ?c"
            using True n by (simp add: mod_if)
          then show False using e n False by linarith
        qed (use e in simp)
      qed
    qed (use True in simp)
    then show ?thesis using f True by simp
  next
    case False
    then have "(?r + (?n + 1)) mod ?c \<noteq> ?r" using mod_less_divisor [OF c, of "?r + (?n + 1)"] by linarith
    then show ?thesis using f False by simp
  qed
qed

lemma write_eq_full: "rBuff_write r p = (if isFull r then Inr (False, r) else rBuff_write r p)"
  by (simp add: rBuff_write_def isFull_def)

lemma slots_distinct:
  fixes i :: nat
  assumes "i < n" "n < c"
  shows "(a + i) mod c \<noteq> (a + n) mod c"
proof
  assume "(a + i) mod c = (a + n) mod c"
  then have "c dvd (a + n) - (a + i)" using assms(1) by (metis mod_eq_dvd_iff_nat add_le_mono less_imp_le order_refl)
  then have "c dvd n - i" by simp
  then show False using assms by (auto dest: dvd_imp_le)
qed

lemma write_room:
  assumes "rb_ok r" "rb_count r < unat (rb_cap r)" "\<not> isFull r"
  shows "\<exists>r'. rBuff_write r p = Inr (True, r') \<and> rb_ok r' \<and> rb_list r' = rb_list r @ [p]
    \<and> rb_cap r' = rb_cap r \<and> rb_rp r' = rb_rp r"
proof -
  obtain xs k where xs: "rb_proc r = Some xs" "length xs = unat (rb_cap r)"
    and k: "unat (rb_cap r) = 2 ^ k" and c: "0 < unat (rb_cap r)"
    using assms(1) by (rule rb_ok_cases)
  let ?s = "rb_slot r (rb_hp r)" and ?c = "unat (rb_cap r)" and ?n = "rb_count r"
  have s: "?s = (unat (rb_rp r) + ?n) mod ?c"
    using slot_add [OF k, of "rb_rp r" ?n] by (simp add: rb_hp_sum [symmetric])
  then have b: "?s < length xs" using xs(2) c by simp
  let ?r = "r\<lparr>rb_proc := Some (xs[?s := p]), rb_hp := rb_hp r + 1\<rparr>"
  have w: "rBuff_write r p = Inr (True, ?r)"
    using assms(3) xs(1) b by (simp add: rBuff_write_def isFull_def)
  have "rb_hp r + 1 - rb_rp r = of_nat (?n + 1)" by (simp add: rb_count_def)
  moreover have "?n + 1 < 2 ^ 64" using assms(2) unat_less_u64 [of "rb_cap r"] by linarith
  ultimately have n: "rb_count ?r = ?n + 1"
    by (simp add: rb_count_def unat_of_nat_u64 del: of_nat_Suc of_nat_add)
  have d: "?s \<noteq> (unat (rb_rp r) + i) mod ?c" if "i < ?n" for i
    unfolding s using slots_distinct [OF that assms(2)] by (rule not_sym)
  have "rb_list ?r = rb_list r @ [p]"
    using xs(1) b n d by (simp add: rb_list_def s [symmetric])
  moreover have "rb_ok ?r" using xs k n assms(2) by (auto simp: rb_ok_def)
  ultimately show ?thesis using w by auto
qed

lemma write_full:
  assumes "isFull r"
  shows "rBuff_write r p = Inr (False, r)"
  using assms by (simp add: rBuff_write_def isFull_def)

lemma read_empty: "rb_ok r \<Longrightarrow> rb_list r = [] \<Longrightarrow> rBuff_read r = Inr (None, r)"
  using length_rb_list [of r] by (auto simp: rBuff_read_def rb_count_def unat_eq_0)

lemma read_front:
  assumes "rb_ok r" "rb_list r = x # ys"
  shows "\<exists>r'. rBuff_read r = Inr (Some x, r') \<and> rb_ok r' \<and> rb_list r' = ys \<and> rb_cap r' = rb_cap r
    \<and> rb_rp r' = rb_rp r + 1"
proof -
  obtain xs k where xs: "rb_proc r = Some xs" "length xs = unat (rb_cap r)"
    and k: "unat (rb_cap r) = 2 ^ k" and c: "0 < unat (rb_cap r)" "rb_count r \<le> unat (rb_cap r)"
    using assms(1) by (rule rb_ok_cases)
  let ?c = "unat (rb_cap r)" and ?r = "r\<lparr>rb_rp := rb_rp r + 1\<rparr>"
  have n: "rb_count r = Suc (length ys)" using assms length_rb_list [OF assms(1)] by simp
  have "unat (rb_hp r - (rb_rp r + 1)) = unat (of_nat (length ys) :: u64)"
    using n rb_hp_sum [of r] by simp
  also have "\<dots> = length ys"
    using n c(2) unat_less_u64 [of "rb_cap r"] by (intro unat_of_nat_u64) linarith
  finally have n': "rb_count ?r = length ys" by (simp add: rb_count_def)
  have sl: "(unat (rb_rp r + 1) + i) mod ?c = (unat (rb_rp r) + Suc i) mod ?c" for i
    using slot_add [OF k, of "rb_rp r + 1" i] slot_add [OF k, of "rb_rp r" "Suc i"]
    by (simp add: algebra_simps)
  have l: "rb_list r = xs ! (unat (rb_rp r) mod ?c) #
      map (\<lambda>i. xs ! ((unat (rb_rp r) + Suc i) mod ?c)) [0..<length ys]"
    using xs(1) n by (simp add: rb_list_def upt_conv_Cons map_Suc_upt [symmetric] del: upt_Suc)
  have "rb_list ?r = ys" using l assms(2) xs(1) n' sl by (simp add: rb_list_def)
  moreover have "rBuff_read r = Inr (Some x, ?r)"
  proof -
    have "rb_rp r \<noteq> rb_hp r" using n by (auto simp: rb_count_def)
    then show ?thesis
      using xs c(1) l assms(2) slot_mod [OF k] by (simp add: rBuff_read_def)
  qed
  moreover have "rb_ok ?r" using xs k n n' c(2) by (auto simp: rb_ok_def)
  ultimately show ?thesis by auto
qed

lemma room_not_full:
  assumes "rb_ok r" "rb_count r < unat (rb_cap r) - 1"
  shows "\<not> isFull r"
proof -
  obtain xs k where k: "unat (rb_cap r) = 2 ^ k" using assms(1) by (rule rb_ok_cases)
  have "rb_count r < unat (rb_cap r)" "rb_count r + 1 \<noteq> unat (rb_cap r)" using assms(2) by linarith+
  then show ?thesis using full_iff [OF k] by simp
qed

lemma rBuff_init_ok:
  assumes "unat cap = 2 ^ k" "k < 61" "8 * unat cap \<le> avail m"
  shows "rb_ok (fst (rBuff_init m cap fill))" "rb_list (fst (rBuff_init m cap fill)) = []"
    "rb_cap (fst (rBuff_init m cap fill)) = cap" "rb_rp (fst (rBuff_init m cap fill)) = 0"
proof -
  have "(2::nat) ^ k < 2 ^ 61" using assms(2) by (rule power_strict_increasing) simp
  then have "unat cap < 2 ^ 61" using assms(1) by simp
  then have n: "unat (cap * 8) = 8 * unat cap"
    by (simp add: unat_word_ariths)
  then show "rb_ok (fst (rBuff_init m cap fill))" "rb_list (fst (rBuff_init m cap fill)) = []"
    "rb_cap (fst (rBuff_init m cap fill)) = cap" "rb_rp (fst (rBuff_init m cap fill)) = 0"
    using assms
    by (auto simp: rBuff_init_def mem_reserve_def rb_ok_def rb_list_def rb_count_def)
qed

section \<open>The contract of a bounded FIFO\<close>

datatype 'p fifo_op = Enq 'p | Deq

text \<open>Runs of a queue, and the list each answer is measured against.\<close>

fun fifo_run :: "('s \<Rightarrow> 'p \<Rightarrow> (bool \<times> 's) res) \<Rightarrow> ('s \<Rightarrow> ('p option \<times> 's) res) \<Rightarrow>
    's \<Rightarrow> 'p fifo_op list \<Rightarrow> ('p option list \<times> 's) res" where
  "fifo_run enq deq s [] = Inr ([], s)"
| "fifo_run enq deq s (Enq p # ops) =
     rbind (enq s p) (\<lambda>(done, s'). fifo_run enq deq s' ops)"
| "fifo_run enq deq s (Deq # ops) =
     rbind (deq s) (\<lambda>(got, s').
       rbind (fifo_run enq deq s' ops) (\<lambda>(outs, s''). Inr (got # outs, s'')))"

fun list_run :: "'p list \<Rightarrow> 'p fifo_op list \<Rightarrow> 'p option list \<times> 'p list" where
  "list_run q [] = ([], q)"
| "list_run q (Enq p # ops) = list_run (q @ [p]) ops"
| "list_run q (Deq # ops) =
     (case q of [] \<Rightarrow> apfst ((#) None) (list_run [] ops)
      | x # q' \<Rightarrow> apfst ((#) (Some x)) (list_run q' ops))"

fun within :: "nat \<Rightarrow> 'p list \<Rightarrow> 'p fifo_op list \<Rightarrow> bool" where
  "within n q [] \<longleftrightarrow> True"
| "within n q (Enq p # ops) \<longleftrightarrow> length q < n \<and> within n (q @ [p]) ops"
| "within n q (Deq # ops) \<longleftrightarrow> within n (tl q) ops"

locale bounded_fifo =
  fixes inv :: "'s \<Rightarrow> bool" and items :: "'s \<Rightarrow> 'p list" and limit :: "'s \<Rightarrow> nat"
    and enq :: "'s \<Rightarrow> 'p \<Rightarrow> (bool \<times> 's) res" and deq :: "'s \<Rightarrow> ('p option \<times> 's) res"
  assumes enq_law: "inv s \<Longrightarrow> length (items s) < limit s \<Longrightarrow>
      \<exists>s'. enq s p = Inr (True, s') \<and> inv s' \<and> items s' = items s @ [p] \<and> limit s' = limit s"
    and deq_empty: "inv s \<Longrightarrow> items s = [] \<Longrightarrow> deq s = Inr (None, s)"
    and deq_front: "inv s \<Longrightarrow> items s = x # q \<Longrightarrow>
      \<exists>s'. deq s = Inr (Some x, s') \<and> inv s' \<and> items s' = q \<and> limit s' = limit s"
begin

lemma run_refines:
  "inv s \<Longrightarrow> within (limit s) (items s) ops \<Longrightarrow>
   \<exists>s'. fifo_run enq deq s ops = Inr (fst (list_run (items s) ops), s') \<and> inv s'
      \<and> items s' = snd (list_run (items s) ops) \<and> limit s' = limit s"
proof (induction ops arbitrary: s)
  case (Cons x ops)
  show ?case
  proof (cases x)
    case (Enq p)
    then obtain s1 where s1: "enq s p = Inr (True, s1)" "inv s1" "items s1 = items s @ [p]"
      "limit s1 = limit s"
      using enq_law [OF Cons.prems(1)] Cons.prems(2) by auto
    then show ?thesis using Cons.IH [OF s1(2)] Cons.prems(2) Enq by auto
  next
    case Deq
    show ?thesis
    proof (cases "items s")
      case Nil
      then show ?thesis
        using Cons.IH [OF Cons.prems(1)] Cons.prems(2) deq_empty [OF Cons.prems(1)] Deq by auto
    next
      case (Cons y q)
      then obtain s1 where s1: "deq s = Inr (Some y, s1)" "inv s1" "items s1 = q" "limit s1 = limit s"
        using deq_front [OF Cons.prems(1)] by blast
      then show ?thesis using Cons.IH [OF s1(2)] Cons.prems(2) Deq Cons by auto
    qed
  qed
qed simp

end

interpretation ring: bounded_fifo rb_ok rb_list "\<lambda>r. unat (rb_cap r) - 1" rBuff_write rBuff_read
proof
  fix r :: "'p rBuff" and p
  assume ok: "rb_ok r" and l: "length (rb_list r) < unat (rb_cap r) - 1"
  then have c: "rb_count r < unat (rb_cap r) - 1" by (simp add: length_rb_list)
  then have "rb_count r < unat (rb_cap r)" by simp
  from write_room [OF ok this room_not_full [OF ok c], of p]
  show "\<exists>r'. rBuff_write r p = Inr (True, r') \<and> rb_ok r' \<and> rb_list r' = rb_list r @ [p]
      \<and> unat (rb_cap r') - 1 = unat (rb_cap r) - 1"
    by auto
qed (use read_empty read_front in fastforce)+

section \<open>Properties\<close>

definition demo_ring :: "nat rBuff" where
  "demo_ring = \<lparr>rb_hp = 0, rb_rp = 0, rb_cap = 4, rb_proc = Some [0, 0, 0, 0]\<rparr>"

definition lapped_ring :: "nat rBuff" where
  "lapped_ring = \<lparr>rb_hp = 8, rb_rp = 4, rb_cap = 4, rb_proc = Some [11, 12, 13, 14]\<rparr>"

lemma demo_rings_ok: "rb_ok demo_ring" "rb_ok lapped_ring" "rb_list demo_ring = []"
  "rb_list lapped_ring = [11, 12, 13, 14]"
  by (auto simp: demo_ring_def lapped_ring_def rb_ok_def rb_count_def rb_list_def upt_rec
      intro: exI [of _ 2])

text \<open>
  C16. The ring is a bounded FIFO: a run of writes and reads that never holds \<open>cap - 1\<close> entries
  when it writes returns without fault, every write is accepted, and the reads answer what a
  list used as a queue answers, over any number of laps and the wrap-around of the counters.
\<close>

theorem rBuff_is_fifo:
  assumes "rb_ok r" "within (unat (rb_cap r) - 1) (rb_list r) ops"
  shows "\<exists>r'. fifo_run rBuff_write rBuff_read r ops = Inr (fst (list_run (rb_list r) ops), r')
    \<and> rb_ok r' \<and> rb_list r' = snd (list_run (rb_list r) ops)"
  using ring.run_refines [OF assms] by blast

theorem rBuff_is_fifo_witness:
  "\<exists>r'. fifo_run rBuff_write rBuff_read demo_ring [Enq 7, Enq 8, Deq, Enq 9, Deq, Deq, Deq]
    = Inr ([Some 7, Some 8, Some 9, None], r')"
  using rBuff_is_fifo [OF demo_rings_ok(1), of "[Enq 7, Enq 8, Deq, Enq 9, Deq, Deq, Deq]"]
    demo_rings_ok(3)
  by (auto simp: demo_ring_def)

text \<open>
  While fewer than \<open>cap\<close> entries have been read since the start, the fullness test is exact:
  a write is refused, and changes nothing, when \<open>cap - 1\<close> entries wait, and is accepted
  otherwise; \<open>isFull\<close> answers accordingly.
\<close>

theorem rBuff_write_first_lap:
  assumes "rb_ok r" "rb_count r < unat (rb_cap r)" "rb_rp r < rb_cap r"
  shows "if rb_count r + 1 = unat (rb_cap r)
    then isFull r \<and> rBuff_write r p = Inr (False, r)
    else \<not> isFull r \<and> (\<exists>r'. rBuff_write r p = Inr (True, r') \<and> rb_list r' = rb_list r @ [p])"
proof -
  obtain xs k where k: "unat (rb_cap r) = 2 ^ k" using assms(1) by (rule rb_ok_cases)
  have "isFull r \<longleftrightarrow> rb_count r + 1 = unat (rb_cap r)"
    using full_iff [OF k assms(2)] assms(3) by (simp add: word_less_nat_alt)
  then show ?thesis using write_full [of r p] write_room [OF assms(1,2), of p] by auto
qed

theorem rBuff_write_first_lap_witness:
  "\<not> isFull demo_ring \<and> (\<exists>r'. rBuff_write demo_ring 5 = Inr (True, r') \<and> rb_list r' = [5])"
  using rBuff_write_first_lap [OF demo_rings_ok(1), of 5] demo_rings_ok(3)
  by (simp add: demo_ring_def rb_count_def)



end
