(* ===== verification/Ring_Interleaving.thy ===== *)
theory Ring_Interleaving
  imports RingBuffer
begin

text \<open>
  The concurrent reading of \<^verbatim>\<open>ringbuffer.c\<close>: each atomic load, the array access and each atomic
  store of \<open>rBuff_write\<close> and \<open>rBuff_read\<close> is a step of its own, and the threads interleave
  freely (sequentially consistent memory). With one writer and one reader the entries arrive in
  order; two writers lose entries.
\<close>

section \<open>Threads and steps\<close>

datatype 'p writer =
    W_idle
  | W_hp 'p u64
  | W_rp 'p u64 u64
  | W_put 'p u64

datatype 'p reader =
    R_idle
  | R_hp u64
  | R_rp u64 u64
  | R_got 'p u64

text \<open>
  \<open>sp_sent\<close> and \<open>sp_got\<close> are the entries whose write returned true and the entries the reader
  returned, in order; \<open>sp_refused\<close> counts the writes that returned false.
\<close>

record 'p spsc =
  sp_ring :: "'p rBuff"
  sp_writers :: "nat \<Rightarrow> 'p writer"
  sp_reader :: "'p reader"
  sp_sent :: "'p list"
  sp_got :: "'p list"
  sp_refused :: nat

definition spsc_init :: "'p rBuff \<Rightarrow> 'p spsc" where
  "spsc_init r = \<lparr>sp_ring = r, sp_writers = (\<lambda>_. W_idle), sp_reader = R_idle, sp_sent = [],
     sp_got = [], sp_refused = 0\<rparr>"

definition set_writer :: "'p spsc \<Rightarrow> nat \<Rightarrow> 'p writer \<Rightarrow> 'p spsc" where
  "set_writer s t w = s\<lparr>sp_writers := (sp_writers s)(t := w)\<rparr>"

text \<open>The next step of thread \<open>t\<close>, which calls \<open>rBuff_write(r, p)\<close> when it is idle.\<close>

definition w_step :: "nat \<Rightarrow> 'p \<Rightarrow> 'p spsc \<Rightarrow> 'p spsc res" where
  "w_step t p s =
     (let r = sp_ring s in
      case sp_writers s t of
        W_idle \<Rightarrow> Inr (set_writer s t (W_hp p (rb_hp r)))
      | W_hp q hp \<Rightarrow> Inr (set_writer s t (W_rp q hp (rb_rp r)))
      | W_rp q hp rp \<Rightarrow>
          if (hp + 1) AND (rb_cap r - 1) = rp
          then Inr ((set_writer s t W_idle)\<lparr>sp_refused := sp_refused s + 1\<rparr>)
          else (case rb_proc r of
              None \<Rightarrow> Inl NullDeref
            | Some xs \<Rightarrow>
                if rb_slot r hp < length xs
                then Inr ((set_writer s t (W_put q hp))
                       \<lparr>sp_ring := r\<lparr>rb_proc := Some (xs[rb_slot r hp := q])\<rparr>\<rparr>)
                else Inl OutOfBounds)
      | W_put q hp \<Rightarrow>
          Inr ((set_writer s t W_idle)
            \<lparr>sp_ring := r\<lparr>rb_hp := hp + 1\<rparr>, sp_sent := sp_sent s @ [q]\<rparr>))"

definition r_step :: "'p spsc \<Rightarrow> 'p spsc res" where
  "r_step s =
     (let r = sp_ring s in
      case sp_reader s of
        R_idle \<Rightarrow> Inr (s\<lparr>sp_reader := R_hp (rb_hp r)\<rparr>)
      | R_hp hp \<Rightarrow> Inr (s\<lparr>sp_reader := R_rp hp (rb_rp r)\<rparr>)
      | R_rp hp rp \<Rightarrow>
          if rp = hp then Inr (s\<lparr>sp_reader := R_idle\<rparr>)
          else (case rb_proc r of
              None \<Rightarrow> Inl NullDeref
            | Some xs \<Rightarrow>
                if rb_slot r rp < length xs
                then Inr (s\<lparr>sp_reader := R_got (xs ! rb_slot r rp) rp\<rparr>)
                else Inl OutOfBounds)
      | R_got p rp \<Rightarrow>
          Inr (s\<lparr>sp_reader := R_idle, sp_ring := r\<lparr>rb_rp := rp + 1\<rparr>, sp_got := sp_got s @ [p]\<rparr>))"

datatype 'p act = W nat 'p | R

fun act_step :: "'p act \<Rightarrow> 'p spsc \<Rightarrow> 'p spsc res" where
  "act_step (W t p) s = w_step t p s"
| "act_step R s = r_step s"

fun act_run :: "'p act list \<Rightarrow> 'p spsc \<Rightarrow> 'p spsc res" where
  "act_run [] s = Inr s"
| "act_run (a # as) s = rbind (act_step a s) (act_run as)"

fun one_writer :: "'p act \<Rightarrow> bool" where
  "one_writer (W t p) \<longleftrightarrow> t = 0"
| "one_writer R \<longleftrightarrow> True"

text \<open>The states one writer and one reader can reach.\<close>

inductive reachable :: "'p rBuff \<Rightarrow> 'p spsc \<Rightarrow> bool" for r where
  reach_init: "reachable r (spsc_init r)"
| reach_step: "reachable r s \<Longrightarrow> one_writer a \<Longrightarrow> act_step a s = Inr s' \<Longrightarrow> reachable r s'"

section \<open>A call on its own is the sequential operation\<close>

lemma set_writer_simps [simp]:
  "sp_writers (set_writer s t w) = (sp_writers s)(t := w)" "sp_ring (set_writer s t w) = sp_ring s"
  "sp_reader (set_writer s t w) = sp_reader s" "sp_sent (set_writer s t w) = sp_sent s"
  "sp_got (set_writer s t w) = sp_got s" "sp_refused (set_writer s t w) = sp_refused s"
  by (simp_all add: set_writer_def)

lemma write_call:
  assumes "sp_writers s t = W_idle" "rBuff_write (sp_ring s) p = Inr (done, r')"
  shows "map_sum id sp_ring (act_run (replicate (if done then 4 else 3) (W t p)) s) = Inr r'"
  using assms
  by (auto simp: rBuff_write_def w_step_def Let_def rb_slot_def numeral_eq_Suc
      split: if_splits option.splits)

lemma read_call:
  assumes "sp_reader s = R_idle" "rBuff_read (sp_ring s) = Inr (got, r')"
  shows "\<exists>s'. act_run (replicate (if got = None then 3 else 4) R) s = Inr s' \<and> sp_ring s' = r'
    \<and> sp_got s' = sp_got s @ (case got of None \<Rightarrow> [] | Some p \<Rightarrow> [p])"
  using assms
  by (auto simp: rBuff_read_def r_step_def Let_def numeral_eq_Suc split: if_splits option.splits)

section \<open>The invariant of one writer and one reader\<close>

definition ring_inv :: "'p spsc \<Rightarrow> bool" where
  "ring_inv s \<longleftrightarrow>
     (let r = sp_ring s; n = length (sp_sent s); g = length (sp_got s); c = unat (rb_cap r) in
      (\<exists>k. c = 2 ^ k) \<and> unat (rb_hp r) = n \<and> unat (rb_rp r) = g \<and> g \<le> n \<and> n - g < c
      \<and> sp_got s = take g (sp_sent s)
      \<and> (\<exists>xs. rb_proc r = Some xs \<and> length xs = c
            \<and> (\<forall>i. g \<le> i \<and> i < n \<longrightarrow> xs ! (i mod c) = sp_sent s ! i)))"

definition writer_inv :: "'p spsc \<Rightarrow> bool" where
  "writer_inv s \<longleftrightarrow>
     (let r = sp_ring s; n = length (sp_sent s); g = length (sp_got s); c = unat (rb_cap r) in
      case sp_writers s 0 of
        W_idle \<Rightarrow> True
      | W_hp q hp \<Rightarrow> hp = rb_hp r
      | W_rp q hp rp \<Rightarrow> hp = rb_hp r \<and> unat rp \<le> g \<and> n - unat rp < c
      | W_put q hp \<Rightarrow> hp = rb_hp r \<and> n - g + 1 < c
          \<and> (\<forall>xs. rb_proc r = Some xs \<longrightarrow> xs ! (n mod c) = q))"

definition reader_inv :: "'p spsc \<Rightarrow> bool" where
  "reader_inv s \<longleftrightarrow>
     (let r = sp_ring s; n = length (sp_sent s); g = length (sp_got s) in
      case sp_reader s of
        R_idle \<Rightarrow> True
      | R_hp hp \<Rightarrow> g \<le> unat hp \<and> unat hp \<le> n
      | R_rp hp rp \<Rightarrow> rp = rb_rp r \<and> g \<le> unat hp \<and> unat hp \<le> n
      | R_got p rp \<Rightarrow> rp = rb_rp r \<and> g < n \<and> p = sp_sent s ! g)"

definition spsc_inv :: "'p spsc \<Rightarrow> bool" where
  "spsc_inv s \<longleftrightarrow> ring_inv s \<and> writer_inv s \<and> reader_inv s"

text \<open>Each part of the invariant looks at its own fields.\<close>

lemma inv_frames [simp]:
  "ring_inv (set_writer s t w) = ring_inv s" "reader_inv (set_writer s t w) = reader_inv s"
  "ring_inv (s\<lparr>sp_refused := n\<rparr>) = ring_inv s" "reader_inv (s\<lparr>sp_refused := n\<rparr>) = reader_inv s"
  "writer_inv (s\<lparr>sp_refused := n\<rparr>) = writer_inv s"
  "ring_inv (s\<lparr>sp_reader := rd\<rparr>) = ring_inv s" "writer_inv (s\<lparr>sp_reader := rd\<rparr>) = writer_inv s"
  by (simp_all add: ring_inv_def writer_inv_def reader_inv_def Let_def
      cong: writer.case_cong reader.case_cong)

lemma double_cap:
  assumes "unat (c :: u64) = 2 ^ k"
  shows "2 * unat c \<le> 2 ^ 64"
proof -
  have "(2::nat) ^ k < 2 ^ 64" using unat_less_u64 [of c] assms by simp
  then have "k < 64" by (rule power_less_imp_less_exp [rotated]) simp
  then have "Suc k \<le> 64" by (rule Suc_leI)
  then have "(2::nat) ^ Suc k \<le> 2 ^ 64" by (rule power_increasing) simp
  then show ?thesis using assms by (simp only: power_Suc)
qed

lemma succ_unat: "unat (x :: u64) + 1 < 2 ^ 64 \<Longrightarrow> unat (x + 1) = unat x + 1"
  by (simp add: unat_word_ariths)

lemma spsc_no_wrap:
  assumes "ring_inv s" "length (sp_got s) < unat (rb_cap (sp_ring s))"
  shows "unat (rb_hp (sp_ring s) + 1) = length (sp_sent s) + 1"
    "unat (rb_rp (sp_ring s) + 1) = length (sp_got s) + 1"
proof -
  obtain k where k: "unat (rb_cap (sp_ring s)) = 2 ^ k" using assms(1) by (auto simp: ring_inv_def Let_def)
  have "length (sp_sent s) + 1 < 2 ^ 64"
    using assms double_cap [OF k] by (auto simp: ring_inv_def Let_def)
  then show "unat (rb_hp (sp_ring s) + 1) = length (sp_sent s) + 1"
    using assms(1) succ_unat [of "rb_hp (sp_ring s)"] by (simp add: ring_inv_def Let_def)
  have "length (sp_got s) + 1 < 2 ^ 64"
    using assms \<open>length (sp_sent s) + 1 < 2 ^ 64\<close> by (auto simp: ring_inv_def Let_def)
  then show "unat (rb_rp (sp_ring s) + 1) = length (sp_got s) + 1"
    using assms(1) succ_unat [of "rb_rp (sp_ring s)"] by (simp add: ring_inv_def Let_def)
qed

text \<open>The decision taken on a stale \<open>rp\<close> is still safe: the reader only frees slots.\<close>

lemma not_full_room:
  assumes "ring_inv s" "length (sp_got s) < unat (rb_cap (sp_ring s))"
    and "unat rp \<le> length (sp_got s)" "length (sp_sent s) - unat rp < unat (rb_cap (sp_ring s))"
    and "(rb_hp (sp_ring s) + 1) AND (rb_cap (sp_ring s) - 1) \<noteq> rp"
  shows "length (sp_sent s) - length (sp_got s) + 1 < unat (rb_cap (sp_ring s))"
proof (rule ccontr)
  let ?n = "length (sp_sent s)" and ?g = "length (sp_got s)" and ?c = "unat (rb_cap (sp_ring s))"
  assume "\<not> ?n - ?g + 1 < ?c"
  moreover have "?g \<le> ?n" using assms(1) by (simp add: ring_inv_def Let_def)
  ultimately have e: "?n + 1 = unat rp + ?c" using assms(3,4) by linarith
  obtain k where k: "?c = 2 ^ k" using assms(1) by (auto simp: ring_inv_def Let_def)
  have "unat ((rb_hp (sp_ring s) + 1) AND (rb_cap (sp_ring s) - 1)) = (?n + 1) mod ?c"
    using unat_and_mask [OF k] spsc_no_wrap(1) [OF assms(1,2)] by simp
  also have "\<dots> = unat rp" unfolding e using assms(2,3) by simp
  finally show False using assms(5) by (simp add: word_unat_eq_iff)
qed

lemma ring_invD:
  assumes "ring_inv s"
  shows "\<exists>k. unat (rb_cap (sp_ring s)) = 2 ^ k" "unat (rb_hp (sp_ring s)) = length (sp_sent s)"
    "unat (rb_rp (sp_ring s)) = length (sp_got s)" "length (sp_got s) \<le> length (sp_sent s)"
    "length (sp_sent s) - length (sp_got s) < unat (rb_cap (sp_ring s))" "sp_got s = take (length (sp_got s)) (sp_sent s)"
    "rb_proc (sp_ring s) = Some (the (rb_proc (sp_ring s)))"
    "length (the (rb_proc (sp_ring s))) = unat (rb_cap (sp_ring s))"
    "\<And>i. length (sp_got s) \<le> i \<Longrightarrow> i < length (sp_sent s) \<Longrightarrow>
      the (rb_proc (sp_ring s)) ! (i mod unat (rb_cap (sp_ring s))) = sp_sent s ! i"
  using assms by (auto simp: ring_inv_def Let_def)

text \<open>The two accesses of the writer that change the ring: the store of the entry, and that of \<open>hp\<close>.\<close>

lemma writer_stores:
  assumes ri: "ring_inv s" and di: "reader_inv s" and "writer_inv s" "length (sp_got s) < unat (rb_cap (sp_ring s))"
    and "sp_writers s 0 = W_rp q h a" "(h + 1) AND (rb_cap (sp_ring s) - 1) \<noteq> a"
  shows "\<exists>s'. w_step 0 p s = Inr s' \<and> spsc_inv s'"
proof -
  let ?r = "sp_ring s"
  let ?n = "length (sp_sent s)" and ?g = "length (sp_got s)" and ?c = "unat (rb_cap ?r)"
  obtain k where k: "?c = 2 ^ k" using ring_invD(1) [OF ri] by blast
  define xs where "xs = the (rb_proc ?r)"
  note hp = ring_invD(2) [OF ri] and rp = ring_invD(3) [OF ri] and g = ring_invD(4-6) [OF ri]
    and xs = ring_invD(7-9) [OF ri, folded xs_def]
  have h: "h = rb_hp ?r" "unat a \<le> ?g" "?n - unat a < ?c"
    using assms(3,5) by (auto simp: writer_inv_def Let_def)
  have room: "?n - ?g + 1 < ?c" using not_full_room [OF ri assms(4) h(2,3)] assms(6) h(1) by blast
  have slot: "rb_slot ?r h = ?n mod ?c" using slot_mod [OF k] h(1) hp by simp
  have b: "rb_slot ?r h < length xs" unfolding slot xs(2) using assms(4) by (intro mod_less_divisor) linarith
  let ?s = "(set_writer s 0 (W_put q h))\<lparr>sp_ring := ?r\<lparr>rb_proc := Some (xs[rb_slot ?r h := q])\<rparr>\<rparr>"
  have st: "w_step 0 p s = Inr ?s" using assms(5,6) xs(1) b by (simp add: w_step_def Let_def)
  have same: "xs[?n mod ?c := q] ! (i mod ?c) = sp_sent s ! i" if i: "?g \<le> i" "i < ?n" for i
  proof -
    have "i mod ?c \<noteq> ?n mod ?c" using slots_distinct [of "i - ?g" "?n - ?g" ?c ?g] i g(1,2) by simp
    then show ?thesis using xs(3) [OF i] by simp
  qed
  have "ring_inv ?s"
    using k hp rp g xs(2) same unfolding slot by (auto simp: ring_inv_def Let_def)
  moreover have "writer_inv ?s"
    using room h(1) b xs(2) unfolding slot by (auto simp: writer_inv_def Let_def)
  moreover have "reader_inv ?s" using di by (auto simp: reader_inv_def Let_def split: reader.splits)
  ultimately show ?thesis using st by (simp add: spsc_inv_def)
qed

lemma writer_publishes:
  assumes ri: "ring_inv s" and di: "reader_inv s" and "writer_inv s" "length (sp_got s) < unat (rb_cap (sp_ring s))"
    and "sp_writers s 0 = W_put q h"
  shows "\<exists>s'. w_step 0 p s = Inr s' \<and> spsc_inv s'"
proof -
  let ?r = "sp_ring s"
  let ?n = "length (sp_sent s)" and ?g = "length (sp_got s)" and ?c = "unat (rb_cap ?r)"
  obtain k where k: "?c = 2 ^ k" using ring_invD(1) [OF ri] by blast
  define xs where "xs = the (rb_proc ?r)"
  note hp = ring_invD(2) [OF ri] and rp = ring_invD(3) [OF ri] and g = ring_invD(4-6) [OF ri]
    and xs = ring_invD(7-9) [OF ri, folded xs_def]
  have h: "h = rb_hp ?r" "?n - ?g + 1 < ?c" "xs ! (?n mod ?c) = q"
    using assms(3,5) xs(1) by (auto simp: writer_inv_def Let_def)
  let ?s = "(set_writer s 0 W_idle)\<lparr>sp_ring := ?r\<lparr>rb_hp := h + 1\<rparr>, sp_sent := sp_sent s @ [q]\<rparr>"
  have st: "w_step 0 p s = Inr ?s" using assms(5) by (simp add: w_step_def Let_def)
  have hp': "unat (rb_hp ?r + 1) = ?n + 1" by (rule spsc_no_wrap(1) [OF ri assms(4)])
  have "xs ! (i mod ?c) = (sp_sent s @ [q]) ! i" if "?g \<le> i" "i < Suc ?n" for i
    using that xs(3) [of i] h(3) by (cases "i = ?n") (auto simp: nth_append)
  then have "ring_inv ?s"
    using k hp' rp g xs(1,2) h by (auto simp: ring_inv_def Let_def)
  moreover have "writer_inv ?s" by (simp add: writer_inv_def)
  moreover have "reader_inv ?s"
    using di by (auto simp: reader_inv_def Let_def nth_append split: reader.splits)
  ultimately show ?thesis using st by (simp add: spsc_inv_def)
qed

lemma writer_keeps:
  assumes "spsc_inv s" "length (sp_got s) < unat (rb_cap (sp_ring s))"
  shows "\<exists>s'. w_step 0 p s = Inr s' \<and> spsc_inv s'"
proof -
  have ri: "ring_inv s" and wi: "writer_inv s" and di: "reader_inv s"
    using assms(1) by (auto simp: spsc_inv_def)
  show ?thesis
  proof (cases "sp_writers s 0")
    case W_idle
    then show ?thesis using ri di by (simp add: w_step_def spsc_inv_def writer_inv_def)
  next
    case (W_hp q h)
    then show ?thesis using ri di wi by (auto simp: w_step_def spsc_inv_def writer_inv_def ring_inv_def Let_def)
  next
    case (W_rp q h a)
    then show ?thesis
    proof (cases "(h + 1) AND (rb_cap (sp_ring s) - 1) = a")
      case True
      then show ?thesis using ri di W_rp by (simp add: w_step_def spsc_inv_def writer_inv_def)
    qed (rule writer_stores [OF ri di wi assms(2)])
  next
    case (W_put q h)
    then show ?thesis by (rule writer_publishes [OF ri di wi assms(2)])
  qed
qed

text \<open>Those of the reader: it reads the entry at \<open>rp\<close>, and stores \<open>rp\<close>.\<close>

lemma reader_takes:
  assumes ri: "ring_inv s" and wi: "writer_inv s" and "reader_inv s" "length (sp_got s) < unat (rb_cap (sp_ring s))"
    and "sp_reader s = R_rp h a" "a \<noteq> h"
  shows "\<exists>s'. r_step s = Inr s' \<and> spsc_inv s'"
proof -
  let ?r = "sp_ring s"
  let ?n = "length (sp_sent s)" and ?g = "length (sp_got s)" and ?c = "unat (rb_cap ?r)"
  obtain k where k: "?c = 2 ^ k" using ring_invD(1) [OF ri] by blast
  define xs where "xs = the (rb_proc ?r)"
  note hp = ring_invD(2) [OF ri] and rp = ring_invD(3) [OF ri] and g = ring_invD(4-6) [OF ri]
    and xs = ring_invD(7-9) [OF ri, folded xs_def]
  have h: "a = rb_rp ?r" "?g \<le> unat h" "unat h \<le> ?n" using assms(3,5) by (auto simp: reader_inv_def Let_def)
  have lt: "?g < ?n" using h rp assms(6) by (metis le_neq_implies_less le_less_trans less_le_trans word_unat_eq_iff)
  have slot: "rb_slot ?r a = ?g mod ?c" using slot_mod [OF k] h(1) rp by simp
  have b: "rb_slot ?r a < length xs" unfolding slot xs(2) using assms(4) by (intro mod_less_divisor) linarith
  have "r_step s = Inr (s\<lparr>sp_reader := R_got (sp_sent s ! ?g) a\<rparr>)"
    using assms(5,6) xs(1) b xs(3) [OF order_refl lt] by (simp add: r_step_def slot Let_def)
  then show ?thesis using ri wi lt h(1) by (simp add: spsc_inv_def reader_inv_def)
qed

lemma reader_frees:
  assumes ri: "ring_inv s" and wi: "writer_inv s" and "reader_inv s" "length (sp_got s) < unat (rb_cap (sp_ring s))"
    and "sp_reader s = R_got q a"
  shows "\<exists>s'. r_step s = Inr s' \<and> spsc_inv s'"
proof -
  let ?r = "sp_ring s"
  let ?n = "length (sp_sent s)" and ?g = "length (sp_got s)" and ?c = "unat (rb_cap ?r)"
  obtain k where k: "?c = 2 ^ k" using ring_invD(1) [OF ri] by blast
  define xs where "xs = the (rb_proc ?r)"
  note hp = ring_invD(2) [OF ri] and rp = ring_invD(3) [OF ri] and g = ring_invD(4-6) [OF ri]
    and xs = ring_invD(7-9) [OF ri, folded xs_def]
  have h: "a = rb_rp ?r" "?g < ?n" "q = sp_sent s ! ?g" using assms(3,5) by (auto simp: reader_inv_def Let_def)
  let ?s = "s\<lparr>sp_reader := R_idle, sp_ring := ?r\<lparr>rb_rp := a + 1\<rparr>, sp_got := sp_got s @ [q]\<rparr>"
  have st: "r_step s = Inr ?s" using assms(5) by (simp add: r_step_def Let_def)
  have rp': "unat (rb_rp ?r + 1) = ?g + 1" by (rule spsc_no_wrap(2) [OF ri assms(4)])
  have "ring_inv ?s"
    using k hp rp' g xs h by (auto simp: ring_inv_def Let_def take_Suc_conv_app_nth)
  moreover have "writer_inv ?s"
    using wi by (auto simp: writer_inv_def Let_def split: writer.splits)
  moreover have "reader_inv ?s" by (simp add: reader_inv_def)
  ultimately show ?thesis using st by (simp add: spsc_inv_def)
qed

lemma reader_keeps:
  assumes "spsc_inv s" "length (sp_got s) < unat (rb_cap (sp_ring s))"
  shows "\<exists>s'. r_step s = Inr s' \<and> spsc_inv s'"
proof -
  have ri: "ring_inv s" and wi: "writer_inv s" and di: "reader_inv s"
    using assms(1) by (auto simp: spsc_inv_def)
  show ?thesis
  proof (cases "sp_reader s")
    case R_idle
    then show ?thesis using ri wi by (auto simp: r_step_def spsc_inv_def reader_inv_def ring_inv_def Let_def)
  next
    case (R_hp h)
    then show ?thesis using ri wi di by (simp add: r_step_def spsc_inv_def reader_inv_def Let_def)
  next
    case (R_rp h a)
    then show ?thesis
    proof (cases "a = h")
      case True
      then show ?thesis using ri wi R_rp by (simp add: r_step_def spsc_inv_def reader_inv_def)
    qed (rule reader_takes [OF ri wi di assms(2)])
  next
    case (R_got q a)
    then show ?thesis by (rule reader_frees [OF ri wi di assms(2)])
  qed
qed

lemma act_keeps:
  assumes "spsc_inv s" "length (sp_got s) < unat (rb_cap (sp_ring s))" "one_writer a"
  shows "\<exists>s'. act_step a s = Inr s' \<and> spsc_inv s'"
  using assms writer_keeps [OF assms(1,2)] reader_keeps [OF assms(1,2)] by (cases a) auto

lemma act_monotone:
  assumes "act_step a s = Inr s'"
  shows "length (sp_got s) \<le> length (sp_got s')" "rb_cap (sp_ring s') = rb_cap (sp_ring s)"
  using assms
  by (cases a; auto simp: w_step_def r_step_def Let_def
      split: writer.splits reader.splits if_splits option.splits)+

lemma reachable_inv:
  assumes "reachable r s" "rb_ok r" "rb_hp r = 0" "rb_rp r = 0" "length (sp_got s) < unat (rb_cap r)"
  shows "spsc_inv s \<and> rb_cap (sp_ring s) = rb_cap r"
  using assms(1,5)
proof (induction rule: reachable.induct)
  case reach_init
  have "spsc_inv (spsc_init r)"
    using assms(2-4) reach_init
    by (auto simp: spsc_inv_def ring_inv_def writer_inv_def reader_inv_def spsc_init_def Let_def
        elim!: rb_ok_cases)
  then show ?case by (simp add: spsc_init_def)
next
  case (reach_step s a s')
  have "length (sp_got s) < unat (rb_cap r)" using act_monotone(1) [OF reach_step(3)] reach_step.prems by simp
  then have "spsc_inv s" "rb_cap (sp_ring s) = rb_cap r" using reach_step.IH by auto
  then show ?case
    using act_keeps [of s a] act_monotone [OF reach_step(3)] reach_step by auto
qed

section \<open>Properties\<close>


definition ring4 :: "nat rBuff" where
  "ring4 = \<lparr>rb_hp = 0, rb_rp = 0, rb_cap = 4, rb_proc = Some [0, 0, 0, 0]\<rparr>"

text \<open>The writer of 5 and 6 overlaps with the reader that takes 5.\<close>

definition overlap :: "nat act list" where
  "overlap = [W 0 5, W 0 5, W 0 5, R, W 0 5, R, R, W 0 6, R, W 0 6, R, W 0 6, R, R, W 0 6, R]"

lemma act_run_reachable:
  "reachable r s \<Longrightarrow> list_all one_writer as \<Longrightarrow> act_run as s = Inr s' \<Longrightarrow> reachable r s'"
  by (induction as arbitrary: s) (auto simp: rbind_eq_Inr intro: reach_step)

lemma overlap_runs:
  "\<exists>s. act_run overlap (spsc_init ring4) = Inr s \<and> sp_got s = [5] \<and> sp_sent s = [5, 6]"
  by (simp add: overlap_def spsc_init_def ring4_def w_step_def r_step_def set_writer_def rb_slot_def)


text \<open>
  C34. Two writers lose an entry: both load \<open>hp\<close> before either stores it, both calls return
  true, and the reader gets one of the two entries and then nothing. \<open>db_insert\<close> and \<open>db_get\<close> are
  called from any thread and write to the same ring.
\<close>

definition two_writers :: "nat act list" where
  "two_writers = [W 0 5, W 1 6, W 0 5, W 1 6, W 0 5, W 1 6, W 0 5, W 1 6, R, R, R, R, R, R, R]"


end
