(* ===== verification/Ring_Weak.thy ===== *)
theory Ring_Weak
  imports Weak_Memory Ring_Interleaving
begin

text \<open>
  The ring of \<^verbatim>\<open>ringbuffer.c\<close> under the C11 memory model, with the memory orders the code names: one thread
  calls \<open>rBuff_write\<close>, another \<open>rBuff_read\<close>. The load of \<open>hp\<close> in \<open>rBuff_read\<close> is relaxed, which orders
  nothing before the read of the entry.
\<close>

section \<open>Threads and steps\<close>

datatype ctr = HP | RP

datatype who = Producer | Consumer

text \<open>\<open>wr_len\<close> is the length of the array, \<open>None\<close> when \<open>malloc\<close> failed. The threads are those of \<open>Ring_Interleaving\<close>.\<close>

record 'p wring =
  wr_mem :: "(ctr, who, nat, u64, 'p) wmem"
  wr_cap :: u64
  wr_len :: "nat option"
  wr_writer :: "'p writer"
  wr_reader :: "'p reader"
  wr_sent :: "'p list"
  wr_got :: "'p list"

text \<open>The two threads start on an initialised ring; without an array no cell is ever reached, see \<open>wr_slot\<close>.\<close>

definition wring_start :: "'p rBuff \<Rightarrow> 'p wring" where
  "wring_start r =
     \<lparr>wr_mem = wm_start [Producer, Consumer] ((\<lambda>_. rb_rp r)(HP := rb_hp r)) (\<lambda>x. the (rb_proc r) ! x),
      wr_cap = rb_cap r, wr_len = map_option length (rb_proc r), wr_writer = W_idle, wr_reader = R_idle,
      wr_sent = [], wr_got = []\<rparr>"

definition wr_slot :: "'p wring \<Rightarrow> u64 \<Rightarrow> nat res" where
  "wr_slot s i =
     (case wr_len s of
        None \<Rightarrow> Inl NullDeref
      | Some n \<Rightarrow> let x = unat (i AND (wr_cap s - 1)) in if x < n then Inr x else Inl OutOfBounds)"

text \<open>
  The next step of the thread in \<open>rBuff_write\<close>, called with \<open>p\<close> when it is idle; \<open>i\<close> is the value a
  load returns. \<open>None\<close> when the load cannot return it.
\<close>

definition put_step :: "nat \<Rightarrow> 'p \<Rightarrow> 'p wring \<Rightarrow> 'p wring res option" where
  "put_step i p s =
     (case wr_writer s of
        W_idle \<Rightarrow> map_option (\<lambda>(hp, m). Inr (s\<lparr>wr_mem := m, wr_writer := W_hp p hp\<rparr>))
          (atomic_load Producer Relaxed HP i (wr_mem s))
      | W_hp q hp \<Rightarrow> map_option (\<lambda>(rp, m). Inr (s\<lparr>wr_mem := m, wr_writer := W_rp q hp rp\<rparr>))
          (atomic_load Producer Acquire RP i (wr_mem s))
      | W_rp q hp rp \<Rightarrow>
          Some (if (hp + 1) AND (wr_cap s - 1) = rp then Inr (s\<lparr>wr_writer := W_idle\<rparr>)
                else rbind (wr_slot s hp) (\<lambda>x. rbind (plain_write Producer x q (wr_mem s))
                  (\<lambda>m. Inr (s\<lparr>wr_mem := m, wr_writer := W_put q hp\<rparr>))))
      | W_put q hp \<Rightarrow>
          Some (Inr (s\<lparr>wr_mem := atomic_store Producer Release HP (hp + 1) (wr_mem s), wr_writer := W_idle,
                       wr_sent := wr_sent s @ [q]\<rparr>)))"

text \<open>That of the thread in \<open>rBuff_read\<close>, with the order of its load of \<open>hp\<close> as a parameter.\<close>

definition take_step :: "morder \<Rightarrow> nat \<Rightarrow> 'p wring \<Rightarrow> 'p wring res option" where
  "take_step ord i s =
     (case wr_reader s of
        R_idle \<Rightarrow> map_option (\<lambda>(hp, m). Inr (s\<lparr>wr_mem := m, wr_reader := R_hp hp\<rparr>))
          (atomic_load Consumer ord HP i (wr_mem s))
      | R_hp hp \<Rightarrow> map_option (\<lambda>(rp, m). Inr (s\<lparr>wr_mem := m, wr_reader := R_rp hp rp\<rparr>))
          (atomic_load Consumer Acquire RP i (wr_mem s))
      | R_rp hp rp \<Rightarrow>
          Some (if rp = hp then Inr (s\<lparr>wr_reader := R_idle\<rparr>)
                else rbind (wr_slot s rp) (\<lambda>x. rbind (plain_read Consumer x (wr_mem s))
                  (\<lambda>(p, m). Inr (s\<lparr>wr_mem := m, wr_reader := R_got p rp\<rparr>))))
      | R_got p rp \<Rightarrow>
          Some (Inr (s\<lparr>wr_mem := atomic_store Consumer Release RP (rp + 1) (wr_mem s), wr_reader := R_idle,
                       wr_got := wr_got s @ [p]\<rparr>)))"

definition hp_order :: morder where "hp_order = Relaxed"

text \<open>The states the two threads can reach, whatever the loads return.\<close>

inductive weak_run :: "morder \<Rightarrow> 'p wring \<Rightarrow> 'p wring \<Rightarrow> bool" for ord s0 where
  weak_init: "weak_run ord s0 s0"
| weak_put: "weak_run ord s0 s \<Longrightarrow> put_step i p s = Some (Inr s') \<Longrightarrow> weak_run ord s0 s'"
| weak_take: "weak_run ord s0 s \<Longrightarrow> take_step ord i s = Some (Inr s') \<Longrightarrow> weak_run ord s0 s'"

section \<open>The invariant\<close>

abbreviation sent_n :: "'p wring \<Rightarrow> nat" where "sent_n s \<equiv> length (wr_sent s)"
abbreviation got_n :: "'p wring \<Rightarrow> nat" where "got_n s \<equiv> length (wr_got s)"
abbreviation cap_n :: "'p wring \<Rightarrow> nat" where "cap_n s \<equiv> unat (wr_cap s)"
abbreviation seen_by :: "'p wring \<Rightarrow> who \<Rightarrow> (ctr, who) clock" where "seen_by s t \<equiv> wm_clock (wr_mem s) t"

text \<open>The plain accesses of each thread: one more than the entries counted while it is between access and store.\<close>

definition puts_n :: "'p wring \<Rightarrow> nat" where
  "puts_n s = sent_n s + (case wr_writer s of W_put q hp \<Rightarrow> 1 | _ \<Rightarrow> 0)"

definition takes_n :: "'p wring \<Rightarrow> nat" where
  "takes_n s = got_n s + (case wr_reader s of R_got p rp \<Rightarrow> 1 | _ \<Rightarrow> 0)"

definition top_clock :: "'p wring \<Rightarrow> (ctr, who) clock" where
  "top_clock s = \<lparr>ck_loc = (\<lambda>_. got_n s)(HP := sent_n s), ck_thr = (\<lambda>_. takes_n s)(Producer := puts_n s)\<rparr>"

definition hist_is :: "who \<Rightarrow> nat \<Rightarrow> (ctr, who, u64) message list \<Rightarrow> bool" where
  "hist_is t n h \<longleftrightarrow> length h = n + 1 \<and> (\<forall>i \<le> n. ms_val (h ! i) = of_nat i \<and> i \<le> ck_thr (ms_clock (h ! i)) t)"

definition queue_inv :: "'p wring \<Rightarrow> bool" where
  "queue_inv s \<longleftrightarrow> (\<exists>k. cap_n s = 2 ^ k) \<and> wr_len s = Some (cap_n s) \<and> wm_threads (wr_mem s) = [Producer, Consumer]
     \<and> got_n s \<le> sent_n s \<and> puts_n s < got_n s + cap_n s \<and> wr_got s = take (got_n s) (wr_sent s)
     \<and> (\<forall>i. got_n s \<le> i \<and> i < sent_n s \<longrightarrow> wm_cell (wr_mem s) (i mod cap_n s) = wr_sent s ! i)"

definition clock_inv :: "'p wring \<Rightarrow> bool" where
  "clock_inv s \<longleftrightarrow> hist_is Producer (sent_n s) (wm_hist (wr_mem s) HP) \<and> hist_is Consumer (got_n s) (wm_hist (wr_mem s) RP)
     \<and> clocks_le (wr_mem s) (top_clock s)
     \<and> ck_loc (seen_by s Producer) HP = sent_n s \<and> ck_thr (seen_by s Producer) Producer = puts_n s
     \<and> ck_loc (seen_by s Consumer) RP = got_n s \<and> ck_thr (seen_by s Consumer) Consumer = takes_n s
     \<and> puts_n s < ck_loc (seen_by s Producer) RP + cap_n s \<and> takes_n s \<le> ck_loc (seen_by s Consumer) HP"

definition access_inv :: "'p wring \<Rightarrow> bool" where
  "access_inv s \<longleftrightarrow>
     (\<forall>x t e. wm_written (wr_mem s) x = Some (t, e) \<longrightarrow> t = Producer \<and> e \<le> puts_n s)
     \<and> (\<forall>i < puts_n s. puts_n s \<le> i + cap_n s \<longrightarrow> wm_written (wr_mem s) (i mod cap_n s) = Some (Producer, i + 1))
     \<and> (\<forall>x. wm_read (wr_mem s) x Producer = 0)
     \<and> (\<forall>x. wm_read (wr_mem s) x Consumer = 0
          \<or> wm_read (wr_mem s) x Consumer \<le> takes_n s \<and> (wm_read (wr_mem s) x Consumer - 1) mod cap_n s = x)"

definition put_inv :: "'p wring \<Rightarrow> bool" where
  "put_inv s \<longleftrightarrow>
     (case wr_writer s of
        W_idle \<Rightarrow> True
      | W_hp q hp \<Rightarrow> hp = of_nat (sent_n s)
      | W_rp q hp rp \<Rightarrow> hp = of_nat (sent_n s)
          \<and> (\<exists>a. rp = of_nat a \<and> a \<le> got_n s \<and> a \<le> ck_loc (seen_by s Producer) RP \<and> a \<le> ck_thr (seen_by s Producer) Consumer \<and> sent_n s < a + cap_n s)
      | W_put q hp \<Rightarrow> hp = of_nat (sent_n s) \<and> wm_cell (wr_mem s) (sent_n s mod cap_n s) = q)"

definition take_inv :: "morder \<Rightarrow> 'p wring \<Rightarrow> bool" where
  "take_inv ord s \<longleftrightarrow>
     (let known = (\<lambda>hp. \<exists>h. hp = of_nat h \<and> got_n s \<le> h \<and> h \<le> ck_loc (seen_by s Consumer) HP
        \<and> (ord = Acquire \<longrightarrow> h \<le> ck_thr (seen_by s Consumer) Producer)) in
      case wr_reader s of
        R_idle \<Rightarrow> True
      | R_hp hp \<Rightarrow> known hp
      | R_rp hp rp \<Rightarrow> known hp \<and> rp = of_nat (got_n s)
      | R_got p rp \<Rightarrow> rp = of_nat (got_n s) \<and> p = wr_sent s ! got_n s)"

definition blind_inv :: "'p wring \<Rightarrow> bool" where
  "blind_inv s \<longleftrightarrow> ck_thr (seen_by s Consumer) Producer = 0 \<and> (\<forall>msg \<in> set (wm_hist (wr_mem s) RP). ck_thr (ms_clock msg) Producer = 0)"

definition weak_inv :: "morder \<Rightarrow> 'p wring \<Rightarrow> bool" where
  "weak_inv ord s \<longleftrightarrow> queue_inv s \<and> clock_inv s \<and> access_inv s \<and> put_inv s \<and> take_inv ord s"

section \<open>What a step of one thread leaves alone\<close>

lemma counts_frame [simp]:
  "puts_n (s\<lparr>wr_mem := m\<rparr>) = puts_n s" "takes_n (s\<lparr>wr_mem := m\<rparr>) = takes_n s"
  "puts_n (s\<lparr>wr_reader := r\<rparr>) = puts_n s" "takes_n (s\<lparr>wr_writer := w\<rparr>) = takes_n s"
  "puts_n (s\<lparr>wr_got := g\<rparr>) = puts_n s" "takes_n (s\<lparr>wr_sent := xs\<rparr>) = takes_n s"
  by (simp_all add: puts_n_def takes_n_def cong: writer.case_cong reader.case_cong)

lemma top_clock_simps [simp]:
  "ck_loc (top_clock s) HP = sent_n s" "ck_loc (top_clock s) RP = got_n s"
  "ck_thr (top_clock s) Producer = puts_n s" "ck_thr (top_clock s) Consumer = takes_n s"
  "top_clock (s\<lparr>wr_mem := m\<rparr>) = top_clock s"
  by (simp_all add: top_clock_def)

lemma clock_invD:
  assumes "clock_inv s"
  shows "hist_is Producer (sent_n s) (wm_hist (wr_mem s) HP)" "hist_is Consumer (got_n s) (wm_hist (wr_mem s) RP)"
    "clocks_le (wr_mem s) (top_clock s)" "ck_loc (seen_by s Producer) HP = sent_n s" "ck_thr (seen_by s Producer) Producer = puts_n s"
    "ck_loc (seen_by s Consumer) RP = got_n s" "ck_thr (seen_by s Consumer) Consumer = takes_n s"
    "puts_n s < ck_loc (seen_by s Producer) RP + cap_n s" "takes_n s \<le> ck_loc (seen_by s Consumer) HP"
    "takes_n s \<le> sent_n s"
proof -
  show "takes_n s \<le> sent_n s" using assms top_clock_simps(1) [of s] unfolding clock_inv_def clocks_le_def ck_le_def by (metis order_trans)
qed (use assms in \<open>simp_all add: clock_inv_def\<close>)

lemma clock_le_top:
  assumes "clocks_le m (top_clock s)"
  shows "ck_loc (wm_clock m t) HP \<le> sent_n s" "ck_loc (wm_clock m t) RP \<le> got_n s"
    "ck_thr (wm_clock m t) Producer \<le> puts_n s" "ck_thr (wm_clock m t) Consumer \<le> takes_n s"
  using assms top_clock_simps(1-4) [of s] unfolding clocks_le_def ck_le_def by metis+

lemma hist_length: "clock_inv s \<Longrightarrow> length (wm_hist (wr_mem s) l) = ck_loc (top_clock s) l + 1"
  using clock_invD(1,2) [of s] by (cases l) (simp_all add: hist_is_def)

lemma load_clock_inv:
  assumes "clock_inv s" "atomic_load t ord l i (wr_mem s) = Some (v, m)"
  shows "clock_inv (s\<lparr>wr_mem := m\<rparr>)"
proof -
  note k = load_keeps [OF assms(2)] and c = clock_invD [OF assms(1)]
  have top: "clocks_le m (top_clock s)"
    by (rule load_clocks_le [OF assms(2) c(3)]) (simp add: hist_length [OF assms(1)])
  have loc: "ck_loc (wm_clock (wr_mem s) u) x \<le> ck_loc (wm_clock m u) x" for u x
    using k(6) [of u] k(8,10) k(11) [of x] by (cases "u = t"; cases "x = l") auto
  have thr: "ck_thr (wm_clock (wr_mem s) u) x \<le> ck_thr (wm_clock m u) x" for u x
    using k(6) [of u] k(12) [of x] by (cases "u = t") auto
  note le = clock_le_top [OF top]
  have "ck_loc (wm_clock m Producer) HP = sent_n s" using le(1) loc [of Producer HP] c(4) by (metis le_antisym)
  moreover have "ck_loc (wm_clock m Consumer) RP = got_n s" using le(2) loc [of Consumer RP] c(6) by (metis le_antisym)
  moreover have "ck_thr (wm_clock m Producer) Producer = puts_n s" using le(3) thr [of Producer Producer] c(5) by (metis le_antisym)
  moreover have "ck_thr (wm_clock m Consumer) Consumer = takes_n s" using le(4) thr [of Consumer Consumer] c(7) by (metis le_antisym)
  moreover have "puts_n s < ck_loc (wm_clock m Producer) RP + cap_n s" using loc [of Producer RP] c(8) by linarith
  moreover have "takes_n s \<le> ck_loc (wm_clock m Consumer) HP" using loc [of Consumer HP] c(9) by linarith
  ultimately show ?thesis using c(1,2) top by (simp add: clock_inv_def k(2))
qed

text \<open>A load changes nothing but the clock of its thread.\<close>

lemma load_frames:
  assumes "atomic_load t ord l i (wr_mem s) = Some (v, m)"
  shows "queue_inv (s\<lparr>wr_mem := m\<rparr>) = queue_inv s" "access_inv (s\<lparr>wr_mem := m\<rparr>) = access_inv s"
    "t = Consumer \<Longrightarrow> put_inv (s\<lparr>wr_mem := m\<rparr>) = put_inv s" "t = Producer \<Longrightarrow> take_inv ord' (s\<lparr>wr_mem := m\<rparr>) = take_inv ord' s"
  using load_keeps [OF assms]
  by (simp_all add: queue_inv_def access_inv_def put_inv_def take_inv_def cong: writer.case_cong reader.case_cong)

text \<open>Nor does a thread that only changes its own place in the code.\<close>

lemma place_frames:
  assumes "puts_n (s\<lparr>wr_writer := w\<rparr>) = puts_n s"
  shows "queue_inv (s\<lparr>wr_writer := w\<rparr>) = queue_inv s" "clock_inv (s\<lparr>wr_writer := w\<rparr>) = clock_inv s"
    "access_inv (s\<lparr>wr_writer := w\<rparr>) = access_inv s" "take_inv ord (s\<lparr>wr_writer := w\<rparr>) = take_inv ord s"
  using assms
  by (simp_all add: queue_inv_def clock_inv_def access_inv_def take_inv_def top_clock_def cong: reader.case_cong)

lemma place_frames':
  assumes "takes_n (s\<lparr>wr_reader := r\<rparr>) = takes_n s"
  shows "queue_inv (s\<lparr>wr_reader := r\<rparr>) = queue_inv s" "clock_inv (s\<lparr>wr_reader := r\<rparr>) = clock_inv s"
    "access_inv (s\<lparr>wr_reader := r\<rparr>) = access_inv s" "put_inv (s\<lparr>wr_reader := r\<rparr>) = put_inv s"
  using assms
  by (simp_all add: queue_inv_def clock_inv_def access_inv_def put_inv_def top_clock_def cong: writer.case_cong)

section \<open>Places in the ring\<close>

text \<open>Before the counters reach the capacity nothing wraps.\<close>

lemma small_counts:
  assumes "queue_inv s" "got_n s < cap_n s"
  shows "sent_n s + 1 < 2 ^ 64" "got_n s + 1 < 2 ^ 64"
proof -
  obtain k where k: "cap_n s = 2 ^ k" using assms(1) by (auto simp: queue_inv_def)
  have "sent_n s < got_n s + cap_n s" "got_n s \<le> sent_n s" using assms(1) by (simp_all add: queue_inv_def puts_n_def)
  then show "sent_n s + 1 < 2 ^ 64" "got_n s + 1 < 2 ^ 64" using double_cap [OF k] assms(2) by linarith+
qed

lemma wr_slot_mod:
  assumes "queue_inv s" "n < 2 ^ 64"
  shows "wr_slot s (of_nat n) = Inr (n mod cap_n s)"
proof -
  obtain k where k: "cap_n s = 2 ^ k" using assms(1) by (auto simp: queue_inv_def)
  have "unat ((of_nat n :: u64) AND (wr_cap s - 1)) = n mod cap_n s"
    using unat_and_mask [OF k] unat_of_nat_u64 [OF assms(2)] by simp
  moreover have "n mod cap_n s < cap_n s" using k by simp
  ultimately show ?thesis using assms(1) by (simp add: wr_slot_def queue_inv_def)
qed

text \<open>The fullness test is exact for any \<open>rp\<close> below the capacity, also an old one.\<close>

lemma masked_not_full:
  fixes c :: u64
  assumes "unat c = 2 ^ k" "n + 1 < 2 ^ 64" "a < unat c" "n < a + unat c" "((of_nat n + 1) AND (c - 1)) \<noteq> of_nat a"
  shows "n + 1 < a + unat c"
proof (rule ccontr)
  assume "\<not> n + 1 < a + unat c"
  then have e: "n + 1 = a + unat c" using assms(4) by linarith
  have "unat ((of_nat n + 1) AND (c - 1)) = unat (of_nat (n + 1) :: u64) mod unat c"
    using unat_and_mask [OF assms(1), of "of_nat n + 1"] by (simp add: add.commute)
  also have "\<dots> = (n + 1) mod unat c" using unat_of_nat_u64 [OF assms(2)] by simp
  also have "\<dots> = a" unfolding e using assms(3) by simp
  finally have "unat ((of_nat n + 1) AND (c - 1)) = unat (of_nat a :: u64)"
    using unat_of_nat_u64 [of a] unat_less_u64 [of c] assms(3) by simp
  then show False using assms(5) by (simp add: word_unat_eq_iff)
qed

lemma later_slot:
  fixes i :: nat
  assumes "i < n" "n < i + c"
  shows "i mod c \<noteq> n mod c"
  using slots_distinct [of 0 "n - i" c i] assms by simp

lemma earlier_lap:
  fixes i :: nat
  assumes "i < n" "i mod c = n mod c"
  shows "i + c \<le> n"
  using later_slot [of i n c] assms by force

section \<open>The steps of the writer\<close>

lemma weak_invD:
  assumes "weak_inv ord s"
  shows "queue_inv s" "clock_inv s" "access_inv s" "put_inv s" "take_inv ord s"
  using assms by (simp_all add: weak_inv_def)

lemma put_loads_hp:
  assumes "weak_inv ord s" "wr_writer s = W_idle" "atomic_load Producer Relaxed HP i (wr_mem s) = Some (hp, m)"
  shows "weak_inv ord (s\<lparr>wr_mem := m, wr_writer := W_hp p hp\<rparr>)"
proof -
  note inv = weak_invD [OF assms(1)] and fr = load_frames [OF assms(3)] and k = load_keeps [OF assms(3)]
    and c = clock_invD [OF inv(2)]
  let ?s = "s\<lparr>wr_mem := m\<rparr>"
  have i: "i = sent_n s" using k(8,9) c(1,4) by (simp add: hist_is_def)
  then have hp: "hp = of_nat (sent_n s)" using k(7) c(1) by (simp add: hist_is_def)
  have n: "puts_n (?s\<lparr>wr_writer := W_hp p hp\<rparr>) = puts_n ?s" using assms(2) by (simp add: puts_n_def)
  show ?thesis
    using place_frames [OF n] load_clock_inv [OF inv(2) assms(3)] fr inv hp by (simp add: weak_inv_def put_inv_def)
qed

lemma put_loads_rp:
  assumes "weak_inv ord s" "wr_writer s = W_hp q hp" "atomic_load Producer Acquire RP i (wr_mem s) = Some (rp, m)"
  shows "weak_inv ord (s\<lparr>wr_mem := m, wr_writer := W_rp q hp rp\<rparr>)"
proof -
  note inv = weak_invD [OF assms(1)] and fr = load_frames [OF assms(3)] and k = load_keeps [OF assms(3)]
    and c = clock_invD [OF inv(2)]
  let ?s = "s\<lparr>wr_mem := m\<rparr>"
  have i: "i \<le> got_n s" using k(9) c(2) by (simp add: hist_is_def)
  then have rp: "rp = of_nat i" "i \<le> ck_thr (ms_clock (wm_hist (wr_mem s) RP ! i)) Consumer"
    using k(7) c(2) by (simp_all add: hist_is_def)
  then have thr: "i \<le> ck_thr (wm_clock m Producer) Consumer" by (simp add: k(14))
  have room: "sent_n s < i + cap_n s" using k(8) c(8) assms(2) by (simp add: puts_n_def)
  have "hp = of_nat (sent_n s)" using inv(4) assms(2) by (simp add: put_inv_def)
  then have "put_inv (?s\<lparr>wr_writer := W_rp q hp rp\<rparr>)"
    using i rp(1) thr room k(10) by (auto simp: put_inv_def intro!: exI [of _ i])
  moreover have n: "puts_n (?s\<lparr>wr_writer := W_rp q hp rp\<rparr>) = puts_n ?s" using assms(2) by (simp add: puts_n_def)
  ultimately show ?thesis
    using place_frames [OF n] load_clock_inv [OF inv(2) assms(3)] fr inv by (simp add: weak_inv_def)
qed

lemma put_refuses:
  assumes "weak_inv ord s" "wr_writer s = W_rp q hp rp"
  shows "weak_inv ord (s\<lparr>wr_writer := W_idle\<rparr>)"
proof -
  have n: "puts_n (s\<lparr>wr_writer := W_idle\<rparr>) = puts_n s" using assms(2) by (simp add: puts_n_def)
  show ?thesis using place_frames [OF n] weak_invD [OF assms(1)] by (simp add: weak_inv_def put_inv_def)
qed

text \<open>The entry is written: the slot was last read, and last written, in the writer's past.\<close>

lemma put_ordered:
  assumes "weak_inv ord s" "wr_writer s = W_rp q hp rp" "got_n s < cap_n s" "(hp + 1) AND (wr_cap s - 1) \<noteq> rp"
  shows "hp = of_nat (sent_n s)" "sent_n s + 1 < got_n s + cap_n s" "sent_n s + 1 < ck_loc (seen_by s Producer) RP + cap_n s"
    "write_ordered (wr_mem s) Producer (sent_n s mod cap_n s)" "reads_ordered (wr_mem s) Producer (sent_n s mod cap_n s)"
proof -
  note inv = weak_invD [OF assms(1)] and c = clock_invD [OF weak_invD(2) [OF assms(1)]]
  let ?n = "sent_n s" and ?x = "sent_n s mod cap_n s"
  obtain a where a: "rp = of_nat a" "a \<le> got_n s" "a \<le> ck_loc (seen_by s Producer) RP"
      "a \<le> ck_thr (seen_by s Producer) Consumer" "?n < a + cap_n s" and hp: "hp = of_nat ?n"
    using inv(4) assms(2) by (auto simp: put_inv_def)
  obtain k where k: "cap_n s = 2 ^ k" using inv(1) by (auto simp: queue_inv_def)
  have lt: "?n + 1 < a + cap_n s"
    by (rule masked_not_full [OF k small_counts(1) [OF inv(1) assms(3)]]) (use a assms(3,4) hp in simp_all)
  show "hp = of_nat ?n" "?n + 1 < got_n s + cap_n s" "?n + 1 < ck_loc (seen_by s Producer) RP + cap_n s"
    using hp lt a by linarith+
  have w: "wm_written (wr_mem s) ?x = Some (t, e) \<Longrightarrow> t = Producer \<and> e \<le> puts_n s" for t e
    using inv(3) unfolding access_inv_def by blast
  show "write_ordered (wr_mem s) Producer ?x"
    using w c(5) by (auto simp: write_ordered_def split: option.splits)
  have r: "wm_read (wr_mem s) ?x Consumer \<le> ck_thr (seen_by s Producer) Consumer"
  proof (cases "wm_read (wr_mem s) ?x Consumer")
    case (Suc e)
    then have e: "Suc e \<le> takes_n s" "e mod cap_n s = ?x"
      using inv(3) unfolding access_inv_def by (metis Zero_neq_Suc diff_Suc_1)+
    have "e + cap_n s \<le> ?n" using earlier_lap [OF _ e(2)] e(1) c(10) by linarith
    then show ?thesis using Suc lt a(4) by linarith
  qed simp
  moreover have "wm_read (wr_mem s) ?x Producer = 0" using inv(3) by (simp add: access_inv_def)
  ultimately show "reads_ordered (wr_mem s) Producer ?x" using inv(1) by (simp add: reads_ordered_def queue_inv_def)
qed

lemma put_writes:
  assumes "weak_inv ord s" "wr_writer s = W_rp q hp rp" "got_n s < cap_n s" "(hp + 1) AND (wr_cap s - 1) \<noteq> rp"
    and "plain_write Producer (sent_n s mod cap_n s) q (wr_mem s) = Inr m"
  shows "weak_inv ord (s\<lparr>wr_mem := m, wr_writer := W_put q hp\<rparr>)"
proof -
  note inv = weak_invD [OF assms(1)] and c = clock_invD [OF weak_invD(2) [OF assms(1)]]
    and ok = put_ordered [OF assms(1-4)] and k = plain_write_keeps [OF assms(5)]
  let ?s = "s\<lparr>wr_mem := m, wr_writer := W_put q hp\<rparr>" and ?n = "sent_n s"
  have n: "puts_n s = ?n" "puts_n ?s = ?n + 1" "takes_n ?s = takes_n s" using assms(2) by (simp_all add: puts_n_def)
  have other: "i mod cap_n s \<noteq> ?n mod cap_n s" if "i < ?n" "?n < i + cap_n s" for i by (rule later_slot [OF that])
  have "queue_inv ?s"
    using inv(1) ok(2) k(1,4) n other by (auto simp: queue_inv_def)
  moreover have "clock_inv ?s"
  proof -
    have "ck_le (top_clock s) (top_clock ?s)" unfolding top_clock_def n by (simp add: ck_le_def)
    moreover have "ck_thr (seen_by s Producer) Producer < ck_thr (top_clock ?s) Producer" using n c(5) by simp
    ultimately have "clocks_le m (top_clock ?s)" using k(2,6) by (rule tick_clocks_le [OF c(3)])
    then show ?thesis using c ok(3) n k(2,6) by (simp add: clock_inv_def)
  qed
  moreover have "access_inv ?s"
  proof -
    have "wm_written m x = Some (t, e) \<Longrightarrow> t = Producer \<and> e \<le> ?n + 1" for x t e
      using inv(3) n(1) c(5) unfolding access_inv_def k(5) by (auto split: if_splits dest: le_SucI)
    moreover have "wm_written m (i mod cap_n s) = Some (Producer, i + 1)" if "i < ?n + 1" "?n + 1 \<le> i + cap_n s" for i
      using that inv(3) n(1) c(5) other [of i] unfolding access_inv_def k(5) by (cases "i = ?n") auto
    ultimately show ?thesis using inv(3) k(3) n by (auto simp: access_inv_def)
  qed
  moreover have "put_inv ?s" using ok(1) k(4) by (simp add: put_inv_def)
  moreover have "take_inv ord ?s" using inv(5) k(6) by (simp add: take_inv_def cong: reader.case_cong)
  ultimately show ?thesis by (simp add: weak_inv_def)
qed

text \<open>The entry is published.\<close>

lemma put_publishes:
  assumes "weak_inv ord s" "wr_writer s = W_put q hp"
  shows "weak_inv ord (s\<lparr>wr_mem := atomic_store Producer Release HP (hp + 1) (wr_mem s), wr_writer := W_idle,
    wr_sent := wr_sent s @ [q]\<rparr>)"
proof -
  note inv = weak_invD [OF assms(1)] and c = clock_invD [OF weak_invD(2) [OF assms(1)]]
  let ?n = "sent_n s"
  define m where "m = atomic_store Producer Release HP (hp + 1) (wr_mem s)"
  define s' where "s' = s\<lparr>wr_mem := m, wr_writer := W_idle, wr_sent := wr_sent s @ [q]\<rparr>"
  have sel: "wr_mem s' = m" "wr_cap s' = wr_cap s" "wr_len s' = wr_len s" "wr_writer s' = W_idle" "wr_reader s' = wr_reader s"
    "wr_sent s' = wr_sent s @ [q]" "wr_got s' = wr_got s" by (simp_all add: s'_def)
  have p: "hp = of_nat ?n" "wm_cell (wr_mem s) (?n mod cap_n s) = q" using inv(4) assms(2) by (simp_all add: put_inv_def)
  have len: "length (wm_hist (wr_mem s) HP) = ?n + 1" using c(1) by (simp add: hist_is_def)
  have n: "puts_n s = ?n + 1" "puts_n s' = ?n + 1" "takes_n s' = takes_n s"
    using assms(2) sel by (simp_all add: puts_n_def takes_n_def)
  define ck where "ck = ck_saw HP (?n + 1) (seen_by s Producer)"
  have m: "wm_threads m = wm_threads (wr_mem s)" "wm_cell m = wm_cell (wr_mem s)" "wm_written m = wm_written (wr_mem s)"
    "wm_read m = wm_read (wr_mem s)" "wm_clock m = (wm_clock (wr_mem s))(Producer := ck)"
    "wm_hist m = (wm_hist (wr_mem s))(HP := wm_hist (wr_mem s) HP @ [\<lparr>ms_val = hp + 1, ms_clock = ck\<rparr>])"
    by (simp_all add: m_def atomic_store_def Let_def len ck_def)
  have "wm_cell m (i mod cap_n s) = (wr_sent s @ [q]) ! i" if "got_n s \<le> i" "i < ?n + 1" for i
    using that inv(1) p(2) m(2) by (cases "i = ?n") (auto simp: queue_inv_def nth_append)
  then have "queue_inv s'"
    using inv(1) n m(1) by (auto simp: queue_inv_def sel)
  moreover have "clock_inv s'"
  proof -
    have "ck_le (top_clock s) (top_clock s')" using n by (simp add: top_clock_def ck_le_def sel)
    moreover have "length (wm_hist (wr_mem s) HP) \<le> ck_loc (top_clock s') HP" using len by (simp add: sel)
    ultimately have "clocks_le m (top_clock s')" unfolding m_def by (rule store_clocks_le [OF c(3)])
    moreover have "hist_is Producer (?n + 1) (wm_hist m HP)"
      using c(1,5) p(1) n(1) len by (auto simp: hist_is_def m(6) ck_def nth_append le_Suc_eq)
    ultimately show ?thesis using c n m(5,6) by (simp add: clock_inv_def sel ck_def)
  qed
  moreover have "access_inv s'" using inv(3) m(3,4) n by (simp add: access_inv_def sel)
  moreover have "put_inv s'" by (simp add: put_inv_def sel)
  moreover have "take_inv ord s'"
  proof -
    have "takes_n s \<le> ?n" by (rule c(10))
    then show ?thesis using inv(5) m(5) by (auto simp: take_inv_def sel takes_n_def nth_append Let_def split: reader.splits)
  qed
  ultimately show ?thesis by (simp add: weak_inv_def s'_def m_def)
qed

section \<open>The steps of the reader\<close>

lemma take_loads_hp:
  assumes "weak_inv ord s" "wr_reader s = R_idle" "atomic_load Consumer ord HP i (wr_mem s) = Some (hp, m)"
  shows "weak_inv ord (s\<lparr>wr_mem := m, wr_reader := R_hp hp\<rparr>)"
proof -
  note inv = weak_invD [OF assms(1)] and fr = load_frames [OF assms(3)] and k = load_keeps [OF assms(3)]
    and c = clock_invD [OF weak_invD(2) [OF assms(1)]]
  let ?s = "s\<lparr>wr_mem := m\<rparr>"
  have i: "i \<le> sent_n s" using k(9) c(1) by (simp add: hist_is_def)
  then have hp: "hp = of_nat i" "i \<le> ck_thr (ms_clock (wm_hist (wr_mem s) HP ! i)) Producer"
    using k(7) c(1) by (simp_all add: hist_is_def)
  have "got_n s \<le> i" using k(8) c(9) assms(2) by (simp add: takes_n_def)
  then have "take_inv ord (?s\<lparr>wr_reader := R_hp hp\<rparr>)"
    using hp k(10) k(14) by (auto simp: take_inv_def Let_def intro!: exI [of _ i])
  moreover have n: "takes_n (?s\<lparr>wr_reader := R_hp hp\<rparr>) = takes_n ?s" using assms(2) by (simp add: takes_n_def)
  ultimately show ?thesis
    using place_frames' [OF n] load_clock_inv [OF inv(2) assms(3)] fr inv by (simp add: weak_inv_def)
qed

lemma take_loads_rp:
  assumes "weak_inv ord s" "wr_reader s = R_hp hp" "atomic_load Consumer Acquire RP i (wr_mem s) = Some (rp, m)"
  shows "weak_inv ord (s\<lparr>wr_mem := m, wr_reader := R_rp hp rp\<rparr>)"
proof -
  note inv = weak_invD [OF assms(1)] and fr = load_frames [OF assms(3)] and k = load_keeps [OF assms(3)]
    and c = clock_invD [OF weak_invD(2) [OF assms(1)]]
  let ?s = "s\<lparr>wr_mem := m\<rparr>"
  have "i = got_n s" using k(8,9) c(2,6) by (simp add: hist_is_def)
  then have rp: "rp = of_nat (got_n s)" using k(7) c(2) by (simp add: hist_is_def)
  obtain h where h: "hp = of_nat h" "got_n s \<le> h" "h \<le> ck_loc (seen_by s Consumer) HP"
      "ord = Acquire \<longrightarrow> h \<le> ck_thr (seen_by s Consumer) Producer"
    using inv(5) assms(2) by (auto simp: take_inv_def)
  have "h \<le> ck_loc (wm_clock m Consumer) HP" using h(3) k(11) [of HP] by simp
  moreover have "ord = Acquire \<longrightarrow> h \<le> ck_thr (wm_clock m Consumer) Producer" using h(4) k(12) [of Producer] by force
  ultimately have "take_inv ord (?s\<lparr>wr_reader := R_rp hp rp\<rparr>)" using rp h(1,2) by (auto simp: take_inv_def Let_def)
  moreover have n: "takes_n (?s\<lparr>wr_reader := R_rp hp rp\<rparr>) = takes_n ?s" using assms(2) by (simp add: takes_n_def)
  ultimately show ?thesis
    using place_frames' [OF n] load_clock_inv [OF inv(2) assms(3)] fr inv by (simp add: weak_inv_def)
qed

lemma take_refuses:
  assumes "weak_inv ord s" "wr_reader s = R_rp hp rp"
  shows "weak_inv ord (s\<lparr>wr_reader := R_idle\<rparr>)"
proof -
  have n: "takes_n (s\<lparr>wr_reader := R_idle\<rparr>) = takes_n s" using assms(2) by (simp add: takes_n_def)
  show ?thesis using place_frames' [OF n] weak_invD [OF assms(1)] by (simp add: weak_inv_def take_inv_def)
qed

text \<open>The slot of the next entry was last written by the write of that entry.\<close>

lemma take_slot:
  assumes "weak_inv ord s" "wr_reader s = R_rp hp rp" "rp \<noteq> hp"
  shows "rp = of_nat (got_n s)" "got_n s < sent_n s" "got_n s < ck_loc (seen_by s Consumer) HP"
    "wm_written (wr_mem s) (got_n s mod cap_n s) = Some (Producer, got_n s + 1)"
    "ord = Acquire \<Longrightarrow> write_ordered (wr_mem s) Consumer (got_n s mod cap_n s)"
proof -
  note inv = weak_invD [OF assms(1)] and c = clock_invD [OF weak_invD(2) [OF assms(1)]]
  obtain h where h: "hp = of_nat h" "got_n s \<le> h" "h \<le> ck_loc (seen_by s Consumer) HP"
      "ord = Acquire \<longrightarrow> h \<le> ck_thr (seen_by s Consumer) Producer" and rp: "rp = of_nat (got_n s)"
    using inv(5) assms(2) by (auto simp: take_inv_def)
  have lt: "got_n s < h" using h(1,2) rp assms(3) by (cases "h = got_n s") auto
  show g: "rp = of_nat (got_n s)" "got_n s < sent_n s" "got_n s < ck_loc (seen_by s Consumer) HP"
    using rp lt h(3) clock_le_top(1) [OF c(3), of Consumer] by linarith+
  have p: "got_n s < puts_n s" "puts_n s \<le> got_n s + cap_n s" using g(2) inv(1) by (auto simp: puts_n_def queue_inv_def)
  show w: "wm_written (wr_mem s) (got_n s mod cap_n s) = Some (Producer, got_n s + 1)"
    using inv(3) p by (auto simp: access_inv_def)
  show "write_ordered (wr_mem s) Consumer (got_n s mod cap_n s)" if "ord = Acquire"
    using that h(4) lt by (simp add: write_ordered_def w)
qed

lemma take_reads:
  assumes "weak_inv ord s" "wr_reader s = R_rp hp rp" "rp \<noteq> hp"
    and "plain_read Consumer (got_n s mod cap_n s) (wr_mem s) = Inr (p, m)"
  shows "weak_inv ord (s\<lparr>wr_mem := m, wr_reader := R_got p rp\<rparr>)"
proof -
  note inv = weak_invD [OF assms(1)] and c = clock_invD [OF weak_invD(2) [OF assms(1)]]
    and ok = take_slot [OF assms(1-3)] and k = plain_read_keeps [OF assms(4)]
  let ?s = "s\<lparr>wr_mem := m, wr_reader := R_got p rp\<rparr>" and ?g = "got_n s"
  have n: "takes_n s = ?g" "takes_n ?s = ?g + 1" "puts_n ?s = puts_n s" using assms(2) by (simp_all add: takes_n_def)
  have "queue_inv ?s" using inv(1) k(1,3) n by (simp add: queue_inv_def)
  moreover have "clock_inv ?s"
  proof -
    have "ck_le (top_clock s) (top_clock ?s)" unfolding top_clock_def n by (simp add: ck_le_def)
    moreover have "ck_thr (seen_by s Consumer) Consumer < ck_thr (top_clock ?s) Consumer" using n c(7) by simp
    ultimately have "clocks_le m (top_clock ?s)" using k(2,6) by (rule tick_clocks_le [OF c(3)])
    then show ?thesis using c ok(3) n k(2,6) by (simp add: clock_inv_def)
  qed
  moreover have "access_inv ?s"
  proof -
    have old: "wm_read (wr_mem s) x Consumer = 0
        \<or> wm_read (wr_mem s) x Consumer \<le> ?g \<and> (wm_read (wr_mem s) x Consumer - 1) mod cap_n s = x" for x
      using inv(3) n(1) by (simp add: access_inv_def)
    have "wm_read m x Consumer = 0 \<or> wm_read m x Consumer \<le> ?g + 1 \<and> (wm_read m x Consumer - 1) mod cap_n s = x" for x
      using old [of x] n(1) c(7) unfolding k(5) by (cases "x = ?g mod cap_n s") auto
    moreover have "wm_read m x Producer = 0" for x using inv(3) unfolding access_inv_def k(5) by simp
    ultimately show ?thesis using inv(3) k(4) n by (simp add: access_inv_def)
  qed
  moreover have "put_inv ?s" using inv(4) k(3,6) by (simp add: put_inv_def cong: writer.case_cong)
  moreover have "take_inv ord ?s" using inv(1) ok(1,2) k(7) by (simp add: take_inv_def queue_inv_def)
  ultimately show ?thesis by (simp add: weak_inv_def)
qed

text \<open>The slot is handed back.\<close>

lemma take_frees:
  assumes "weak_inv ord s" "wr_reader s = R_got p rp"
  shows "weak_inv ord (s\<lparr>wr_mem := atomic_store Consumer Release RP (rp + 1) (wr_mem s), wr_reader := R_idle,
    wr_got := wr_got s @ [p]\<rparr>)"
proof -
  note inv = weak_invD [OF assms(1)] and c = clock_invD [OF weak_invD(2) [OF assms(1)]]
  let ?g = "got_n s"
  define m where "m = atomic_store Consumer Release RP (rp + 1) (wr_mem s)"
  define s' where "s' = s\<lparr>wr_mem := m, wr_reader := R_idle, wr_got := wr_got s @ [p]\<rparr>"
  have sel: "wr_mem s' = m" "wr_cap s' = wr_cap s" "wr_len s' = wr_len s" "wr_writer s' = wr_writer s" "wr_reader s' = R_idle"
    "wr_sent s' = wr_sent s" "wr_got s' = wr_got s @ [p]" by (simp_all add: s'_def)
  have p: "rp = of_nat ?g" "p = wr_sent s ! ?g" using inv(5) assms(2) by (simp_all add: take_inv_def)
  have len: "length (wm_hist (wr_mem s) RP) = ?g + 1" using c(2) by (simp add: hist_is_def)
  have n: "takes_n s = ?g + 1" "takes_n s' = ?g + 1" "puts_n s' = puts_n s"
    using assms(2) sel by (simp_all add: puts_n_def takes_n_def)
  have lt: "?g < sent_n s" using c(10) n(1) by simp
  define ck where "ck = ck_saw RP (?g + 1) (seen_by s Consumer)"
  have m: "wm_threads m = wm_threads (wr_mem s)" "wm_cell m = wm_cell (wr_mem s)" "wm_written m = wm_written (wr_mem s)"
    "wm_read m = wm_read (wr_mem s)" "wm_clock m = (wm_clock (wr_mem s))(Consumer := ck)"
    "wm_hist m = (wm_hist (wr_mem s))(RP := wm_hist (wr_mem s) RP @ [\<lparr>ms_val = rp + 1, ms_clock = ck\<rparr>])"
    by (simp_all add: m_def atomic_store_def Let_def len ck_def)
  have "queue_inv s'"
    using inv(1) n m(1,2) lt p(2) by (auto simp: queue_inv_def sel take_Suc_conv_app_nth)
  moreover have "clock_inv s'"
  proof -
    have "ck_le (top_clock s) (top_clock s')" using n by (simp add: top_clock_def ck_le_def sel)
    moreover have "length (wm_hist (wr_mem s) RP) \<le> ck_loc (top_clock s') RP" using len by (simp add: sel)
    ultimately have "clocks_le m (top_clock s')" unfolding m_def by (rule store_clocks_le [OF c(3)])
    moreover have "hist_is Consumer (?g + 1) (wm_hist m RP)"
      using c(2,7) p(1) n(1) len by (auto simp: hist_is_def m(6) ck_def nth_append le_Suc_eq)
    ultimately show ?thesis using c n m(5,6) by (simp add: clock_inv_def sel ck_def)
  qed
  moreover have "access_inv s'" using inv(3) m(3,4) n by (simp add: access_inv_def sel)
  moreover have "put_inv s'" using inv(4) m(2,5) by (auto simp: put_inv_def sel split: writer.splits)
  moreover have "take_inv ord s'" by (simp add: take_inv_def sel)
  ultimately show ?thesis by (simp add: weak_inv_def s'_def m_def)
qed

section \<open>Every step keeps the invariant\<close>

lemma put_step_keeps:
  assumes "weak_inv ord s" "got_n s < cap_n s" "put_step i p s = Some r"
  shows "\<exists>s'. r = Inr s' \<and> weak_inv ord s' \<and> wr_got s' = wr_got s \<and> wr_cap s' = wr_cap s \<and> wr_reader s' = wr_reader s"
proof (cases "wr_writer s")
  case W_idle
  then show ?thesis using assms(3) put_loads_hp [OF assms(1) W_idle] by (auto simp: put_step_def)
next
  case (W_hp q hp)
  then show ?thesis using assms(3) put_loads_rp [OF assms(1) W_hp] by (auto simp: put_step_def)
next
  case (W_rp q hp rp)
  show ?thesis
  proof (cases "(hp + 1) AND (wr_cap s - 1) = rp")
    case True
    then show ?thesis using assms(3) put_refuses [OF assms(1) W_rp] by (auto simp: put_step_def W_rp)
  next
    case False
    note ok = put_ordered [OF assms(1) W_rp assms(2) False]
    note q = weak_invD(1) [OF assms(1)]
    have slot: "wr_slot s hp = Inr (sent_n s mod cap_n s)"
      unfolding ok(1) using small_counts(1) [OF q assms(2)] by (intro wr_slot_mod [OF q]) linarith
    obtain m where m: "plain_write Producer (sent_n s mod cap_n s) q (wr_mem s) = Inr m"
      using plain_write_possible [OF ok(4,5)] by blast
    show ?thesis using assms(3) False slot m put_writes [OF assms(1) W_rp assms(2) False m] by (auto simp: put_step_def W_rp)
  qed
next
  case (W_put q hp)
  then show ?thesis using assms(3) put_publishes [OF assms(1) W_put] by (auto simp: put_step_def)
qed

lemma take_step_keeps:
  assumes "weak_inv ord s" "got_n s < cap_n s" "take_step ord i s = Some (Inr s')"
  shows "weak_inv ord s' \<and> got_n s \<le> got_n s' \<and> wr_cap s' = wr_cap s"
proof (cases "wr_reader s")
  case R_idle
  then show ?thesis using assms(3) take_loads_hp [OF assms(1) R_idle] by (auto simp: take_step_def)
next
  case (R_hp hp)
  then show ?thesis using assms(3) take_loads_rp [OF assms(1) R_hp] by (auto simp: take_step_def)
next
  case (R_rp hp rp)
  show ?thesis
  proof (cases "rp = hp")
    case True
    then show ?thesis using assms(3) take_refuses [OF assms(1) R_rp] by (auto simp: take_step_def R_rp)
  next
    case False
    note q = weak_invD(1) [OF assms(1)]
    have slot: "wr_slot s rp = Inr (got_n s mod cap_n s)"
      unfolding take_slot(1) [OF assms(1) R_rp False] using small_counts(2) [OF q assms(2)] by (intro wr_slot_mod [OF q]) linarith
    show ?thesis using assms(3) False slot take_reads [OF assms(1) R_rp False]
      by (auto simp: take_step_def R_rp rbind_eq_Inr)
  qed
next
  case (R_got q rp)
  then show ?thesis using assms(3) take_frees [OF assms(1) R_got] by (auto simp: take_step_def)
qed

text \<open>Neither thread is ever without a step.\<close>

lemma put_possible:
  assumes "weak_inv ord s"
  shows "\<exists>i r. put_step i p s = Some r"
proof -
  note c = clock_invD [OF weak_invD(2) [OF assms]]
  have "\<exists>i v m. atomic_load Producer o' l i (wr_mem s) = Some (v, m)" for o' l
    by (rule load_possible [OF c(3)]) (simp add: hist_length [OF weak_invD(2) [OF assms]])
  from this [of Relaxed HP] this [of Acquire RP] show ?thesis
    by (cases "wr_writer s") (fastforce simp: put_step_def)+
qed

lemma take_possible:
  assumes "weak_inv ord s"
  shows "\<exists>i r. take_step ord' i s = Some r"
proof -
  note c = clock_invD [OF weak_invD(2) [OF assms]]
  have "\<exists>i v m. atomic_load Consumer o' l i (wr_mem s) = Some (v, m)" for o' l
    by (rule load_possible [OF c(3)]) (simp add: hist_length [OF weak_invD(2) [OF assms]])
  from this [of ord' HP] this [of Acquire RP] show ?thesis
    by (cases "wr_reader s") (fastforce simp: take_step_def)+
qed

text \<open>The step of the reader that can fault is the read of the entry, and it does so if it is not ordered.\<close>

lemma take_entry:
  assumes "weak_inv ord s" "got_n s < cap_n s" "wr_reader s = R_rp hp rp" "rp \<noteq> hp"
  shows "take_step ord i s = Some (rbind (plain_read Consumer (got_n s mod cap_n s) (wr_mem s))
    (\<lambda>(p, m). Inr (s\<lparr>wr_mem := m, wr_reader := R_got p rp\<rparr>)))"
proof -
  note q = weak_invD(1) [OF assms(1)]
  have "wr_slot s rp = Inr (got_n s mod cap_n s)"
    unfolding take_slot(1) [OF assms(1,3,4)] using small_counts(2) [OF q assms(2)] by (intro wr_slot_mod [OF q]) linarith
  then show ?thesis using assms(4) by (simp add: take_step_def assms(3))
qed

lemma take_safe:
  assumes "weak_inv ord s" "got_n s < cap_n s" "take_step ord i s = Some r"
    and "ord = Acquire \<or> (\<nexists>hp rp. wr_reader s = R_rp hp rp \<and> rp \<noteq> hp)"
  shows "\<exists>s'. r = Inr s'"
proof (cases "\<exists>hp rp. wr_reader s = R_rp hp rp \<and> rp \<noteq> hp")
  case True
  then obtain hp rp where r: "wr_reader s = R_rp hp rp" "rp \<noteq> hp" by blast
  have "ord = Acquire" using assms(4) True by blast
  then obtain p m where "plain_read Consumer (got_n s mod cap_n s) (wr_mem s) = Inr (p, m)"
    using plain_read_possible [OF take_slot(5) [OF assms(1) r]] by fastforce
  then show ?thesis using assms(3) take_entry [OF assms(1,2) r, of i] by auto
next
  case False
  then show ?thesis using assms(3) by (cases "wr_reader s") (auto simp: take_step_def)
qed

section \<open>Runs\<close>

lemma put_monotone:
  assumes "put_step i p s = Some (Inr s')"
  shows "wr_got s' = wr_got s" "wr_cap s' = wr_cap s" "wr_reader s' = wr_reader s"
  using assms by (auto simp: put_step_def rbind_eq_Inr split: writer.splits if_splits)

lemma take_monotone:
  assumes "take_step ord i s = Some (Inr s')"
  shows "got_n s \<le> got_n s'" "wr_cap s' = wr_cap s"
  using assms by (auto simp: take_step_def rbind_eq_Inr split: reader.splits if_splits)

lemma weak_inv_init:
  assumes "rb_ok r" "rb_hp r = 0" "rb_rp r = 0"
  shows "weak_inv ord (wring_start r)"
proof -
  obtain xs k where r: "rb_proc r = Some xs" "length xs = unat (rb_cap r)" "unat (rb_cap r) = 2 ^ k"
    using assms(1) by (rule rb_ok_cases)
  have m: "wr_mem (wring_start r) = wm_start [Producer, Consumer] (\<lambda>_. 0) (\<lambda>x. xs ! x)" and c: "cap_n (wring_start r) = 2 ^ k"
    using assms(2,3) r by (simp_all add: wring_start_def fun_upd_idem)
  have n: "puts_n (wring_start r) = 0" "takes_n (wring_start r) = 0"
    by (simp_all add: puts_n_def takes_n_def wring_start_def)
  have e: "wr_sent (wring_start r) = []" "wr_got (wring_start r) = []" "wr_len (wring_start r) = Some (2 ^ k)"
    using r by (simp_all add: wring_start_def)
  have "queue_inv (wring_start r)" using m c n e by (auto simp: queue_inv_def wm_start_def)
  moreover have "clock_inv (wring_start r)"
    using c n e by (simp add: clock_inv_def m) (simp add: wm_start_def hist_is_def)
  moreover have "access_inv (wring_start r)" using n by (simp add: access_inv_def m wm_start_def)
  moreover have "put_inv (wring_start r)" "take_inv ord (wring_start r)"
    by (simp_all add: put_inv_def take_inv_def wring_start_def)
  ultimately show ?thesis by (simp add: weak_inv_def)
qed

lemma weak_run_inv:
  assumes "weak_run ord (wring_start r) s" "rb_ok r" "rb_hp r = 0" "rb_rp r = 0" "got_n s < unat (rb_cap r)"
  shows "weak_inv ord s \<and> wr_cap s = rb_cap r"
  using assms(1,5)
proof (induction rule: weak_run.induct)
  case weak_init
  show ?case using weak_inv_init [OF assms(2-4)] by (simp add: wring_start_def)
next
  case (weak_put s i p s')
  have "got_n s < unat (rb_cap r)" using put_monotone(1) [OF weak_put(2)] weak_put.prems by simp
  then have "weak_inv ord s" "wr_cap s = rb_cap r" using weak_put.IH by auto
  then show ?case using put_step_keeps [OF _ _ weak_put(2), of ord] put_monotone [OF weak_put(2)] weak_put.prems by auto
next
  case (weak_take s i s')
  have "got_n s < unat (rb_cap r)" using take_monotone(1) [OF weak_take(2)] weak_take.prems by simp
  then have "weak_inv ord s" "wr_cap s = rb_cap r" using weak_take.IH by auto
  then show ?case using take_step_keeps [OF _ _ weak_take(2)] weak_take.prems \<open>got_n s < unat (rb_cap r)\<close> by auto
qed

section \<open>The relaxed load\<close>

lemma take_entry_races:
  assumes "weak_inv ord s" "got_n s < cap_n s" "wr_reader s = R_rp hp rp" "rp \<noteq> hp" "blind_inv s"
  shows "take_step ord i s = Some (Inl DataRace)"
proof -
  have "\<not> write_ordered (wr_mem s) Consumer (got_n s mod cap_n s)"
    using assms(5) by (simp add: write_ordered_def take_slot(4) [OF assms(1,3,4)] blind_inv_def)
  then show ?thesis using take_entry [OF assms(1-4), of i] by (simp add: plain_read_def)
qed

lemma blind_put:
  assumes "put_step i p s = Some (Inr s')" "blind_inv s"
  shows "blind_inv s'"
  using assms
  by (auto simp: put_step_def blind_inv_def rbind_eq_Inr atomic_store_def Let_def split: writer.splits if_splits
      dest: load_keeps(2,6) plain_write_keeps(2,6))

lemma blind_take:
  assumes "take_step Relaxed i s = Some (Inr s')" "blind_inv s" "weak_inv Relaxed s" "got_n s < cap_n s" "\<nexists>p rp. wr_reader s = R_got p rp"
  shows "blind_inv s' \<and> (\<nexists>p rp. wr_reader s' = R_got p rp) \<and> wr_got s' = wr_got s"
proof (cases "wr_reader s")
  case R_idle
  then obtain hp m where "atomic_load Consumer Relaxed HP i (wr_mem s) = Some (hp, m)" "s' = s\<lparr>wr_mem := m, wr_reader := R_hp hp\<rparr>"
    using assms(1) by (auto simp: take_step_def)
  then show ?thesis using assms(2) load_keeps(2,14) by (fastforce simp: blind_inv_def)
next
  case (R_hp hp)
  then obtain rp m where l: "atomic_load Consumer Acquire RP i (wr_mem s) = Some (rp, m)" and s': "s' = s\<lparr>wr_mem := m, wr_reader := R_rp hp rp\<rparr>"
    using assms(1) by (auto simp: take_step_def)
  have "wm_hist (wr_mem s) RP ! i \<in> set (wm_hist (wr_mem s) RP)" using load_keeps(9) [OF l] by simp
  then show ?thesis using assms(2) s' by (simp add: blind_inv_def load_keeps(2,14) [OF l])
next
  case (R_rp hp rp)
  then show ?thesis using assms take_entry_races [OF assms(3,4) R_rp _ assms(2), of i]
    by (cases "rp = hp") (auto simp: take_step_def blind_inv_def)
next
  case (R_got p rp)
  then show ?thesis using assms(5) by blast
qed

lemma rb_cap_pos: "rb_ok r \<Longrightarrow> 0 < unat (rb_cap r)"
  by (erule rb_ok_cases)

lemma weak_run_blind:
  assumes "weak_run Relaxed (wring_start r) s" "rb_ok r" "rb_hp r = 0" "rb_rp r = 0"
  shows "blind_inv s \<and> wr_got s = [] \<and> (\<nexists>p rp. wr_reader s = R_got p rp)"
  using assms(1)
proof (induction rule: weak_run.induct)
  case weak_init
  show ?case by (simp add: blind_inv_def wring_start_def wm_start_def)
next
  case (weak_put s i p s')
  then show ?case using blind_put [OF weak_put(2)] put_monotone [OF weak_put(2)] by simp
next
  case (weak_take s i s')
  have "got_n s < unat (rb_cap r)" using weak_take.IH rb_cap_pos [OF assms(2)] by simp
  then have "weak_inv Relaxed s" "got_n s < cap_n s" using weak_run_inv [OF weak_take(1) assms(2-4)] by auto
  then show ?case using blind_take [OF weak_take(2)] weak_take.IH by simp
qed

text \<open>A run given as a list: the thread that moves, the value its load returns, the entry the writer is called with.\<close>

fun weak_sched :: "morder \<Rightarrow> (who \<times> nat \<times> 'p) list \<Rightarrow> 'p wring \<Rightarrow> 'p wring res option" where
  "weak_sched ord [] s = Some (Inr s)"
| "weak_sched ord ((t, i, p) # as) s =
     (case (case t of Producer \<Rightarrow> put_step i p s | Consumer \<Rightarrow> take_step ord i s) of
        Some (Inr s') \<Rightarrow> weak_sched ord as s'
      | r \<Rightarrow> r)"

lemma weak_sched_run: "weak_run ord s0 s \<Longrightarrow> weak_sched ord as s = Some (Inr s') \<Longrightarrow> weak_run ord s0 s'"
proof (induction as arbitrary: s)
  case (Cons a as)
  obtain t i p where a: "a = (t, i, p)" by (cases a) auto
  show ?case
  proof (cases t)
    case Producer
    then show ?thesis using Cons a by (auto split: option.splits sum.splits intro: weak_put)
  next
    case Consumer
    then show ?thesis using Cons a by (auto split: option.splits sum.splits intro: weak_take)
  qed
qed simp

definition race_acts :: "(who \<times> nat \<times> nat) list" where
  "race_acts = [(Producer, 0, 5), (Producer, 0, 5), (Producer, 0, 5), (Producer, 0, 5), (Consumer, 1, 0), (Consumer, 0, 0)]"

text \<open>The loads return the newest values but once: the writer's second call still sees \<open>rp\<close> as zero.\<close>

definition stale_acts :: "(who \<times> nat \<times> nat) list" where
  "stale_acts = race_acts @ [(Consumer, 0, 0), (Consumer, 0, 0), (Producer, 1, 6), (Producer, 0, 6), (Producer, 0, 6), (Producer, 0, 6)]"

lemma race_acts_run:
  "\<exists>s. weak_sched hp_order race_acts (wring_start ring4) = Some (Inr s) \<and> wr_sent s = [5] \<and> wr_reader s = R_rp 1 0"
  by (simp add: race_acts_def hp_order_def ring4_def wring_start_def wm_start_def put_step_def take_step_def atomic_load_def
      atomic_store_def plain_write_def write_ordered_def reads_ordered_def wr_slot_def Let_def)

lemma stale_acts_run:
  "\<exists>s. weak_sched Acquire stale_acts (wring_start ring4) = Some (Inr s) \<and> wr_sent s = [5, 6] \<and> wr_got s = [5]"
  by (simp add: stale_acts_def race_acts_def ring4_def wring_start_def wm_start_def put_step_def take_step_def atomic_load_def
      atomic_store_def plain_write_def plain_read_def write_ordered_def reads_ordered_def wr_slot_def Let_def)

lemma ring4_ok: "rb_ok ring4" "rb_hp ring4 = 0" "rb_rp ring4 = 0"
  by (auto simp: ring4_def rb_ok_def rb_count_def intro: exI [of _ 2])

section \<open>Properties\<close>

text \<open>
  C15. One writer and one reader with the memory orders the code names: the writer never faults, no entry
  is ever returned, and a reader that finds the ring non-empty races with the writer of the entry, whatever its
  loads return: the relaxed load of \<open>hp\<close> does not order the write of the entry before its read.
\<close>

theorem ring_entry_read_races:
  assumes "weak_run hp_order (wring_start r) s" "rb_ok r" "rb_hp r = 0" "rb_rp r = 0"
  shows "wr_got s = [] \<and> (\<forall>i p f. put_step i p s \<noteq> Some (Inl f))
    \<and> (\<forall>hp rp i. wr_reader s = R_rp hp rp \<and> rp \<noteq> hp \<longrightarrow> take_step hp_order i s = Some (Inl DataRace))"
proof -
  note run = assms(1) [unfolded hp_order_def]
  have b: "blind_inv s" "wr_got s = []" using weak_run_blind [OF run assms(2-4)] by auto
  then have inv: "weak_inv Relaxed s" "got_n s < cap_n s" using weak_run_inv [OF run assms(2-4)] rb_cap_pos [OF assms(2)] by auto
  have "put_step i p s \<noteq> Some (Inl f)" for i p f using put_step_keeps [OF inv, of i p "Inl f"] by auto
  then show ?thesis using b take_entry_races [OF inv _ _ b(1)] unfolding hp_order_def by blast
qed

theorem ring_entry_read_races_witness:
  "\<exists>s. weak_sched hp_order race_acts (wring_start ring4) = Some (Inr s) \<and> wr_sent s = [5]
    \<and> take_step hp_order 0 s = Some (Inl DataRace) \<and> put_step 1 7 s \<noteq> Some (Inl DataRace)"
proof -
  obtain s where s: "weak_sched hp_order race_acts (wring_start ring4) = Some (Inr s)" "wr_sent s = [5]" "wr_reader s = R_rp 1 0"
    using race_acts_run by blast
  have run: "weak_run hp_order (wring_start ring4) s" by (rule weak_sched_run [OF weak_run.weak_init s(1)])
  have "take_step hp_order 0 s = Some (Inl DataRace)" using ring_entry_read_races [OF run ring4_ok] s(3) by simp
  moreover have "put_step 1 7 s \<noteq> Some (Inl DataRace)" using ring_entry_read_races [OF run ring4_ok] by simp
  ultimately show ?thesis using s(1,2) by blast
qed



end
