(* ===== verification/Shard.thy ===== *)
theory Shard
  imports Arena Hashmap_Props RingBuffer
begin

text \<open>
  \<^verbatim>\<open>src/core/shard/shard.c\<close> and \<^verbatim>\<open>proc.h\<close>: each shard owns a table, two arenas and a ring of
  requests. A request (\<open>proc_t\<close>) lives in the stack frame of the client that made it; the ring holds
  its address. Frames are explicit: \<open>or_procs\<close>, \<open>or_outs\<close> and \<open>or_stats\<close> map the address of a
  live request, \<open>void*\<close> variable and \<open>int\<close> variable to its contents, and an address whose frame is
  gone to \<open>None\<close>. The number of shards, half the number of processors, is a parameter.
\<close>

section \<open>State\<close>

datatype op_code = OP_PUT | OP_DEL | OP_GET

record proc_t =
  pr_op :: op_code
  pr_key :: ptr
  pr_value :: ptr
  pr_val_len :: u64
  pr_free_value :: int
  pr_out_val :: "nat option"
  pr_status :: "nat option"
  pr_done :: int

record shard_t =
  sh_map :: "hashmap option"
  sh_ring :: "nat rBuff"
  sh_key_arena :: "arena option"
  sh_val_arena :: "arena option"

record orca =
  or_mem :: mem
  or_procs :: "nat \<Rightarrow> proc_t option"
  or_outs :: "nat \<Rightarrow> ptr option"
  or_stats :: "nat \<Rightarrow> int option"
  or_shards :: "shard_t list"

text \<open>
  \<open>or_shards\<close> is the initialised part of the array \<open>shards\<close>; following an index or a pointer that
  leads nowhere is a fault.
\<close>

definition shard_at :: "orca \<Rightarrow> nat \<Rightarrow> shard_t res" where
  "shard_at st i = (if i < length (or_shards st) then Inr (or_shards st ! i) else Inl OutOfBounds)"

definition set_shard :: "orca \<Rightarrow> nat \<Rightarrow> shard_t \<Rightarrow> orca" where
  "set_shard st i s = st\<lparr>or_shards := (or_shards st)[i := s]\<rparr>"

definition deref :: "(nat \<Rightarrow> 'a option) \<Rightarrow> nat option \<Rightarrow> (nat \<times> 'a) res" where
  "deref store p =
     (case p of
        None \<Rightarrow> Inl NullDeref
      | Some a \<Rightarrow> (case store a of None \<Rightarrow> Inl UseAfterFree | Some x \<Rightarrow> Inr (a, x)))"

section \<open>The worker\<close>

text \<open>\<open>arena_alloc\<close> and \<open>memcpy\<close> into the fresh region; neither pointer is checked.\<close>

definition arena_copy :: "mem \<Rightarrow> arena option \<Rightarrow> ptr \<Rightarrow> u64 \<Rightarrow> (ptr \<times> arena option \<times> mem) res" where
  "arena_copy m ar from n =
     (case ar of
        None \<Rightarrow> Inl NullDeref
      | Some a \<Rightarrow>
          let (k, a') = arena_alloc a n in
          rbind (mem_read m from (unat n))
            (\<lambda>data. rbind (mem_write m k data) (\<lambda>m'. Inr (k, Some a', m'))))"

definition worker_put :: "orca \<Rightarrow> nat \<Rightarrow> shard_t \<Rightarrow> proc_t \<Rightarrow> orca res option" where
  "worker_put st i s p =
     (case rbind (c_string (or_mem st) (pr_key p))
         (\<lambda>key. rbind (arena_copy (or_mem st) (sh_key_arena s) (pr_key p) (of_nat (length key) + 1))
           (\<lambda>(k, ka, m1). rbind (arena_copy m1 (sh_val_arena s) (pr_value p) (pr_val_len p))
             (\<lambda>(v, va, m2). Inr (k, v, ka, va, m2)))) of
        Inl e \<Rightarrow> Some (Inl e)
      | Inr (k, v, ka, va, m) \<Rightarrow>
          map_option (map_sum id (\<lambda>(rc, hm').
              set_shard (st\<lparr>or_mem := m\<rparr>) i
                (s\<lparr>sh_map := hm', sh_key_arena := ka, sh_val_arena := va\<rparr>)))
            (hm_insert m (sh_map s) k v (pr_val_len p)))"

definition worker_get :: "orca \<Rightarrow> shard_t \<Rightarrow> proc_t \<Rightarrow> orca res option" where
  "worker_get st s p =
     map_option (\<lambda>r. rbind r (\<lambda>v. rbind (deref (or_outs st) (pr_out_val p))
         (\<lambda>(a, _). Inr (st\<lparr>or_outs := (or_outs st)(a \<mapsto> v)\<rparr>))))
       (hm_get (or_mem st) (sh_map s) (pr_key p))"

definition worker_del :: "orca \<Rightarrow> nat \<Rightarrow> shard_t \<Rightarrow> proc_t \<Rightarrow> orca res option" where
  "worker_del st i s p =
     map_option (map_sum id (\<lambda>(rc, hm'). set_shard st i (s\<lparr>sh_map := hm'\<rparr>)))
       (hm_delete (or_mem st) (sh_map s) (pr_key p) (pr_free_value p))"

definition worker_op :: "orca \<Rightarrow> nat \<Rightarrow> shard_t \<Rightarrow> proc_t \<Rightarrow> orca res option" where
  "worker_op st i s p =
     (case pr_op p of
        OP_PUT \<Rightarrow> worker_put st i s p
      | OP_GET \<Rightarrow> worker_get st s p
      | OP_DEL \<Rightarrow> worker_del st i s p)"

text \<open>\<open>*p->status = 0; p->done = 1\<close>\<close>

definition worker_finish :: "orca \<Rightarrow> nat \<Rightarrow> proc_t \<Rightarrow> orca res" where
  "worker_finish st a p =
     rbind (deref (or_stats st) (pr_status p))
       (\<lambda>(c, _). Inr (st\<lparr>or_stats := (or_stats st)(c \<mapsto> 0),
                          or_procs := (or_procs st)(a \<mapsto> p\<lparr>pr_done := 1\<rparr>)\<rparr>))"

text \<open>One round of the loop of \<open>shard_worker\<close>. An outer \<open>None\<close> is a table operation that never ends.\<close>

definition shard_worker :: "orca \<Rightarrow> nat \<Rightarrow> orca res option" where
  "shard_worker st i =
     (case rbind (shard_at st i)
         (\<lambda>s. rbind (rBuff_read (sh_ring s))
           (\<lambda>(got, ring). case got of
                None \<Rightarrow> Inr None
              | Some a \<Rightarrow> rbind (deref (or_procs st) (Some a))
                  (\<lambda>(_, p). Inr (Some (s\<lparr>sh_ring := ring\<rparr>, a, p))))) of
        Inl e \<Rightarrow> Some (Inl e)
      | Inr None \<Rightarrow> Some (Inr st)
      | Inr (Some (s, a, p)) \<Rightarrow>
          map_option (\<lambda>r. rbind r (\<lambda>st'. worker_finish st' a p))
            (worker_op (set_shard st i s) i s p))"

section \<open>Initialisation\<close>

text \<open>
  One round of the loop of \<open>shard_init\<close>. \<open>fill\<close> is the contents of fresh memory, \<open>spawn i\<close> tells
  whether \<open>pthread_create\<close> succeeds for shard \<open>i\<close>; when it does not, the loop is left.
\<close>

definition shard_new :: "mem \<Rightarrow> (nat \<Rightarrow> byte) \<Rightarrow> (nat \<Rightarrow> nat) \<Rightarrow> shard_t \<times> mem" where
  "shard_new m fill pfill =
     (let (hm, m1) = hm_create m HM_CAP;
          (ka, m2) = arena_create m1 (8 * 1024 * 1024) fill;
          (va, m3) = arena_create m2 (32 * 1024 * 1024) fill;
          (ring, m4) = rBuff_init m3 1024 pfill
      in (\<lparr>sh_map = hm, sh_ring = ring, sh_key_arena = ka, sh_val_arena = va\<rparr>, m4))"

fun shard_init_loop ::
    "(nat \<Rightarrow> byte) \<Rightarrow> (nat \<Rightarrow> nat) \<Rightarrow> (nat \<Rightarrow> bool) \<Rightarrow> nat list \<Rightarrow> mem \<Rightarrow> shard_t list \<Rightarrow> mem \<times> shard_t list"
  where
  "shard_init_loop fill pfill spawn [] m ss = (m, ss)"
| "shard_init_loop fill pfill spawn (i # is) m ss =
     (let (s, m') = shard_new m fill pfill in
      if spawn i then shard_init_loop fill pfill spawn is m' (ss @ [s]) else (m', ss @ [s]))"

text \<open>\<open>sizeof(shard_t)\<close> is 256: the ring's two counters are aligned to 64 bytes.\<close>

definition shard_init ::
    "nat \<Rightarrow> (nat \<Rightarrow> byte) \<Rightarrow> (nat \<Rightarrow> nat) \<Rightarrow> (nat \<Rightarrow> bool) \<Rightarrow> mem \<Rightarrow> orca res" where
  "shard_init nslave fill pfill spawn m =
     (let st = \<lambda>m ss. \<lparr>or_mem = m, or_procs = (\<lambda>_. None), or_outs = (\<lambda>_. None),
                       or_stats = (\<lambda>_. None), or_shards = ss\<rparr> in
      case mem_reserve m (256 * nslave) of
        None \<Rightarrow> if nslave = 0 then Inr (st m []) else Inl NullDeref
      | Some m' \<Rightarrow>
          let (m'', ss) = shard_init_loop fill pfill spawn [0..<nslave] m' [] in Inr (st m'' ss))"

text \<open>\<open>db_start\<close> prints a line and initialises the shards.\<close>

definition db_start ::
    "nat \<Rightarrow> (nat \<Rightarrow> byte) \<Rightarrow> (nat \<Rightarrow> nat) \<Rightarrow> (nat \<Rightarrow> bool) \<Rightarrow> mem \<Rightarrow> orca res" where
  "db_start nslave fill pfill spawn m = shard_init nslave fill pfill spawn m"

text \<open>
  \<open>orca_init\<close> of \<^verbatim>\<open>src/core/orca.c\<close>: it starts the shards and fills in the two function pointers of
  the object \<open>_internal\<close> points to, a global pointer that nothing ever sets.
\<close>

definition orca_internal :: ptr where "orca_internal = NULL"

definition orca_init ::
    "nat \<Rightarrow> (nat \<Rightarrow> byte) \<Rightarrow> (nat \<Rightarrow> nat) \<Rightarrow> (nat \<Rightarrow> bool) \<Rightarrow> mem \<Rightarrow> (ptr \<times> orca) res" where
  "orca_init nslave fill pfill spawn m =
     rbind (db_start nslave fill pfill spawn m)
       (\<lambda>st. if orca_internal = NULL then Inl NullDeref else Inr (orca_internal, st))"

section \<open>The client calls\<close>

definition shard_id :: "nat \<Rightarrow> bytes \<Rightarrow> nat res" where
  "shard_id nslave key = (if nslave = 0 then Inl DivByZero else Inr (unat (djb2 key) mod nslave))"

text \<open>
  \<open>db_insert\<close> up to its return: the request is built in the frame at address \<open>a\<close> and its address
  written to the ring of the key's shard; the answer of \<open>rBuff_write\<close> is dropped.
\<close>

definition insert_proc :: "ptr \<Rightarrow> ptr \<Rightarrow> u64 \<Rightarrow> proc_t" where
  "insert_proc key val val_len =
     \<lparr>pr_op = OP_PUT, pr_key = key, pr_value = val, pr_val_len = val_len, pr_free_value = 0,
      pr_out_val = None, pr_status = None, pr_done = 0\<rparr>"

definition db_insert_push :: "orca \<Rightarrow> nat \<Rightarrow> nat \<Rightarrow> ptr \<Rightarrow> ptr \<Rightarrow> u64 \<Rightarrow> orca res" where
  "db_insert_push st nslave a key val val_len =
     rbind (c_string (or_mem st) key)
       (\<lambda>k. rbind (shard_id nslave k)
         (\<lambda>i. rbind (shard_at st i)
           (\<lambda>s. rbind (rBuff_write (sh_ring s) a)
             (\<lambda>(done, ring).
                Inr (set_shard (st\<lparr>or_procs := (or_procs st)(a \<mapsto> insert_proc key val val_len)\<rparr>) i
                       (s\<lparr>sh_ring := ring\<rparr>))))))"

text \<open>Returning ends the frame.\<close>

definition db_insert :: "orca \<Rightarrow> nat \<Rightarrow> nat \<Rightarrow> ptr \<Rightarrow> ptr \<Rightarrow> u64 \<Rightarrow> orca res" where
  "db_insert st nslave a key val val_len =
     rbind (db_insert_push st nslave a key val val_len)
       (\<lambda>st'. Inr (st'\<lparr>or_procs := (or_procs st')(a := None)\<rparr>))"

text \<open>\<open>while (rBuff_write(&s->ring, &p) != 0) sched_yield();\<close> with no worker in between\<close>

partial_function (option) push_loop :: "nat rBuff \<Rightarrow> nat \<Rightarrow> nat rBuff res option" where
  "push_loop ring a =
     (case rBuff_write ring a of
        Inl e \<Rightarrow> Some (Inl e)
      | Inr dr \<Rightarrow> if fst dr then push_loop (snd dr) a else Some (Inr (snd dr)))"

declare push_loop.simps [code]

text \<open>
  \<open>db_get\<close>: its frame holds the request (address \<open>a\<close>), \<open>result\<close> (\<open>o\<close>) and \<open>status\<close> (\<open>c\<close>). The
  first part ends when the push loop does; the wait ends when \<open>done\<close> is not 0, and the frame with it.
\<close>

definition get_proc :: "ptr \<Rightarrow> nat \<Rightarrow> nat \<Rightarrow> proc_t" where
  "get_proc key res_var stat =
     \<lparr>pr_op = OP_GET, pr_key = key, pr_value = NULL, pr_val_len = 0, pr_free_value = 0,
      pr_out_val = Some res_var, pr_status = Some stat, pr_done = 0\<rparr>"

definition db_get_push :: "orca \<Rightarrow> nat \<Rightarrow> nat \<Rightarrow> nat \<Rightarrow> nat \<Rightarrow> ptr \<Rightarrow> orca res option" where
  "db_get_push st nslave a res_var stat key =
     (case rbind (c_string (or_mem st) key)
         (\<lambda>k. rbind (shard_id nslave k) (\<lambda>i. rbind (shard_at st i) (\<lambda>s. Inr (i, s)))) of
        Inl e \<Rightarrow> Some (Inl e)
      | Inr (i, s) \<Rightarrow>
          map_option (map_sum id (\<lambda>ring.
              set_shard (st\<lparr>or_procs := (or_procs st)(a \<mapsto> get_proc key res_var stat),
                            or_outs := (or_outs st)(res_var \<mapsto> NULL),
                            or_stats := (or_stats st)(stat \<mapsto> 0)\<rparr>) i (s\<lparr>sh_ring := ring\<rparr>)))
            (push_loop (sh_ring s) a))"

definition db_get_return :: "orca \<Rightarrow> nat \<Rightarrow> nat \<Rightarrow> nat \<Rightarrow> (ptr \<times> orca) option" where
  "db_get_return st a res_var stat =
     (case (or_procs st a, or_outs st res_var) of
        (Some p, Some v) \<Rightarrow>
          if pr_done p \<noteq> 0
          then Some (v, st\<lparr>or_procs := (or_procs st)(a := None),
                           or_outs := (or_outs st)(res_var := None),
                           or_stats := (or_stats st)(stat := None)\<rparr>)
          else None
      | _ \<Rightarrow> None)"

end
