(* ===== verification/Hashmap_Frame.thy ===== *)
theory Hashmap_Frame
  imports Hashmap_Props
begin

text \<open>
  The table of \<^verbatim>\<open>src/core/hashmap/hashmap.c\<close> does not own its keys. This theory relates its
  operations over two memories: where the strings of its keys are unchanged the table is the same.
\<close>

section \<open>The table in a larger memory\<close>

definition keys_where :: "(ptr \<Rightarrow> bool) \<Rightarrow> hashmap \<Rightarrow> bool" where
  "keys_where Q hm \<longleftrightarrow> (\<forall>nd \<in> set (hm_buckets hm). occ nd \<longrightarrow> Q (node_key nd))"

lemma keys_where_set_bucket:
  "keys_where Q hm \<Longrightarrow> (occ nd \<longrightarrow> Q (node_key nd)) \<Longrightarrow> keys_where Q (set_bucket hm i nd)"
  using set_update_subset_insert [of "hm_buckets hm" "unat i" nd]
  by (auto simp: keys_where_def set_bucket_def)

lemma keys_where_count [simp]: "keys_where Q (hm\<lparr>hm_count := n\<rparr>) = keys_where Q hm"
  by (simp add: keys_where_def)

lemma insert_loop_keys:
  assumes "hm_insert_loop m key hash val vl hm cur i = Some r" "keys_where Q hm" "Q (node_key cur)"
  shows "\<forall>rc hm'. r = Inr (rc, hm') \<longrightarrow> keys_where Q hm'"
proof -
  have "keys_where Q hm \<longrightarrow> Q (node_key cur) \<longrightarrow> (\<forall>rc hm'. r = Inr (rc, hm') \<longrightarrow> keys_where Q hm')"
  proof (rule hm_insert_loop.raw_induct [where P = "\<lambda>m key hash val vl hm cur i r.
      keys_where Q hm \<longrightarrow> Q (node_key cur) \<longrightarrow> (\<forall>rc hm'. r = Inr (rc, hm') \<longrightarrow> keys_where Q hm')",
      OF _ assms(1)], goal_cases)
    case (1 f m key hash val vl hm cur i r)
    show ?case
    proof (intro impI)
      assume k: "keys_where Q hm" "Q (node_key cur)"
      have nd: "occ nd \<longrightarrow> Q (node_key nd)" if "bucket hm i = Inr nd" for nd
        using that k(1) by (auto simp: bucket_def keys_where_def split: if_splits)
      have keep: "keys_where Q (set_bucket hm i cur)" using k keys_where_set_bucket by blast
      have upd: "keys_where Q (set_bucket hm i (nd\<lparr>node_value := val, node_val_len := l\<rparr>))"
        if "bucket hm i = Inr nd" for nd l
        using nd [OF that] k(1) by (intro keys_where_set_bucket) (auto simp: occ_def)
      have no: "node_hash nd \<noteq> 0 \<Longrightarrow> bucket hm i = Inr nd \<Longrightarrow> Q (node_key nd)" for nd
        using nd by (simp add: occ_def)
      show "\<forall>rc hm'. r = Inr (rc, hm') \<longrightarrow> keys_where Q hm'"
        using 1(2) k keep upd no
          1(1) [of m key hash val vl "set_bucket hm i cur" _ "next_idx hm i" r]
          1(1) [of m key hash val vl hm _ "next_idx hm i" r]
        by (auto split: sum.splits if_splits)
    qed
  qed
  then show ?thesis using assms(2,3) by blast
qed

lemma hm_insert_keys:
  assumes "hm_insert m (Some hm) key val vl = Some (Inr (rc, Some hm'))" "keys_where Q hm" "Q key"
  shows "keys_where Q hm'"
proof (cases "key = NULL")
  case False
  then obtain k where k: "c_string m key = Inr k"
    using assms(1) by (cases "c_string m key") (auto simp: hm_insert_def)
  then obtain r where "hm_insert_loop m k (FNV_1a k) val vl hm (new_node k key val vl) (idx hm (FNV_1a k)) = Some r"
    "map_sum id (apsnd Some) r = Inr (rc, Some hm')"
    using assms(1) False by (auto simp: hm_insert_def)
  moreover then obtain rc' hm'' where "r = Inr (rc', hm'')" "hm'' = hm'" by (cases r) auto
  ultimately show ?thesis using insert_loop_keys [OF _ assms(2)] assms(3)
    by (metis hm_node.select_convs(1) new_node_def)
qed (use assms in \<open>simp add: hm_insert_def\<close>)

lemma hm_ok_frame:
  assumes "hm_ok m hm"
    "\<And>nd. nd \<in> set (hm_buckets hm) \<Longrightarrow> occ nd \<Longrightarrow> c_string m' (node_key nd) = c_string m (node_key nd)"
  shows "hm_ok m' hm" "hm_view m' hm = hm_view m hm"
proof -
  have e: "entries m' (hm_buckets hm) = entries m (hm_buckets hm)"
    using assms(2) by (auto simp: entries_def key_of_def)
  have "nodes_ok m' (hm_buckets hm)"
    using assms by (auto simp: hm_ok_def table_ok_def nodes_ok_def node_ok_def)
  then show "hm_ok m' hm" using assms(1) e by (simp add: hm_ok_def table_ok_def)
  show "hm_view m' hm = hm_view m hm" using e by (simp add: hm_view_def)
qed

text \<open>A memory in which everything allocated so far is still there, and perhaps more.\<close>

definition mem_grows :: "mem \<Rightarrow> mem \<Rightarrow> bool" where
  "mem_grows m m' \<longleftrightarrow> (\<forall>b. b < next_block m \<longrightarrow> blocks m' b = blocks m b)"

lemma mem_grows_refl [simp]: "mem_grows m m"
  by (simp add: mem_grows_def)

lemma mem_grows_alloc [intro]: "mem_grows m (snd (mem_alloc m bs))"
  by (simp add: mem_grows_def mem_alloc_def)

lemma mem_grows_string:
  assumes "mem_ok m" "mem_grows m m'" "c_string m p = Inr s"
  shows "c_string m' p = Inr s"
proof -
  obtain b off where p: "p = Ptr b off" "blocks m b \<noteq> None"
    using assms(3) by (cases p) (auto simp: c_string_def mem_block_def split: option.splits)
  then have "b < next_block m" using assms(1) by (metis linorder_not_le mem_ok_def)
  then show ?thesis using assms(2,3) p(1) by (simp add: mem_grows_def c_string_def mem_block_def)
qed

lemma hm_ok_ext:
  assumes "mem_ok m" "mem_grows m m'" "hm_ok m hm"
  shows "hm_ok m' hm" "hm_view m' hm = hm_view m hm"
proof -
  have "c_string m' (node_key nd) = c_string m (node_key nd)" if "nd \<in> set (hm_buckets hm)" "occ nd" for nd
    using assms(3) that mem_grows_string [OF assms(1,2)]
    by (fastforce simp: hm_ok_def table_ok_def nodes_ok_def node_ok_def)
  then show "hm_ok m' hm" "hm_view m' hm = hm_view m hm" using hm_ok_frame [OF assms(3)] by blast+
qed

lemma key_match_other:
  assumes "blocks m' b = blocks m b" "node_key nd = Ptr b off"
  shows "key_match m' nd hash key = key_match m nd hash key"
  using assms by (simp add: key_match_def mem_read_def mem_block_def)

end
