(* ===== verification/Shard_Memory.thy ===== *)
theory Shard_Memory
  imports Shard Hashmap_Frame
begin

text \<open>
  What the worker of \<^verbatim>\<open>src/core/shard/shard.c\<close> relies on when it copies a key and a value into its
  arenas: the copies land past everything stored before, so the table's keys keep their bytes and
  the table stays well formed in the larger memory.
\<close>

section \<open>Writing into an object\<close>

definition poke :: "bytes \<Rightarrow> nat \<Rightarrow> bytes \<Rightarrow> bytes" where
  "poke bs off data = take off bs @ data @ drop (off + length data) bs"

lemma length_poke: "off + length data \<le> length bs \<Longrightarrow> length (poke bs off data) = length bs"
  by (simp add: poke_def)

lemma poke_empty [simp]: "poke bs off [] = bs"
  by (simp add: poke_def)

lemma poke_at: "off + length data \<le> length bs \<Longrightarrow> take (length data) (drop off (poke bs off data)) = data"
  by (simp add: poke_def)

lemma poke_below:
  assumes "o1 + n \<le> off" "off + length data \<le> length bs"
  shows "take n (drop o1 (poke bs off data)) = take n (drop o1 bs)"
proof -
  have "drop o1 (poke bs off data) = drop o1 (take off bs) @ data @ drop (off + length data) bs"
    using assms by (simp add: poke_def)
  moreover have "n \<le> length (drop o1 (take off bs))" using assms by simp
  ultimately have "take n (drop o1 (poke bs off data)) = take n (drop o1 (take off bs))"
    by (simp only: take_append diff_is_0_eq [THEN iffD2] take_0 append_Nil2)
  also have "\<dots> = take n (drop o1 bs)" using assms(1) by (simp add: drop_take)
  finally show ?thesis .
qed

definition put_block :: "mem \<Rightarrow> nat \<Rightarrow> bytes \<Rightarrow> mem" where
  "put_block m b bs = m\<lparr>blocks := (blocks m)(b \<mapsto> bs)\<rparr>"

lemma mem_write_poke:
  assumes "blocks m b = Some bs" "off + length data \<le> length bs"
  shows "mem_write m (Ptr b off) data = Inr (put_block m b (poke bs off data))"
  using assms by (cases "data = []") (auto simp: mem_write_def put_block_def poke_def fun_upd_idem)

lemma mem_read_block:
  assumes "blocks m b = Some bs" "off + n \<le> length bs"
  shows "mem_read m (Ptr b off) n = Inr (take n (drop off bs))"
  using assms by (simp add: mem_read_def mem_block_def)

lemma mem_block_put:
  "mem_block (put_block m b bs) (Ptr b' off)
     = (if b' = b then (if off \<le> length bs then Inr (drop off bs) else Inl OutOfBounds)
        else mem_block m (Ptr b' off))"
  by (simp add: mem_block_def put_block_def)

lemma mem_read_other:
  assumes "b' \<noteq> b"
  shows "mem_read (put_block m b bs) (Ptr b' off) n = mem_read m (Ptr b' off) n"
  using assms by (simp add: mem_read_def mem_block_put)

section \<open>Strings\<close>

lemma c_string_iff:
  "c_string m p = Inr s \<longleftrightarrow> 0 \<notin> set s \<and> (\<exists>rest. mem_block m p = Inr (s @ 0 # rest))"
proof
  assume c: "c_string m p = Inr s"
  then obtain bs where bs: "mem_block m p = Inr bs" "0 \<in> set bs" "s = takeWhile (\<lambda>b. b \<noteq> 0) bs"
    by (auto simp: c_string_def rbind_eq_Inr split: if_splits)
  have "dropWhile (\<lambda>b. b \<noteq> 0) bs \<noteq> []" using bs(2) by (auto simp: dropWhile_eq_Nil_conv)
  then obtain x rest where d: "dropWhile (\<lambda>b. b \<noteq> 0) bs = x # rest" by (cases "dropWhile (\<lambda>b. b \<noteq> 0) bs") auto
  have "x = 0" using hd_dropWhile [of "\<lambda>b. b \<noteq> 0" bs] d by simp
  then have "bs = s @ 0 # rest"
    using takeWhile_dropWhile_id [of "\<lambda>b. b \<noteq> 0" bs] d bs(3) by simp
  then show "0 \<notin> set s \<and> (\<exists>rest. mem_block m p = Inr (s @ 0 # rest))"
    using bs(1) c_string_nul_free [OF c] by blast
next
  assume "0 \<notin> set s \<and> (\<exists>rest. mem_block m p = Inr (s @ 0 # rest))"
  then show "c_string m p = Inr s"
    by (auto simp: c_string_def takeWhile_nul_append)
qed

lemma c_string_with_nul:
  assumes "c_string m p = Inr s"
  shows "mem_read m p (length s + 1) = Inr (s @ [0])"
  using assms by (auto simp: c_string_iff mem_read_def)

lemma c_string_of_read:
  assumes "mem_read m p (length s + 1) = Inr (s @ [0])" "0 \<notin> set s"
  shows "c_string m p = Inr s"
proof -
  obtain bs where bs: "mem_block m p = Inr bs" "take (length s + 1) bs = s @ [0]"
    using assms(1) by (auto simp: mem_read_def rbind_eq_Inr split: if_splits)
  then have "bs = (s @ [0]) @ drop (length s + 1) bs" by (metis append_take_drop_id)
  then show ?thesis using bs(1) assms(2) by (auto simp: c_string_iff intro!: exI [of _ "drop (length s + 1) bs"])
qed

section \<open>Arenas in memory\<close>

definition arena_in :: "mem \<Rightarrow> arena \<Rightarrow> nat \<Rightarrow> bool" where
  "arena_in m a b \<longleftrightarrow> arena_ok a \<and> arena_base a = Ptr b 0
     \<and> (case blocks m b of None \<Rightarrow> False | Some bs \<Rightarrow> length bs = unat (arena_size a))"

text \<open>\<open>m'\<close> agrees with \<open>m\<close> on the first \<open>off\<close> bytes of block \<open>b\<close>.\<close>

definition same_below :: "mem \<Rightarrow> mem \<Rightarrow> nat \<Rightarrow> nat \<Rightarrow> bool" where
  "same_below m m' b off \<longleftrightarrow>
     (\<forall>o1 n. o1 + n \<le> off \<longrightarrow> mem_read m' (Ptr b o1) n = mem_read m (Ptr b o1) n)"

definition fits :: "arena \<Rightarrow> u64 \<Rightarrow> bool" where
  "fits a n \<longleftrightarrow> unat n < 2 ^ 63 - 8 \<and> unat (arena_offset a) + rounded n \<le> unat (arena_size a)"

lemma arena_copy_ok:
  assumes "arena_in m a b" "fits a n" "mem_read m from (unat n) = Inr data"
  shows "\<exists>a' m'. arena_copy m (Some a) from n = Inr (Ptr b (unat (arena_offset a)), Some a', m')
    \<and> arena_in m' a' b \<and> arena_size a' = arena_size a
    \<and> unat (arena_offset a') = unat (arena_offset a) + rounded n
    \<and> mem_read m' (Ptr b (unat (arena_offset a))) (unat n) = Inr data
    \<and> same_below m m' b (unat (arena_offset a))
    \<and> (\<forall>b'. b' \<noteq> b \<longrightarrow> blocks m' b' = blocks m b')
    \<and> next_block m' = next_block m"
proof -
  obtain bs where a: "arena_ok a" "arena_base a = Ptr b 0" "blocks m b = Some bs"
    "length bs = unat (arena_size a)"
    using assms(1) by (auto simp: arena_in_def split: option.splits)
  have s: "unat n < 2 ^ 63 - 8" and f: "unat (arena_offset a) + rounded n \<le> unat (arena_size a)"
    using assms(2) by (auto simp: fits_def)
  let ?o = "unat (arena_offset a)" and ?a = "a\<lparr>arena_offset := arena_offset a + align8 n\<rparr>"
  have al: "arena_alloc a n = (Ptr b ?o, ?a)" using arena_alloc_cases [OF a(1) s a(2)] f by simp
  have len: "length data = unat n"
    using assms(3) by (auto simp: mem_read_def rbind_eq_Inr split: if_splits)
  have b: "?o + length data \<le> length bs" using f rounded_ge [of n] len a(4) by linarith
  let ?m = "put_block m b (poke bs ?o data)"
  have "arena_copy m (Some a) from n = Inr (Ptr b ?o, Some ?a, ?m)"
    using al assms(3) mem_write_poke [OF a(3) b] by (simp add: arena_copy_def)
  moreover have "arena_in ?m ?a b"
    using arena_alloc_ok [OF a(1) s] al a b by (simp add: arena_in_def put_block_def length_poke)
  moreover have "mem_read ?m (Ptr b ?o) (unat n) = Inr data"
    using mem_read_block [of ?m b "poke bs ?o data" ?o "unat n"] b len poke_at [OF b] length_poke [OF b]
    by (simp add: put_block_def)
  moreover have "same_below m ?m b ?o"
    unfolding same_below_def
  proof (intro allI impI)
    fix o1 n1 :: nat
    assume "o1 + n1 \<le> ?o"
    then show "mem_read ?m (Ptr b o1) n1 = mem_read m (Ptr b o1) n1"
      using mem_read_block [of ?m b "poke bs ?o data" o1 n1] mem_read_block [OF a(3), of o1 n1] b
        poke_below [of o1 n1 ?o data bs] length_poke [OF b]
      by (simp add: put_block_def)
  qed
  moreover have "unat (arena_offset ?a) = ?o + rounded n" using arena_sum [OF a(1) s] by simp
  ultimately show ?thesis by (auto simp: put_block_def)
qed

lemma same_below_string:
  assumes "same_below m m' b off" "c_string m (Ptr b o1) = Inr s" "o1 + length s + 1 \<le> off"
  shows "c_string m' (Ptr b o1) = Inr s"
  using c_string_of_read [of m' "Ptr b o1" s] c_string_with_nul [OF assms(2)]
    c_string_nul_free [OF assms(2)] assms(1,3)
  by (auto simp: same_below_def)

lemma same_block_string:
  "blocks m' b = blocks m b \<Longrightarrow> c_string m' (Ptr b o1) = c_string m (Ptr b o1)"
  by (simp add: c_string_def mem_block_def)

lemma same_block_read:
  "blocks m' b = blocks m b \<Longrightarrow> mem_read m' (Ptr b o1) n = mem_read m (Ptr b o1) n"
  by (simp add: mem_read_def mem_block_def)

end
