(* ===== verification/Shard_Props.thy ===== *)
theory Shard_Props
  imports Shard_Memory
begin

text \<open>
  The properties of \<^verbatim>\<open>src/core/shard/shard.c\<close>: what the worker does with each kind of request, the
  shard invariant it keeps, a store followed by a load end to end, and what becomes of the
  requests \<open>db_insert\<close> and \<open>db_get\<close> really leave in the ring.
\<close>

section \<open>The shard invariant\<close>

definition in_arena :: "mem \<Rightarrow> arena \<Rightarrow> nat \<Rightarrow> ptr \<Rightarrow> bool" where
  "in_arena m a b p \<longleftrightarrow>
     (\<exists>o1 s. p = Ptr b o1 \<and> c_string m p = Inr s \<and> o1 + length s + 1 \<le> unat (arena_offset a))"

definition shard_ok :: "mem \<Rightarrow> shard_t \<Rightarrow> nat \<Rightarrow> nat \<Rightarrow> bool" where
  "shard_ok m s kb vb \<longleftrightarrow> kb \<noteq> vb \<and>
     (case (sh_map s, sh_key_arena s, sh_val_arena s) of
        (Some hm, Some ka, Some va) \<Rightarrow>
          hm_ok m hm \<and> arena_in m ka kb \<and> arena_in m va vb \<and> keys_where (in_arena m ka kb) hm
      | _ \<Rightarrow> False)"

definition sh_view :: "mem \<Rightarrow> shard_t \<Rightarrow> bytes \<Rightarrow> ptr option" where
  "sh_view m s = (case sh_map s of None \<Rightarrow> (\<lambda>_. None) | Some hm \<Rightarrow> hm_view m hm)"

definition sh_load :: "shard_t \<Rightarrow> nat" where
  "sh_load s = (case sh_map s of None \<Rightarrow> 0 | Some hm \<Rightarrow> unat (hm_count hm))"

definition sh_bound :: "shard_t \<Rightarrow> nat" where
  "sh_bound s = (case sh_map s of None \<Rightarrow> 0 | Some hm \<Rightarrow> hm_bound hm)"

lemma shard_ok_cases:
  assumes "shard_ok m s kb vb"
  obtains hm ka va where "sh_map s = Some hm" "sh_key_arena s = Some ka" "sh_val_arena s = Some va"
    "kb \<noteq> vb" "hm_ok m hm" "arena_in m ka kb" "arena_in m va vb" "keys_where (in_arena m ka kb) hm"
  using assms by (auto simp: shard_ok_def split: option.splits)

text \<open>What a store needs: room in the table and in both arenas, and a readable key and value.\<close>

definition put_ready :: "mem \<Rightarrow> shard_t \<Rightarrow> nat \<Rightarrow> proc_t \<Rightarrow> bytes \<Rightarrow> bytes \<Rightarrow> bool" where
  "put_ready m s kb p k data \<longleftrightarrow>
     sh_load s < sh_bound s
     \<and> (case sh_key_arena s of None \<Rightarrow> False | Some ka \<Rightarrow> fits ka (of_nat (length k) + 1))
     \<and> (case sh_val_arena s of None \<Rightarrow> False | Some va \<Rightarrow> fits va (pr_val_len p))
     \<and> c_string m (pr_key p) = Inr k \<and> storable_key k
     \<and> mem_read m (pr_value p) (unat (pr_val_len p)) = Inr data
     \<and> (case pr_value p of NULL \<Rightarrow> True | Ptr b off \<Rightarrow> b \<noteq> kb)"

text \<open>What a store takes from the arenas.\<close>

definition key_used :: "shard_t \<Rightarrow> nat" where
  "key_used s = (case sh_key_arena s of None \<Rightarrow> 0 | Some a \<Rightarrow> unat (arena_offset a))"

definition key_size :: "shard_t \<Rightarrow> nat" where
  "key_size s = (case sh_key_arena s of None \<Rightarrow> 0 | Some a \<Rightarrow> unat (arena_size a))"

definition val_used :: "shard_t \<Rightarrow> nat" where
  "val_used s = (case sh_val_arena s of None \<Rightarrow> 0 | Some a \<Rightarrow> unat (arena_offset a))"

definition val_size :: "shard_t \<Rightarrow> nat" where
  "val_size s = (case sh_val_arena s of None \<Rightarrow> 0 | Some a \<Rightarrow> unat (arena_size a))"

definition arenas_advance :: "shard_t \<Rightarrow> shard_t \<Rightarrow> bytes \<Rightarrow> u64 \<Rightarrow> bool" where
  "arenas_advance s s' k n \<longleftrightarrow> key_size s' = key_size s \<and> val_size s' = val_size s
     \<and> key_used s' = key_used s + rounded (of_nat (length k) + 1) \<and> val_used s' = val_used s + rounded n"

lemma in_arena_kept:
  assumes "in_arena m ka kb p" "arena_offset ka \<le> arena_offset ka'"
    and "\<And>o1 s. c_string m (Ptr kb o1) = Inr s \<Longrightarrow> o1 + length s + 1 \<le> unat (arena_offset ka)
      \<Longrightarrow> c_string m' (Ptr kb o1) = Inr s"
  shows "in_arena m' ka' kb p \<and> c_string m' p = c_string m p"
  using assms by (fastforce simp: in_arena_def word_le_nat_alt)

lemma key_plus_nul:
  assumes "length k < 65536"
  shows "unat (of_nat (length k) + 1 :: u64) = length k + 1"
proof -
  have "(of_nat (length k) + 1 :: u64) = of_nat (length k + 1)" by simp
  also have "unat \<dots> = length k + 1" using assms by (intro unat_of_nat_u64) simp
  finally show ?thesis .
qed

text \<open>The two copies of a store: what the table, the old keys and the rest of memory see of them.\<close>

lemma put_copies:
  assumes "kb \<noteq> vb" "hm_ok m hm" "arena_in m ka kb" "arena_in m va vb" "keys_where (in_arena m ka kb) hm"
    and "c_string m key = Inr k" "storable_key k" "mem_read m val (unat n) = Inr data"
    and "fits ka (of_nat (length k) + 1)" "fits va n" "\<forall>b off. val = Ptr b off \<longrightarrow> b \<noteq> kb"
  shows "\<exists>ka' va' m1 m2. arena_copy m (Some ka) key (of_nat (length k) + 1) = Inr (Ptr kb (unat (arena_offset ka)), Some ka', m1)
    \<and> arena_copy m1 (Some va) val n = Inr (Ptr vb (unat (arena_offset va)), Some va', m2)
    \<and> arena_in m2 ka' kb \<and> arena_in m2 va' vb
    \<and> c_string m2 (Ptr kb (unat (arena_offset ka))) = Inr k
    \<and> in_arena m2 ka' kb (Ptr kb (unat (arena_offset ka)))
    \<and> mem_read m2 (Ptr vb (unat (arena_offset va))) (unat n) = Inr data
    \<and> hm_ok m2 hm \<and> hm_view m2 hm = hm_view m hm \<and> keys_where (in_arena m2 ka' kb) hm
    \<and> same_below m m2 vb (unat (arena_offset va)) \<and> (\<forall>b. b \<noteq> kb \<and> b \<noteq> vb \<longrightarrow> blocks m2 b = blocks m b)
    \<and> arena_size ka' = arena_size ka \<and> unat (arena_offset ka') = unat (arena_offset ka) + rounded (of_nat (length k) + 1)
    \<and> arena_size va' = arena_size va \<and> unat (arena_offset va') = unat (arena_offset va) + rounded n"
proof -
  let ?kl = "of_nat (length k) + 1 :: u64" and ?ko = "unat (arena_offset ka)" and ?vo = "unat (arena_offset va)"
  have kl: "unat ?kl = length k + 1" using key_plus_nul [of k] assms(7) by (simp add: storable_key_def)
  have rk: "mem_read m key (unat ?kl) = Inr (k @ [0])" using c_string_with_nul [OF assms(6)] kl by simp
  obtain ka' m1 where c1: "arena_copy m (Some ka) key ?kl = Inr (Ptr kb ?ko, Some ka', m1)"
    and k1: "arena_in m1 ka' kb" "unat (arena_offset ka') = ?ko + rounded ?kl"
      "mem_read m1 (Ptr kb ?ko) (unat ?kl) = Inr (k @ [0])" "same_below m m1 kb ?ko"
      "\<And>b. b \<noteq> kb \<Longrightarrow> blocks m1 b = blocks m b" "arena_size ka' = arena_size ka"
    using arena_copy_ok [OF assms(3,9) rk] by blast
  have va1: "arena_in m1 va vb" using assms(1,4) k1(5) [of vb] by (simp add: arena_in_def)
  have rd1: "mem_read m1 val (unat n) = Inr data"
  proof (cases val)
    case NULL
    then show ?thesis using assms(8) by (simp add: mem_read_def mem_block_def split: if_splits)
  next
    case (Ptr b off)
    then have "b \<noteq> kb" using assms(11) by blast
    then show ?thesis using Ptr assms(8) same_block_read [OF k1(5)] by simp
  qed
  obtain va' m2 where c2: "arena_copy m1 (Some va) val n = Inr (Ptr vb ?vo, Some va', m2)"
    and v2: "arena_in m2 va' vb" "mem_read m2 (Ptr vb ?vo) (unat n) = Inr data"
      "same_below m1 m2 vb ?vo" "\<And>b. b \<noteq> vb \<Longrightarrow> blocks m2 b = blocks m1 b"
      "arena_size va' = arena_size va" "unat (arena_offset va') = ?vo + rounded n"
    using arena_copy_ok [OF va1 assms(10) rd1] by blast
  have below: "same_below m m2 vb ?vo"
    using v2(3) same_block_read [OF k1(5) [of vb]] assms(1) by (simp add: same_below_def)
  have kept: "c_string m2 (Ptr kb o1) = Inr x" if "c_string m (Ptr kb o1) = Inr x" "o1 + length x + 1 \<le> ?ko" for o1 x
    using same_below_string [OF k1(4) that] same_block_string [OF v2(4) [of kb]] assms(1) by simp
  have grow: "arena_offset ka \<le> arena_offset ka'" using k1(2) by (simp add: word_le_nat_alt)
  have fr: "in_arena m2 ka' kb q \<and> c_string m2 q = c_string m q" if "in_arena m ka kb q" for q
    using in_arena_kept [OF that grow] kept by blast
  have ok2: "hm_ok m2 hm" "hm_view m2 hm = hm_view m hm"
    using hm_ok_frame [OF assms(2), of m2] assms(5) fr by (auto simp: keys_where_def)
  have keys2: "keys_where (in_arena m2 ka' kb) hm" using assms(5) fr by (auto simp: keys_where_def)
  have "c_string m1 (Ptr kb ?ko) = Inr k"
    using k1(3) kl c_string_nul_free [OF assms(6)] c_string_of_read [of m1 _ k] by simp
  then have str2: "c_string m2 (Ptr kb ?ko) = Inr k" using same_block_string [OF v2(4) [of kb]] assms(1) by simp
  have new: "in_arena m2 ka' kb (Ptr kb ?ko)" using str2 k1(2) rounded_ge [of ?kl] kl by (auto simp: in_arena_def)
  have ka2: "arena_in m2 ka' kb" using k1(1) v2(4) [of kb] assms(1) by (simp add: arena_in_def)
  have rest: "\<forall>b. b \<noteq> kb \<and> b \<noteq> vb \<longrightarrow> blocks m2 b = blocks m b" using v2(4) k1(5) by simp
  show ?thesis using c1 c2 ka2 v2(1,2,5,6) str2 new ok2 keys2 below rest k1(2,6) by blast
qed

lemma worker_put_ok:
  assumes "shard_ok (or_mem st) s kb vb" "put_ready (or_mem st) s kb p k data"
    and "i < length (or_shards st)" "or_shards st ! i = s"
  shows "\<exists>st' s' v. worker_put st i s p = Some (Inr st')
    \<and> st' = set_shard (st\<lparr>or_mem := or_mem st'\<rparr>) i s' \<and> shard_ok (or_mem st') s' kb vb
    \<and> sh_view (or_mem st') s' = (sh_view (or_mem st) s)(k \<mapsto> v)
    \<and> mem_read (or_mem st') v (unat (pr_val_len p)) = Inr data
    \<and> (\<forall>va. sh_val_arena s = Some va \<longrightarrow> same_below (or_mem st) (or_mem st') vb (unat (arena_offset va)))
    \<and> (\<forall>b. b \<noteq> kb \<and> b \<noteq> vb \<longrightarrow> blocks (or_mem st') b = blocks (or_mem st) b)
    \<and> sh_ring s' = sh_ring s \<and> sh_bound s' = sh_bound s \<and> sh_load s' \<le> sh_load s + 1
    \<and> v = Ptr vb (val_used s) \<and> arenas_advance s s' k (pr_val_len p)"
proof -
  let ?m = "or_mem st"
  obtain hm ka va where s: "sh_map s = Some hm" "sh_key_arena s = Some ka" "sh_val_arena s = Some va"
    and ne: "kb \<noteq> vb" and ok: "hm_ok ?m hm" and ka: "arena_in ?m ka kb" and va: "arena_in ?m va vb"
    and keys: "keys_where (in_arena ?m ka kb) hm"
    using assms(1) by (rule shard_ok_cases)
  let ?kp = "Ptr kb (unat (arena_offset ka))" and ?vp = "Ptr vb (unat (arena_offset va))"
  have load: "unat (hm_count hm) < hm_bound hm" and fk: "fits ka (of_nat (length k) + 1)" and fv: "fits va (pr_val_len p)"
    and str: "c_string ?m (pr_key p) = Inr k" and st: "storable_key k"
    and rd: "mem_read ?m (pr_value p) (unat (pr_val_len p)) = Inr data"
    and ali: "\<forall>b off. pr_value p = Ptr b off \<longrightarrow> b \<noteq> kb"
    using assms(2) s by (auto simp: put_ready_def sh_load_def sh_bound_def split: ptr.splits)
  obtain ka' va' m1 m2 where c: "arena_copy ?m (Some ka) (pr_key p) (of_nat (length k) + 1) = Inr (?kp, Some ka', m1)"
    "arena_copy m1 (Some va) (pr_value p) (pr_val_len p) = Inr (?vp, Some va', m2)"
    "arena_in m2 ka' kb" "arena_in m2 va' vb" "c_string m2 ?kp = Inr k" "in_arena m2 ka' kb ?kp"
    "mem_read m2 ?vp (unat (pr_val_len p)) = Inr data" "hm_ok m2 hm" "hm_view m2 hm = hm_view ?m hm"
    "keys_where (in_arena m2 ka' kb) hm" "same_below ?m m2 vb (unat (arena_offset va))"
    "\<forall>b. b \<noteq> kb \<and> b \<noteq> vb \<longrightarrow> blocks m2 b = blocks ?m b"
    "arena_size ka' = arena_size ka" "unat (arena_offset ka') = unat (arena_offset ka) + rounded (of_nat (length k) + 1)"
    "arena_size va' = arena_size va" "unat (arena_offset va') = unat (arena_offset va) + rounded (pr_val_len p)"
    using put_copies [OF ne ok ka va keys str st rd fk fv ali] by blast
  obtain hm' where h: "hm_insert m2 (Some hm) ?kp ?vp (pr_val_len p) = Some (Inr (0, Some hm'))"
    "hm_ok m2 hm'" "hm_view m2 hm' = (hm_view m2 hm)(k \<mapsto> ?vp)" "hm_capacity hm' = hm_capacity hm"
    "unat (hm_count hm') \<le> unat (hm_count hm) + 1"
    using hm_insert_view [OF c(8) load c(5) st, of ?vp "pr_val_len p"] by (auto split: if_splits)
  have keys': "keys_where (in_arena m2 ka' kb) hm'" by (rule hm_insert_keys [OF h(1) c(10,6)])
  let ?s = "s\<lparr>sh_map := Some hm', sh_key_arena := Some ka', sh_val_arena := Some va'\<rparr>"
  let ?st = "set_shard (st\<lparr>or_mem := m2\<rparr>) i ?s"
  have m: "or_mem ?st = m2" by (simp add: set_shard_def)
  have w: "worker_put st i s p = Some (Inr ?st)" using str s c(1,2) h(1) by (simp add: worker_put_def)
  have so: "shard_ok m2 ?s kb vb" using h(2) c(3,4) keys' ne by (simp add: shard_ok_def)
  have vw: "sh_view m2 ?s = (sh_view ?m s)(k \<mapsto> ?vp)" using h(3) c(9) s(1) by (simp add: sh_view_def)
  have rest: "sh_bound ?s = sh_bound s" "sh_load ?s \<le> sh_load s + 1"
    using h(4,5) s(1) by (simp_all add: sh_bound_def sh_load_def hm_bound_def)
  have mem: "\<forall>va. sh_val_arena s = Some va \<longrightarrow> same_below ?m m2 vb (unat (arena_offset va))" using c(11) s(3) by simp
  have adv: "?vp = Ptr vb (val_used s)" "arenas_advance s ?s k (pr_val_len p)"
    using c(13-16) s(2,3) by (simp_all add: arenas_advance_def key_used_def key_size_def val_used_def val_size_def)
  have "?st = set_shard (st\<lparr>or_mem := or_mem ?st\<rparr>) i ?s" by (simp add: m)
  then show ?thesis
    using w so vw c(7,12) mem rest adv unfolding m by (intro exI [of _ ?st] exI [of _ ?s] exI [of _ ?vp]) (simp add: m)
qed

section \<open>One round of the worker\<close>

text \<open>Shard \<open>i\<close> is \<open>s\<close>, and the request at the front of its ring is the live request \<open>p\<close> at \<open>a\<close>.\<close>

definition next_request :: "orca \<Rightarrow> nat \<Rightarrow> shard_t \<Rightarrow> nat \<Rightarrow> proc_t \<Rightarrow> nat list \<Rightarrow> bool" where
  "next_request st i s a p rest \<longleftrightarrow>
     i < length (or_shards st) \<and> or_shards st ! i = s \<and> rb_ok (sh_ring s)
     \<and> rb_list (sh_ring s) = a # rest \<and> or_procs st a = Some p"

lemma worker_round:
  assumes "next_request st i s a p rest"
  obtains ring where "rb_ok ring" "rb_list ring = rest" "rb_cap ring = rb_cap (sh_ring s)"
    "rb_rp ring = rb_rp (sh_ring s) + 1"
    "shard_worker st i = map_option (\<lambda>r. rbind r (\<lambda>st'. worker_finish st' a p))
       (worker_op (set_shard st i (s\<lparr>sh_ring := ring\<rparr>)) i (s\<lparr>sh_ring := ring\<rparr>) p)"
proof -
  have n: "i < length (or_shards st)" "or_shards st ! i = s" "or_procs st a = Some p"
    using assms by (auto simp: next_request_def)
  obtain ring where r: "rBuff_read (sh_ring s) = Inr (Some a, ring)" "rb_ok ring" "rb_list ring = rest"
    "rb_cap ring = rb_cap (sh_ring s)" "rb_rp ring = rb_rp (sh_ring s) + 1"
    using assms read_front [of "sh_ring s" a rest] unfolding next_request_def by blast
  have "shard_worker st i = map_option (\<lambda>r. rbind r (\<lambda>st'. worker_finish st' a p))
       (worker_op (set_shard st i (s\<lparr>sh_ring := ring\<rparr>)) i (s\<lparr>sh_ring := ring\<rparr>) p)"
    using n r(1) by (simp add: shard_worker_def shard_at_def deref_def)
  with r(2-5) show ?thesis by (rule that)
qed

lemma set_shard_simps [simp]:
  "or_mem (set_shard st i s) = or_mem st" "or_procs (set_shard st i s) = or_procs st"
  "or_outs (set_shard st i s) = or_outs st" "or_stats (set_shard st i s) = or_stats st"
  "length (or_shards (set_shard st i s)) = length (or_shards st)"
  "i < length (or_shards st) \<Longrightarrow> or_shards (set_shard st i s) ! i = s"
  by (simp_all add: set_shard_def)

lemma shard_ok_ring [simp]: "shard_ok m (s\<lparr>sh_ring := ring\<rparr>) kb vb = shard_ok m s kb vb"
  "sh_view m (s\<lparr>sh_ring := ring\<rparr>) = sh_view m s" "sh_load (s\<lparr>sh_ring := ring\<rparr>) = sh_load s"
  "sh_bound (s\<lparr>sh_ring := ring\<rparr>) = sh_bound s"
  "put_ready m (s\<lparr>sh_ring := ring\<rparr>) kb p k data = put_ready m s kb p k data"
  "val_used (s\<lparr>sh_ring := ring\<rparr>) = val_used s" "arenas_advance (s\<lparr>sh_ring := ring\<rparr>) s' k n = arenas_advance s s' k n"
  "key_used (s\<lparr>sh_ring := ring\<rparr>) = key_used s" "key_size (s\<lparr>sh_ring := ring\<rparr>) = key_size s"
  "val_size (s\<lparr>sh_ring := ring\<rparr>) = val_size s"
  by (simp_all add: shard_ok_def sh_view_def sh_load_def sh_bound_def put_ready_def val_used_def arenas_advance_def
      key_used_def key_size_def val_size_def)

lemma put_round:
  assumes "next_request st i s a p rest" "pr_op p = OP_PUT"
    and "pr_status p = Some c" "or_stats st c = Some old"
    and "shard_ok (or_mem st) s kb vb" "put_ready (or_mem st) s kb p k data"
  shows "\<exists>st' s' v. shard_worker st i = Some (Inr st')
    \<and> or_stats st' = (or_stats st)(c \<mapsto> 0) \<and> or_procs st' = (or_procs st)(a \<mapsto> p\<lparr>pr_done := 1\<rparr>)
    \<and> or_outs st' = or_outs st
    \<and> i < length (or_shards st') \<and> or_shards st' ! i = s' \<and> shard_ok (or_mem st') s' kb vb
    \<and> rb_ok (sh_ring s') \<and> rb_list (sh_ring s') = rest
    \<and> sh_view (or_mem st') s' = (sh_view (or_mem st) s)(k \<mapsto> v)
    \<and> mem_read (or_mem st') v (unat (pr_val_len p)) = Inr data
    \<and> (\<forall>va. sh_val_arena s = Some va \<longrightarrow> same_below (or_mem st) (or_mem st') vb (unat (arena_offset va)))
    \<and> (\<forall>b. b \<noteq> kb \<and> b \<noteq> vb \<longrightarrow> blocks (or_mem st') b = blocks (or_mem st) b)
    \<and> sh_bound s' = sh_bound s \<and> sh_load s' \<le> sh_load s + 1
    \<and> v = Ptr vb (val_used s) \<and> arenas_advance s s' k (pr_val_len p) \<and> rb_cap (sh_ring s') = rb_cap (sh_ring s)"
proof -
  obtain ring where r: "rb_ok ring" "rb_list ring = rest" "rb_cap ring = rb_cap (sh_ring s)"
    "shard_worker st i = map_option (\<lambda>r. rbind r (\<lambda>st'. worker_finish st' a p))
       (worker_op (set_shard st i (s\<lparr>sh_ring := ring\<rparr>)) i (s\<lparr>sh_ring := ring\<rparr>) p)"
    using assms(1) by (rule worker_round)
  let ?s = "s\<lparr>sh_ring := ring\<rparr>" and ?st = "set_shard st i (s\<lparr>sh_ring := ring\<rparr>)"
  have i: "i < length (or_shards st)" using assms(1) by (simp add: next_request_def)
  obtain st1 s' v where w: "worker_put ?st i ?s p = Some (Inr st1)"
    "st1 = set_shard (?st\<lparr>or_mem := or_mem st1\<rparr>) i s'" "shard_ok (or_mem st1) s' kb vb"
    "sh_view (or_mem st1) s' = (sh_view (or_mem st) s)(k \<mapsto> v)"
    "mem_read (or_mem st1) v (unat (pr_val_len p)) = Inr data"
    "\<forall>va. sh_val_arena s = Some va \<longrightarrow> same_below (or_mem st) (or_mem st1) vb (unat (arena_offset va))"
    "\<forall>b. b \<noteq> kb \<and> b \<noteq> vb \<longrightarrow> blocks (or_mem st1) b = blocks (or_mem st) b"
    "sh_ring s' = ring" "sh_bound s' = sh_bound s" "sh_load s' \<le> sh_load s + 1"
    "v = Ptr vb (val_used s)" "arenas_advance s s' k (pr_val_len p)"
    using worker_put_ok [of ?st ?s kb vb p k data i] assms(5,6) i by auto
  have st1: "or_stats st1 = or_stats st" "or_procs st1 = or_procs st" "or_outs st1 = or_outs st"
    "length (or_shards st1) = length (or_shards st)" "or_shards st1 ! i = s'"
    using arg_cong [OF w(2), of or_stats] arg_cong [OF w(2), of or_procs] arg_cong [OF w(2), of or_outs]
      arg_cong [OF w(2), of or_shards] i by (simp_all add: set_shard_def)
  let ?e = "st1\<lparr>or_stats := (or_stats st)(c \<mapsto> 0), or_procs := (or_procs st)(a \<mapsto> p\<lparr>pr_done := 1\<rparr>)\<rparr>"
  have "shard_worker st i = Some (Inr ?e)"
    using r(4) w(1) assms(2-4) st1 by (simp add: worker_op_def worker_finish_def deref_def)
  then show ?thesis using w(3-12) st1 r(1-3) i by (intro exI [of _ ?e] exI [of _ s'] exI [of _ v]) simp
qed

lemma get_round:
  assumes "next_request st i s a p rest" "pr_op p = OP_GET"
    and "pr_status p = Some c" "or_stats st c = Some old" "pr_out_val p = Some d" "or_outs st d = Some w"
    and "shard_ok (or_mem st) s kb vb" "sh_load s < sh_bound s"
    and "c_string (or_mem st) (pr_key p) = Inr k" "length k < 2 ^ 64"
  shows "\<exists>ring. rb_ok ring \<and> rb_list ring = rest \<and> rb_cap ring = rb_cap (sh_ring s) \<and> shard_worker st i = Some (Inr
    ((set_shard st i (s\<lparr>sh_ring := ring\<rparr>))
      \<lparr>or_outs := (or_outs st)(d \<mapsto> (case sh_view (or_mem st) s k of None \<Rightarrow> NULL | Some v \<Rightarrow> v)),
       or_stats := (or_stats st)(c \<mapsto> 0), or_procs := (or_procs st)(a \<mapsto> p\<lparr>pr_done := 1\<rparr>)\<rparr>))"
proof -
  obtain ring where r: "rb_ok ring" "rb_list ring = rest" "rb_cap ring = rb_cap (sh_ring s)"
    "shard_worker st i = map_option (\<lambda>r. rbind r (\<lambda>st'. worker_finish st' a p))
       (worker_op (set_shard st i (s\<lparr>sh_ring := ring\<rparr>)) i (s\<lparr>sh_ring := ring\<rparr>) p)"
    using assms(1) by (rule worker_round)
  obtain hm where hm: "sh_map s = Some hm" "hm_ok (or_mem st) hm"
    using assms(7) by (rule shard_ok_cases)
  have "hm_count hm < hm_capacity hm"
    using assms(8) hm(1) by (simp add: sh_load_def sh_bound_def hm_bound_def word_less_nat_alt)
  from hm_lookup [OF hm(2) this assms(9,10)]
  have "hm_get (or_mem st) (sh_map s) (pr_key p)
    = Some (Inr (case sh_view (or_mem st) s k of None \<Rightarrow> NULL | Some v \<Rightarrow> v))"
    using hm(1) by (simp add: sh_view_def)
  then show ?thesis
    using r assms(2-6)
    by (intro exI [of _ ring]) (simp add: worker_op_def worker_get_def worker_finish_def deref_def)
qed

lemma dead_request:
  assumes "i < length (or_shards st)" "or_shards st ! i = s" "rb_ok (sh_ring s)"
    "rb_list (sh_ring s) = a # rest" "or_procs st a = None"
  shows "shard_worker st i = Some (Inl UseAfterFree)"
proof -
  obtain ring where "rBuff_read (sh_ring s) = Inr (Some a, ring)"
    using read_front [OF assms(3,4)] by blast
  then show ?thesis using assms by (simp add: shard_worker_def shard_at_def deref_def)
qed

lemma no_status_no_end:
  assumes "next_request st i s a p rest" "pr_status p = None"
  shows "shard_worker st i \<noteq> Some (Inr st')"
proof -
  obtain ring where "shard_worker st i = map_option (\<lambda>r. rbind r (\<lambda>st'. worker_finish st' a p))
       (worker_op (set_shard st i (s\<lparr>sh_ring := ring\<rparr>)) i (s\<lparr>sh_ring := ring\<rparr>) p)"
    using assms(1) by (rule worker_round)
  then show ?thesis using assms(2)
    by (auto simp: worker_finish_def deref_def rbind_eq_Inr)
qed

end
