(* ===== verification/Shard_Service.thy ===== *)
theory Shard_Service
  imports Shard_Props
begin

text \<open>
  The properties of \<^verbatim>\<open>src/core/shard/shard.c\<close>: stores and loads end to end, the initial state, and
  what the requests of \<open>db_insert\<close> and \<open>db_get\<close> do to the worker once their frames are gone.
\<close>

section \<open>The push loop of \<open>db_get\<close>\<close>

lemma push_fills:
  assumes "rb_ok r" "rb_rp r < rb_cap r" "rb_count r < unat (rb_cap r)"
  shows "\<exists>r'. push_loop r a = Some (Inr r') \<and> rb_ok r' \<and> rb_cap r' = rb_cap r \<and> rb_rp r' = rb_rp r
    \<and> rb_list r' = rb_list r @ replicate (unat (rb_cap r) - 1 - rb_count r) a"
  using assms
proof (induction "unat (rb_cap r) - 1 - rb_count r" arbitrary: r)
  case 0
  then have full: "rb_count r + 1 = unat (rb_cap r)" by linarith
  obtain xs k where k: "unat (rb_cap r) = 2 ^ k" using 0(2) by (rule rb_ok_cases)
  have "isFull r" using full_iff [OF k 0(4)] full 0(3) by (simp add: word_less_nat_alt)
  then have "push_loop r a = Some (Inr r)"
    using write_full [of r a] by (subst push_loop.simps) simp
  then show ?case using 0 by simp
next
  case (Suc n)
  have c: "rb_count r < unat (rb_cap r) - 1" using Suc(2) by linarith
  obtain r1 where w: "rBuff_write r a = Inr (True, r1)" "rb_ok r1" "rb_list r1 = rb_list r @ [a]"
    "rb_cap r1 = rb_cap r" "rb_rp r1 = rb_rp r"
    using write_room [OF Suc(3,5) room_not_full [OF Suc(3) c]] by blast
  have n: "rb_count r1 = Suc (rb_count r)"
    using w(3) length_rb_list [OF w(2)] length_rb_list [OF Suc(3)] by simp
  then have "n = unat (rb_cap r1) - 1 - rb_count r1" "rb_count r1 < unat (rb_cap r1)"
    using Suc(2) w(4) c by simp_all
  then obtain r2 where r2: "push_loop r1 a = Some (Inr r2)" "rb_ok r2" "rb_cap r2 = rb_cap r1"
    "rb_rp r2 = rb_rp r1" "rb_list r2 = rb_list r1 @ replicate (unat (rb_cap r1) - 1 - rb_count r1) a"
    using Suc(1) [of r1] w(2,4,5) Suc(4) by auto
  have "push_loop r a = Some (Inr r2)" using w(1) r2(1) by (subst push_loop.simps) simp
  moreover have "rb_list r2 = rb_list r @ replicate (unat (rb_cap r) - 1 - rb_count r) a"
    using r2(5) w(3) Suc(2) n w(4) c by (simp add: Suc_diff_Suc flip: replicate_Suc)
  ultimately show ?case using r2 w(4,5) by auto
qed

definition lapped :: "nat rBuff \<Rightarrow> bool" where
  "lapped r \<longleftrightarrow> (\<exists>k. unat (rb_cap r) = 2 ^ k) \<and> rb_cap r \<le> rb_rp r
     \<and> (case rb_proc r of None \<Rightarrow> False | Some xs \<Rightarrow> length xs = unat (rb_cap r))"

lemma lapped_write:
  assumes "lapped r"
  shows "\<exists>r'. rBuff_write r a = Inr (True, r') \<and> lapped r'"
proof -
  obtain k xs where k: "unat (rb_cap r) = 2 ^ k" and x: "rb_proc r = Some xs" "length xs = unat (rb_cap r)"
    and l: "rb_cap r \<le> rb_rp r"
    using assms by (auto simp: lapped_def split: option.splits)
  have "unat ((rb_hp r + 1) AND (rb_cap r - 1)) < unat (rb_cap r)"
    using unat_and_mask [OF k] k by simp
  then have "(rb_hp r + 1) AND (rb_cap r - 1) \<noteq> rb_rp r" using l by (auto simp: word_le_nat_alt)
  moreover have "rb_slot r (rb_hp r) < length xs" using slot_mod [OF k] k x(2) by simp
  ultimately show ?thesis using k l x by (auto simp: rBuff_write_def lapped_def)
qed

lemma push_never_ends:
  assumes "lapped r"
  shows "push_loop r a = None"
proof -
  have "False" if "push_loop r a = Some x" for x
  proof -
    have "lapped r \<longrightarrow> False"
    proof (rule push_loop.raw_induct [where P = "\<lambda>r a x. lapped r \<longrightarrow> False", OF _ that], goal_cases)
      case (1 f r a x)
      then show ?case using lapped_write [of r a] by (auto split: sum.splits if_splits)
    qed
    then show False using assms by blast
  qed
  then show ?thesis by (cases "push_loop r a") auto
qed

section \<open>Initialisation\<close>

lemma hm_create_blocks: "hm_create m c = (h, m') \<Longrightarrow> blocks m' = blocks m \<and> next_block m' = next_block m"
  by (auto simp: hm_create_def mem_reserve_def mem_release_def split: option.splits if_splits)

lemma rBuff_init_blocks:
  "rBuff_init m c fill = (r, m') \<Longrightarrow> blocks m' = blocks m \<and> next_block m' = next_block m"
  by (auto simp: rBuff_init_def mem_reserve_def Let_def split: option.splits if_splits)

lemma arena_create_ok:
  assumes "24 + unat sz \<le> avail m" "unat sz \<le> 2 ^ 63"
  shows "\<exists>a m'. arena_create m sz fill = (Some a, m') \<and> arena_in m' a (next_block m)
    \<and> next_block m' = Suc (next_block m) \<and> avail m' = avail m - 24 - unat sz
    \<and> (\<forall>b. b \<noteq> next_block m \<longrightarrow> blocks m' b = blocks m b)"
  using assms
  by (auto simp: arena_create_def mem_reserve_def mem_alloc_def arena_in_def arena_ok_def)

definition shard_bytes :: nat where
  "shard_bytes = (32 + 32 * 65536) + (24 + 8 * 1024 * 1024) + (24 + 32 * 1024 * 1024) + 8 * 1024"

definition shard_fresh :: "mem \<Rightarrow> shard_t \<Rightarrow> bool" where
  "shard_fresh m s \<longleftrightarrow> (\<exists>kb vb. kb < next_block m \<and> vb < next_block m \<and> shard_ok m s kb vb)
     \<and> sh_view m s = (\<lambda>_. None) \<and> sh_load s = 0 \<and> sh_bound s = 65536
     \<and> rb_ok (sh_ring s) \<and> rb_list (sh_ring s) = [] \<and> unat (rb_cap (sh_ring s)) = 1024
     \<and> rb_rp (sh_ring s) = 0"

lemma HM_CAP_unat: "unat HM_CAP = 2 ^ 16"
  by (simp add: HM_CAP_def push_bit_eq_mult)

lemma hm_create_fits:
  assumes "32 + 32 * unat c \<le> avail m" "unat c = 2 ^ k"
  shows "\<exists>hm m'. hm_create m c = (Some hm, m') \<and> avail m' = avail m - (32 + 32 * unat c)
    \<and> (\<forall>m2. hm_ok m2 hm \<and> hm_view m2 hm = (\<lambda>_. None)) \<and> hm_count hm = 0 \<and> hm_capacity hm = c
    \<and> (\<forall>Q. keys_where Q hm)"
proof -
  have r: "32 \<le> avail m" "32 * unat c \<le> avail m - 32" using assms(1) by linarith+
  let ?hm = "demo_table c"
  have "hm_create m c = (Some ?hm, m\<lparr>avail := avail m - 32 - 32 * unat c\<rparr>)"
    using r by (simp add: hm_create_def mem_reserve_def demo_table_def)
  moreover have "keys_where Q ?hm" for Q
    by (simp add: keys_where_def demo_table_def occ_def empty_node_def)
  ultimately show ?thesis using demo_table_ok [OF assms(2)] by auto
qed

lemma shard_new_ok:
  assumes "shard_bytes \<le> avail m"
  shows "\<exists>s m'. shard_new m fill pfill = (s, m') \<and> shard_fresh m' s \<and> next_block m \<le> next_block m'
    \<and> avail m' = avail m - shard_bytes \<and> (\<forall>b < next_block m. blocks m' b = blocks m b)"
proof -
  have a: "32 + 32 * unat HM_CAP \<le> avail m" using assms by (simp add: shard_bytes_def HM_CAP_unat)
  obtain hm m1 where h: "hm_create m HM_CAP = (Some hm, m1)" "avail m1 = avail m - (32 + 32 * unat HM_CAP)"
    "\<And>m2. hm_ok m2 hm" "\<And>m2. hm_view m2 hm = (\<lambda>_. None)" "hm_count hm = 0" "hm_capacity hm = HM_CAP"
    "\<And>Q. keys_where Q hm"
    using hm_create_fits [OF a HM_CAP_unat] by blast
  have b: "24 + unat (8 * 1024 * 1024 :: u64) \<le> avail m1"
    using assms h(2) by (simp add: shard_bytes_def HM_CAP_unat)
  have kz: "unat (8 * 1024 * 1024 :: u64) \<le> 2 ^ 63" and vz: "unat (32 * 1024 * 1024 :: u64) \<le> 2 ^ 63"
    by simp_all
  obtain ka m2 where k: "arena_create m1 (8 * 1024 * 1024) fill = (Some ka, m2)"
    "arena_in m2 ka (next_block m1)" "next_block m2 = Suc (next_block m1)"
    "avail m2 = avail m1 - 24 - unat (8 * 1024 * 1024 :: u64)"
    "\<And>b. b \<noteq> next_block m1 \<Longrightarrow> blocks m2 b = blocks m1 b"
    using arena_create_ok [OF b kz, of fill] by blast
  have c: "24 + unat (32 * 1024 * 1024 :: u64) \<le> avail m2"
    using assms h(2) k(4) by (simp add: shard_bytes_def HM_CAP_unat)
  obtain va m3 where v: "arena_create m2 (32 * 1024 * 1024) fill = (Some va, m3)"
    "arena_in m3 va (next_block m2)" "next_block m3 = Suc (next_block m2)"
    "avail m3 = avail m2 - 24 - unat (32 * 1024 * 1024 :: u64)"
    "\<And>b. b \<noteq> next_block m2 \<Longrightarrow> blocks m3 b = blocks m2 b"
    using arena_create_ok [OF c vz, of fill] by blast
  have d: "8 * unat (1024 :: u64) \<le> avail m3"
    using assms h(2) k(4) v(4) by (simp add: shard_bytes_def HM_CAP_unat)
  have cap: "unat (1024 :: u64) = 2 ^ 10" by simp
  obtain ring m4 where r: "rBuff_init m3 1024 pfill = (ring, m4)" by (cases "rBuff_init m3 1024 pfill")
  have ring: "rb_ok ring" "rb_list ring = []" "rb_cap ring = 1024" "rb_rp ring = 0"
    using rBuff_init_ok [OF cap _ d, of pfill] r by simp_all
  have m4: "blocks m4 = blocks m3" "next_block m4 = next_block m3" "avail m4 = avail m3 - 8192"
    using rBuff_init_blocks [OF r] r d by (auto simp: rBuff_init_def mem_reserve_def)
  have m1: "blocks m1 = blocks m" "next_block m1 = next_block m" using hm_create_blocks [OF h(1)] by simp_all
  let ?s = "\<lparr>sh_map = Some hm, sh_ring = ring, sh_key_arena = Some ka, sh_val_arena = Some va\<rparr>"
  have "arena_in m4 ka (next_block m1)" "arena_in m4 va (next_block m2)"
    using k(2,3) v(2) v(5) [of "next_block m1"] m4(1) by (simp_all add: arena_in_def)
  then have "shard_ok m4 ?s (next_block m1) (next_block m2)" using h(3,7) k(3) by (simp add: shard_ok_def)
  moreover have "next_block m1 < next_block m4" "next_block m2 < next_block m4"
    using k(3) v(3) m4(2) by simp_all
  ultimately have "\<exists>kb vb. kb < next_block m4 \<and> vb < next_block m4 \<and> shard_ok m4 ?s kb vb" by blast
  then have "shard_fresh m4 ?s"
    using h(4,5,6) ring
    by (simp add: shard_fresh_def sh_view_def sh_load_def sh_bound_def hm_bound_def HM_CAP_unat)
  moreover have "avail m4 = avail m - shard_bytes"
    using h(2) k(4) v(4) m4(3) by (simp add: shard_bytes_def HM_CAP_unat)
  moreover have "\<forall>b < next_block m. blocks m4 b = blocks m b"
    using m4(1) m1 k(3,5) v(5) by simp
  moreover have "shard_new m fill pfill = (?s, m4)" using h(1) k(1) v(1) r by (simp add: shard_new_def)
  ultimately show ?thesis using m4(2) v(3) k(3) m1(2) by auto
qed

lemma shard_fresh_kept:
  assumes "shard_fresh m s" "next_block m \<le> next_block m'" "\<forall>b < next_block m. blocks m' b = blocks m b"
  shows "shard_fresh m' s"
proof -
  obtain kb vb where b: "kb < next_block m" "vb < next_block m" "shard_ok m s kb vb"
    and rest: "sh_view m s = (\<lambda>_. None)"
    using assms(1) by (auto simp: shard_fresh_def)
  obtain hm ka va where s: "sh_map s = Some hm" "sh_key_arena s = Some ka" "sh_val_arena s = Some va"
    and o: "kb \<noteq> vb" "hm_ok m hm" "arena_in m ka kb" "arena_in m va vb" "keys_where (in_arena m ka kb) hm"
    using b(3) by (rule shard_ok_cases)
  have same: "blocks m' kb = blocks m kb" "blocks m' vb = blocks m vb" using b assms(3) by auto
  have q: "in_arena m' ka kb p \<and> c_string m' p = c_string m p" if "in_arena m ka kb p" for p
    using that same_block_string [OF same(1)] by (auto simp: in_arena_def)
  have "hm_ok m' hm" "hm_view m' hm = hm_view m hm"
    using hm_ok_frame [OF o(2), of m'] o(5) q by (auto simp: keys_where_def)
  moreover have "keys_where (in_arena m' ka kb) hm" using o(5) q by (auto simp: keys_where_def)
  ultimately have "shard_ok m' s kb vb" "sh_view m' s = sh_view m s"
    using o s same by (simp_all add: shard_ok_def arena_in_def sh_view_def)
  moreover have "kb < next_block m'" "vb < next_block m'" using b(1,2) assms(2) by simp_all
  ultimately have "\<exists>kb vb. kb < next_block m' \<and> vb < next_block m' \<and> shard_ok m' s kb vb" by blast
  then show ?thesis using assms(1) \<open>sh_view m' s = sh_view m s\<close> by (simp add: shard_fresh_def)
qed

lemma init_loop_ok:
  "length is * shard_bytes \<le> avail m \<Longrightarrow> \<forall>i \<in> set is. spawn i \<Longrightarrow> \<forall>s \<in> set ss. shard_fresh m s \<Longrightarrow>
   \<exists>m' ss'. shard_init_loop fill pfill spawn is m ss = (m', ss') \<and> length ss' = length ss + length is
     \<and> (\<forall>s \<in> set ss'. shard_fresh m' s)"
proof (induction "is" arbitrary: m ss)
  case (Cons i "is")
  then have a: "shard_bytes \<le> avail m" by simp
  obtain s m1 where s: "shard_new m fill pfill = (s, m1)" "shard_fresh m1 s" "next_block m \<le> next_block m1"
    "avail m1 = avail m - shard_bytes" "\<forall>b < next_block m. blocks m1 b = blocks m b"
    using shard_new_ok [OF a] by blast
  have "length is * shard_bytes \<le> avail m1" using Cons.prems(1) s(4) by simp
  moreover have "\<forall>t \<in> set (ss @ [s]). shard_fresh m1 t"
    using Cons.prems(3) s shard_fresh_kept by auto
  ultimately show ?case using Cons.IH [of m1 "ss @ [s]"] Cons.prems(2) s(1) by auto
qed simp

section \<open>Properties\<close>

text \<open>A small shard with a store and a load of the key \<open>a\<close> waiting, for the concrete instances.\<close>

definition zeros :: "nat \<Rightarrow> bytes" where
  "zeros n = replicate n 0"

definition service_mem :: mem where
  "service_mem =
     \<lparr>blocks = (\<lambda>_. None)(0 \<mapsto> [97, 0], 1 \<mapsto> [120, 121, 122], 10 \<mapsto> zeros 16, 11 \<mapsto> zeros 16),
      next_block = 12, avail = 0\<rparr>"

definition service_shard :: "nat list \<Rightarrow> u64 \<Rightarrow> shard_t" where
  "service_shard slots n =
     \<lparr>sh_map = Some (demo_table 4), sh_ring = \<lparr>rb_hp = n, rb_rp = 0, rb_cap = 4, rb_proc = Some slots\<rparr>,
      sh_key_arena = Some \<lparr>arena_base = Ptr 10 0, arena_size = 16, arena_offset = 0\<rparr>,
      sh_val_arena = Some \<lparr>arena_base = Ptr 11 0, arena_size = 16, arena_offset = 0\<rparr>\<rparr>"

definition store_proc :: proc_t where
  "store_proc = (insert_proc (Ptr 0 0) (Ptr 1 0) 3)\<lparr>pr_status := Some 1\<rparr>"

definition load_proc :: proc_t where
  "load_proc = get_proc (Ptr 0 0) 5 2"

definition service :: "nat list \<Rightarrow> u64 \<Rightarrow> orca" where
  "service slots n =
     \<lparr>or_mem = service_mem, or_procs = (\<lambda>_. None)(100 \<mapsto> store_proc, 101 \<mapsto> load_proc),
      or_outs = (\<lambda>_. None)(5 \<mapsto> NULL), or_stats = (\<lambda>_. None)(1 \<mapsto> 7, 2 \<mapsto> 7),
      or_shards = [service_shard slots n]\<rparr>"

lemma service_ok: "shard_ok service_mem (service_shard slots n) 10 11"
  "sh_load (service_shard slots n) = 0" "sh_bound (service_shard slots n) = 4"
  "sh_view service_mem (service_shard slots n) = (\<lambda>_. None)"
proof -
  have t: "hm_ok service_mem (demo_table 4)" "hm_view service_mem (demo_table 4) = (\<lambda>_. None)"
    by (rule demo_table_ok [where b = 2]; simp)+
  have k: "keys_where Q (demo_table 4)" for Q
    by (simp add: keys_where_def demo_table_def occ_def empty_node_def)
  show "shard_ok service_mem (service_shard slots n) 10 11"
    using t(1) k by (simp add: shard_ok_def service_shard_def arena_in_def arena_ok_def service_mem_def zeros_def)
  show "sh_load (service_shard slots n) = 0" "sh_bound (service_shard slots n) = 4"
    "sh_view service_mem (service_shard slots n) = (\<lambda>_. None)"
    using t(2) by (simp_all add: sh_load_def sh_bound_def sh_view_def service_shard_def demo_table_def hm_bound_def)
qed

lemma service_put_ready: "put_ready service_mem (service_shard slots n) 10 store_proc [97] [120, 121, 122]"
proof -
  have "storable_key [97]" by (simp add: storable_key_def FNV_1a_def fnv_step_def)
  then show ?thesis
    using service_ok(2,3) [of slots n]
    by (simp add: put_ready_def service_shard_def store_proc_def insert_proc_def fits_def rounded_def
        service_mem_def c_string_def mem_block_def mem_read_def)
qed

lemma service_next:
  "next_request (service [100, 101, 0, 0] 2) 0 (service_shard [100, 101, 0, 0] 2) 100 store_proc [101]"
  by (auto simp: next_request_def service_def service_shard_def rb_ok_def rb_count_def rb_list_def upt_rec
      intro: exI [of _ 2])

text \<open>
  A store request with a live status cell is served without fault: the worker copies key and
  value into the arenas, the shard's map gains exactly that key with a pointer to a copy of the
  value, the values stored before keep their bytes, the shard stays well formed, and the client
  sees status 0 and \<open>done\<close> set.
\<close>

theorem shard_store_served:
  assumes "next_request st i s a p rest" "pr_op p = OP_PUT"
    and "pr_status p = Some c" "or_stats st c = Some old"
    and "shard_ok (or_mem st) s kb vb" "put_ready (or_mem st) s kb p k data"
  shows "\<exists>st' s' v. shard_worker st i = Some (Inr st') \<and> or_shards st' ! i = s'
    \<and> or_stats st' c = Some 0 \<and> or_procs st' a = Some (p\<lparr>pr_done := 1\<rparr>)
    \<and> shard_ok (or_mem st') s' kb vb \<and> rb_list (sh_ring s') = rest
    \<and> sh_view (or_mem st') s' = (sh_view (or_mem st) s)(k \<mapsto> v)
    \<and> mem_read (or_mem st') v (unat (pr_val_len p)) = Inr data
    \<and> (\<forall>va. sh_val_arena s = Some va \<longrightarrow> same_below (or_mem st) (or_mem st') vb (unat (arena_offset va)))"
proof -
  obtain st' s' v where "shard_worker st i = Some (Inr st')"
    "or_stats st' = (or_stats st)(c \<mapsto> 0)" "or_procs st' = (or_procs st)(a \<mapsto> p\<lparr>pr_done := 1\<rparr>)"
    "or_shards st' ! i = s'" "shard_ok (or_mem st') s' kb vb" "rb_list (sh_ring s') = rest"
    "sh_view (or_mem st') s' = (sh_view (or_mem st) s)(k \<mapsto> v)"
    "mem_read (or_mem st') v (unat (pr_val_len p)) = Inr data"
    "\<forall>va. sh_val_arena s = Some va \<longrightarrow> same_below (or_mem st) (or_mem st') vb (unat (arena_offset va))"
    using put_round [OF assms] by blast
  then show ?thesis by (intro exI [of _ st'] exI [of _ s'] exI [of _ v]) simp
qed

theorem shard_store_served_witness:
  "\<exists>st' v. shard_worker (service [100, 101, 0, 0] 2) 0 = Some (Inr st') \<and> or_stats st' 1 = Some 0
    \<and> sh_view (or_mem st') (or_shards st' ! 0) = [[97] \<mapsto> v]
    \<and> mem_read (or_mem st') v 3 = Inr [120, 121, 122]"
proof -
  let ?st = "service [100, 101, 0, 0] 2" and ?s = "service_shard [100, 101, 0, 0] 2"
  have m: "or_mem ?st = service_mem" and o: "or_stats ?st 1 = Some 7" by (simp_all add: service_def)
  have p: "pr_op store_proc = OP_PUT" "pr_status store_proc = Some 1" "unat (pr_val_len store_proc) = 3"
    by (simp_all add: store_proc_def insert_proc_def)
  from shard_store_served [OF service_next p(1,2) o, unfolded m, OF service_ok(1) service_put_ready]
  show ?thesis using p(3) service_ok(4) [of "[100, 101, 0, 0]" 2] by auto
qed

text \<open>
  A store followed by a load, through the ring, the worker, the table and the arenas: the
  client of the load gets a pointer to exactly the bytes that were stored.
\<close>

theorem shard_store_then_load:
  assumes "next_request st i s a p (b # rest)" "pr_op p = OP_PUT"
    and "pr_status p = Some c" "or_stats st c = Some old"
    and "shard_ok (or_mem st) s kb vb" "put_ready (or_mem st) s kb p k data"
    and "b \<noteq> a" "or_procs st b = Some q" "pr_op q = OP_GET" "pr_status q = Some e" "or_stats st e = Some old'"
    and "pr_out_val q = Some d" "or_outs st d = Some w" "sh_load s + 1 < sh_bound s"
    and "pr_key q = Ptr x off" "x \<noteq> kb" "x \<noteq> vb" "c_string (or_mem st) (pr_key q) = Inr k"
  shows "\<exists>st1 st2 v. shard_worker st i = Some (Inr st1) \<and> shard_worker st1 i = Some (Inr st2)
    \<and> or_outs st2 d = Some v \<and> mem_read (or_mem st2) v (unat (pr_val_len p)) = Inr data
    \<and> or_procs st2 b = Some (q\<lparr>pr_done := 1\<rparr>)"
proof -
  obtain st1 s1 v where w: "shard_worker st i = Some (Inr st1)"
    "or_stats st1 = (or_stats st)(c \<mapsto> 0)" "or_procs st1 = (or_procs st)(a \<mapsto> p\<lparr>pr_done := 1\<rparr>)"
    "or_outs st1 = or_outs st" "i < length (or_shards st1)" "or_shards st1 ! i = s1"
    "shard_ok (or_mem st1) s1 kb vb" "rb_ok (sh_ring s1)" "rb_list (sh_ring s1) = b # rest"
    "sh_view (or_mem st1) s1 = (sh_view (or_mem st) s)(k \<mapsto> v)"
    "mem_read (or_mem st1) v (unat (pr_val_len p)) = Inr data"
    "\<And>y. y \<noteq> kb \<Longrightarrow> y \<noteq> vb \<Longrightarrow> blocks (or_mem st1) y = blocks (or_mem st) y"
    "sh_bound s1 = sh_bound s" "sh_load s1 \<le> sh_load s + 1"
    using put_round [OF assms(1-6)] by blast
  have n: "next_request st1 i s1 b q rest"
    using w(3,5,6,8,9) assms(7,8) by (simp add: next_request_def)
  have e: "\<exists>z. or_stats st1 e = Some z" using w(2) assms(11) by simp
  have str: "c_string (or_mem st1) (pr_key q) = Inr k"
    using same_block_string [OF w(12)] assms(15-18) by simp
  have len: "length k < 2 ^ 64" using assms(6) by (simp add: put_ready_def storable_key_def)
  obtain z where z: "or_stats st1 e = Some z" using e by blast
  have o: "or_outs st1 d = Some w" using w(4) assms(13) by simp
  have room: "sh_load s1 < sh_bound s1" using w(13,14) assms(14) by simp
  from get_round [OF n assms(9,10) z assms(12) o w(7) room str len]
  show ?thesis using w(1,10,11) by auto
qed

theorem shard_store_then_load_witness:
  "\<exists>st1 st2 v. shard_worker (service [100, 101, 0, 0] 2) 0 = Some (Inr st1)
    \<and> shard_worker st1 0 = Some (Inr st2) \<and> or_outs st2 5 = Some v
    \<and> mem_read (or_mem st2) v 3 = Inr [120, 121, 122]"
proof -
  let ?st = "service [100, 101, 0, 0] 2" and ?s = "service_shard [100, 101, 0, 0] 2"
  have m: "or_mem ?st = service_mem" and o: "or_stats ?st 1 = Some 7" "or_stats ?st 2 = Some 7"
    "or_outs ?st 5 = Some NULL" "or_procs ?st 101 = Some load_proc"
    by (simp_all add: service_def)
  have p: "pr_op store_proc = OP_PUT" "pr_status store_proc = Some 1" "unat (pr_val_len store_proc) = 3"
    by (simp_all add: store_proc_def insert_proc_def)
  have q: "pr_op load_proc = OP_GET" "pr_status load_proc = Some 2" "pr_out_val load_proc = Some 5"
    "pr_key load_proc = Ptr 0 0" by (simp_all add: load_proc_def get_proc_def)
  have room: "sh_load ?s + 1 < sh_bound ?s" using service_ok(2,3) by simp
  have str: "c_string service_mem (pr_key load_proc) = Inr [97]"
    by (simp add: q(4) service_mem_def c_string_def mem_block_def)
  have ne: "(101::nat) \<noteq> 100" "(0::nat) \<noteq> 10" "(0::nat) \<noteq> 11" by simp_all
  from shard_store_then_load [OF service_next p(1,2) o(1), unfolded m, OF service_ok(1) service_put_ready
      ne(1) o(4) q(1,2) o(2) q(3) o(3) room q(4) ne(2,3) str]
  show ?thesis using p(3) by auto
qed

text \<open>
  C31. After \<open>shard_init\<close> with enough memory and threads there are \<open>nslave\<close> shards, each well
  formed in the final memory, with an empty table of capacity 65536, room in both arenas and an
  empty ring of capacity 1024.
\<close>

theorem shard_init_ok:
  assumes "256 * nslave + nslave * shard_bytes \<le> avail m" "\<forall>i < nslave. spawn i"
  shows "\<exists>st. shard_init nslave fill pfill spawn m = Inr st \<and> length (or_shards st) = nslave
    \<and> (\<forall>s \<in> set (or_shards st). shard_fresh (or_mem st) s)"
proof -
  let ?m = "m\<lparr>avail := avail m - 256 * nslave\<rparr>"
  have "length [0..<nslave] * shard_bytes \<le> avail ?m" using assms(1) by simp
  then obtain m' ss where "shard_init_loop fill pfill spawn [0..<nslave] ?m [] = (m', ss)"
    "length ss = nslave" "\<forall>s \<in> set ss. shard_fresh m' s"
    using init_loop_ok [of "[0..<nslave]" ?m spawn "[]" fill pfill] assms(2) by auto
  then show ?thesis
    using assms(1) by (simp add: shard_init_def mem_reserve_def)
qed

theorem shard_init_ok_witness:
  "\<exists>st. shard_init 2 (\<lambda>_. 0) (\<lambda>_. 0) (\<lambda>_. True) (mem_init (512 + 2 * shard_bytes)) = Inr st
    \<and> length (or_shards st) = 2"
  using shard_init_ok [of 2 "mem_init (512 + 2 * shard_bytes)" "\<lambda>_. True" "\<lambda>_. 0" "\<lambda>_. 0"]
  by (auto simp: mem_init_def)


lemma service_shard_0: "c_string (or_mem (service slots n)) (Ptr 0 0) = Inr [97]"
  "shard_id 1 [97] = Inr 0"
  by (simp_all add: service_def service_mem_def c_string_def mem_block_def shard_id_def)

lemma service_ring: "rb_ok (sh_ring (service_shard [0, 0, 0, 0] 0))"
  "rb_list (sh_ring (service_shard [0, 0, 0, 0] 0)) = []"
  "rb_cap (sh_ring (service_shard [0, 0, 0, 0] 0)) = 4" "rb_rp (sh_ring (service_shard [0, 0, 0, 0] 0)) = 0"
  by (auto simp: service_shard_def rb_ok_def rb_count_def rb_list_def intro: exI [of _ 2])




text \<open>
  Once \<open>cap\<close> requests have been taken from a shard's ring, \<open>db_get\<close> never returns: the ring
  is never full again, so the loop that pushes until the write fails runs for ever.
\<close>

theorem db_get_never_returns:
  assumes "c_string (or_mem st) key = Inr k" "shard_id nslave k = Inr i"
    and "i < length (or_shards st)" "lapped (sh_ring (or_shards st ! i))"
  shows "db_get_push st nslave a res_var stat key = None"
  using assms push_never_ends [OF assms(4)] by (simp add: db_get_push_def shard_at_def)

theorem db_get_never_returns_witness:
  "db_get_push ((service [] 0)\<lparr>or_shards := [(service_shard [] 0)\<lparr>sh_ring := lapped_ring\<rparr>]\<rparr>)
     1 102 6 3 (Ptr 0 0) = None"
proof (rule db_get_never_returns)
  show "shard_id 1 [97] = Inr 0" by (rule service_shard_0)
qed (use service_shard_0(1) in \<open>auto simp: service_def lapped_def lapped_ring_def intro: exI [of _ 2]\<close>)

text \<open>The entry point of the library never gets past its first store.\<close>

lemma orca_init_faults: "\<exists>e. orca_init nslave fill pfill spawn m = Inl e"
  by (cases "db_start nslave fill pfill spawn m") (simp_all add: orca_init_def orca_internal_def)

end
