(* ===== verification/Shard_Linear.thy ===== *)
theory Shard_Linear
  imports Shard_Service
begin

text \<open>
  A shard as a map behind a queue: the worker of \<^verbatim>\<open>src/core/shard/shard.c\<close> against the client that writes
  requests to the ring of \<^verbatim>\<open>ringbuffer.c\<close> at any moments, as a step relation, and its refinement of the
  sequential map, requests in the order they were written.
\<close>

section \<open>The abstract map\<close>

datatype shard_req = SPut bytes bytes | SGet bytes

fun req_step :: "shard_req \<Rightarrow> (bytes \<Rightarrow> bytes option) \<Rightarrow> bytes \<Rightarrow> bytes option" where
  "req_step (SPut k data) A = A(k \<mapsto> data)"
| "req_step (SGet k) A = A"

text \<open>A request in flight: the address of its \<open>proc_t\<close>, the contents, and what it asks for.\<close>

type_synonym client_req = "nat \<times> proc_t \<times> shard_req"

fun reqs_after :: "client_req list \<Rightarrow> (bytes \<Rightarrow> bytes option) \<Rightarrow> bytes \<Rightarrow> bytes option" where
  "reqs_after [] A = A"
| "reqs_after ((a, p, r) # rs) A = reqs_after rs (req_step r A)"

lemma reqs_after_snoc: "reqs_after (rs @ [(a, p, r)]) A = req_step r (reqs_after rs A)"
  by (induction rs A rule: reqs_after.induct) simp_all

text \<open>
  \<open>v\<close> is what a load gets that finds \<open>x\<close>: \<open>NULL\<close>, or a pointer into the part of the value arena in use where
  the bytes are.
\<close>

definition holds :: "mem \<Rightarrow> nat \<Rightarrow> shard_t \<Rightarrow> ptr \<Rightarrow> bytes option \<Rightarrow> bool" where
  "holds m vb s v x \<longleftrightarrow>
     (case x of
        None \<Rightarrow> v = NULL
      | Some data \<Rightarrow> (\<exists>off. v = Ptr vb off \<and> off + length data \<le> val_used s \<and> mem_read m v (length data) = Inr data))"

definition stands_for_map :: "mem \<Rightarrow> nat \<Rightarrow> shard_t \<Rightarrow> (bytes \<Rightarrow> bytes option) \<Rightarrow> bool" where
  "stands_for_map m vb s A \<longleftrightarrow> (\<forall>k. holds m vb s (case sh_view m s k of None \<Rightarrow> NULL | Some v \<Rightarrow> v) (A k))"

section \<open>Requests and their frames\<close>

text \<open>A pointer to an object of the client, not of the shard.\<close>

definition away :: "nat \<Rightarrow> nat \<Rightarrow> ptr \<Rightarrow> bool" where
  "away kb vb p \<longleftrightarrow> (\<exists>b off. p = Ptr b off \<and> b \<noteq> kb \<and> b \<noteq> vb)"

text \<open>The frame at \<open>a\<close> is live and holds the request \<open>r\<close>, with key, value and the cells for the answer.\<close>

fun asks :: "mem \<Rightarrow> nat \<Rightarrow> nat \<Rightarrow> proc_t \<Rightarrow> shard_req \<Rightarrow> bool" where
  "asks m kb vb p (SPut k data) \<longleftrightarrow> pr_op p = OP_PUT \<and> away kb vb (pr_key p) \<and> c_string m (pr_key p) = Inr k \<and> storable_key k
     \<and> away kb vb (pr_value p) \<and> mem_read m (pr_value p) (unat (pr_val_len p)) = Inr data \<and> unat (pr_val_len p) < 2 ^ 63 - 8"
| "asks m kb vb p (SGet k) \<longleftrightarrow> pr_op p = OP_GET \<and> away kb vb (pr_key p) \<and> c_string m (pr_key p) = Inr k \<and> length k < 2 ^ 64
     \<and> pr_out_val p \<noteq> None"

definition live :: "orca \<Rightarrow> nat \<Rightarrow> nat \<Rightarrow> client_req \<Rightarrow> bool" where
  "live st kb vb = (\<lambda>(a, p, r). or_procs st a = Some p \<and> asks (or_mem st) kb vb p r
     \<and> (\<exists>c x. pr_status p = Some c \<and> or_stats st c = Some x)
     \<and> (\<forall>d. pr_out_val p = Some d \<longrightarrow> or_outs st d \<noteq> None))"

text \<open>What the requests need of the arenas.\<close>

fun key_need :: "shard_req \<Rightarrow> nat" where
  "key_need (SPut k data) = rounded (of_nat (length k) + 1)"
| "key_need (SGet k) = 0"

definition val_need :: "client_req \<Rightarrow> nat" where
  "val_need = (\<lambda>(a, p, r). case r of SPut k data \<Rightarrow> rounded (pr_val_len p) | SGet k \<Rightarrow> 0)"

definition room_for :: "shard_t \<Rightarrow> client_req list \<Rightarrow> bool" where
  "room_for s rs \<longleftrightarrow> sh_load s + length rs < sh_bound s
     \<and> key_used s + (\<Sum>(a, p, r)\<leftarrow>rs. key_need r) \<le> key_size s \<and> val_used s + (\<Sum>x\<leftarrow>rs. val_need x) \<le> val_size s"

text \<open>The request is answered: status 0, \<open>done\<close> set, and for a load what the map \<open>A\<close> has under the key.\<close>

definition answered_by :: "orca \<Rightarrow> nat \<Rightarrow> shard_t \<Rightarrow> (bytes \<Rightarrow> bytes option) \<Rightarrow> client_req \<Rightarrow> bool" where
  "answered_by st vb s A = (\<lambda>(a, p, r). or_procs st a = Some (p\<lparr>pr_done := 1\<rparr>)
     \<and> (\<exists>c. pr_status p = Some c \<and> or_stats st c = Some 0)
     \<and> (case r of SPut k data \<Rightarrow> True
        | SGet k \<Rightarrow> (\<exists>d v. pr_out_val p = Some d \<and> or_outs st d = Some v \<and> holds (or_mem st) vb s v (A k))))"

fun all_answered :: "orca \<Rightarrow> nat \<Rightarrow> shard_t \<Rightarrow> client_req list \<Rightarrow> (bytes \<Rightarrow> bytes option) \<Rightarrow> bool" where
  "all_answered st vb s [] A = True"
| "all_answered st vb s (x # rs) A \<longleftrightarrow> answered_by st vb s A x \<and> all_answered st vb s rs (req_step (snd (snd x)) A)"

lemma all_answered_snoc:
  "all_answered st vb s (rs @ [x]) A \<longleftrightarrow> all_answered st vb s rs A \<and> answered_by st vb s (reqs_after rs A) x"
  by (induction rs A rule: reqs_after.induct) simp_all

section \<open>What a round leaves as it was\<close>

definition stays :: "nat \<Rightarrow> nat \<Rightarrow> mem \<Rightarrow> mem \<Rightarrow> shard_t \<Rightarrow> shard_t \<Rightarrow> bool" where
  "stays kb vb m m' s s' \<longleftrightarrow> same_below m m' vb (val_used s) \<and> val_used s \<le> val_used s'
     \<and> (\<forall>b. b \<noteq> kb \<and> b \<noteq> vb \<longrightarrow> blocks m' b = blocks m b)"

lemma holds_stays: "stays kb vb m m' s s' \<Longrightarrow> holds m vb s v x \<Longrightarrow> holds m' vb s' v x"
  by (cases x) (auto simp: holds_def stays_def same_below_def)

lemma away_stays:
  assumes "stays kb vb m m' s s'" "away kb vb q"
  shows "c_string m' q = c_string m q" "mem_read m' q n = mem_read m q n"
proof -
  obtain b off where q: "q = Ptr b off" "b \<noteq> kb" "b \<noteq> vb" using assms(2) by (auto simp: away_def)
  then have "blocks m' b = blocks m b" using assms(1) by (simp add: stays_def)
  then show "c_string m' q = c_string m q" "mem_read m' q n = mem_read m q n"
    unfolding q(1) by (rule same_block_string, rule same_block_read)
qed

lemma asks_stays:
  assumes "stays kb vb m m' s s'" "asks m kb vb p r"
  shows "asks m' kb vb p r"
  using assms(2) away_stays [OF assms(1)] by (cases r) simp_all

lemma live_stays:
  assumes "stays kb vb (or_mem st) (or_mem st') s s'" "live st kb vb (b, q, r)" "a \<noteq> b"
    and "or_procs st' = (or_procs st)(a \<mapsto> p')" "or_stats st' = (or_stats st)(c \<mapsto> 0)" "\<forall>d. or_outs st d \<noteq> None \<longrightarrow> or_outs st' d \<noteq> None"
  shows "live st' kb vb (b, q, r)"
  using assms asks_stays [OF assms(1)] by (auto simp: live_def)

lemma answered_stays:
  assumes "stays kb vb (or_mem st) (or_mem st') s s'" "answered_by st vb s A (b, q, r)" "a \<noteq> b"
    and "or_procs st' = (or_procs st)(a \<mapsto> p')" "or_stats st' = (or_stats st)(c \<mapsto> 0)"
    and "\<forall>d. pr_out_val q = Some d \<longrightarrow> or_outs st' d = or_outs st d"
  shows "answered_by st' vb s' A (b, q, r)"
  using assms holds_stays [OF assms(1)] by (fastforce simp: answered_by_def split: shard_req.splits)

lemma all_answered_stays:
  assumes "stays kb vb (or_mem st) (or_mem st') s s'" "a \<notin> fst ` set rs"
    and "or_procs st' = (or_procs st)(a \<mapsto> p')" "or_stats st' = (or_stats st)(c \<mapsto> 0)"
    and "\<forall>(b, q, r) \<in> set rs. \<forall>d. pr_out_val q = Some d \<longrightarrow> or_outs st' d = or_outs st d"
  shows "all_answered st vb s rs A \<Longrightarrow> all_answered st' vb s' rs A"
  using assms(2,5)
proof (induction rs arbitrary: A)
  case (Cons x rs)
  obtain b q r where x: "x = (b, q, r)" by (cases x)
  have "answered_by st' vb s' A (b, q, r)"
    using answered_stays [OF assms(1) _ _ assms(3,4), of A b q r] Cons.prems x by auto
  then show ?case using Cons x by auto
qed simp

section \<open>One round of the worker\<close>

definition serves_next :: "orca \<Rightarrow> orca \<Rightarrow> nat \<Rightarrow> nat \<Rightarrow> nat \<Rightarrow> (bytes \<Rightarrow> bytes option) \<Rightarrow> client_req \<Rightarrow> nat list \<Rightarrow> bool" where
  "serves_next st st' i kb vb A = (\<lambda>(a, p, r) rest. i < length (or_shards st')
     \<and> rb_ok (sh_ring (or_shards st' ! i)) \<and> rb_list (sh_ring (or_shards st' ! i)) = rest
     \<and> shard_ok (or_mem st') (or_shards st' ! i) kb vb \<and> stands_for_map (or_mem st') vb (or_shards st' ! i) (req_step r A)
     \<and> stays kb vb (or_mem st) (or_mem st') (or_shards st ! i) (or_shards st' ! i)
     \<and> or_procs st' = (or_procs st)(a \<mapsto> p\<lparr>pr_done := 1\<rparr>) \<and> (\<exists>c. or_stats st' = (or_stats st)(c \<mapsto> 0))
     \<and> (\<forall>d. pr_out_val p \<noteq> Some d \<longrightarrow> or_outs st' d = or_outs st d) \<and> (\<forall>d. or_outs st d \<noteq> None \<longrightarrow> or_outs st' d \<noteq> None)
     \<and> answered_by st' vb (or_shards st' ! i) A (a, p, r)
     \<and> (\<forall>rs. room_for (or_shards st ! i) ((a, p, r) # rs) \<longrightarrow> room_for (or_shards st' ! i) rs))"

lemma put_ready_room:
  assumes "asks m kb vb p (SPut k data)" "shard_ok m s kb vb" "room_for s ((a, p, SPut k data) # rs)"
  shows "put_ready m s kb p k data"
proof -
  obtain ka va where s: "sh_key_arena s = Some ka" "sh_val_arena s = Some va" using assms(2) by (rule shard_ok_cases)
  have k: "unat (of_nat (length k) + 1 :: u64) < 2 ^ 63 - 8"
    using key_plus_nul [of k] assms(1) by (simp add: storable_key_def)
  have "fits ka (of_nat (length k) + 1)" "fits va (pr_val_len p)"
    using assms(1,3) s k by (simp_all add: room_for_def val_need_def fits_def key_used_def key_size_def val_used_def val_size_def)
  then show ?thesis using assms(1,3) s
    by (auto simp: put_ready_def room_for_def away_def)
qed

lemma serve_put:
  assumes "next_request st i s a p rest" "live st kb vb (a, p, SPut k data)" "shard_ok (or_mem st) s kb vb"
    and "stands_for_map (or_mem st) vb s A" "room_for s ((a, p, SPut k data) # rs)"
  shows "\<exists>st'. shard_worker st i = Some (Inr st') \<and> serves_next st st' i kb vb A (a, p, SPut k data) rest"
proof -
  obtain c x where c: "pr_status p = Some c" "or_stats st c = Some x" and as: "asks (or_mem st) kb vb p (SPut k data)"
    using assms(2) by (auto simp: live_def)
  have o: "pr_op p = OP_PUT" using as by simp
  have s: "or_shards st ! i = s" using assms(1) by (simp add: next_request_def)
  obtain st' s' v where w: "shard_worker st i = Some (Inr st')" "or_stats st' = (or_stats st)(c \<mapsto> 0)"
    "or_procs st' = (or_procs st)(a \<mapsto> p\<lparr>pr_done := 1\<rparr>)" "or_outs st' = or_outs st" "i < length (or_shards st')"
    "or_shards st' ! i = s'" "shard_ok (or_mem st') s' kb vb" "rb_ok (sh_ring s')" "rb_list (sh_ring s') = rest"
    "sh_view (or_mem st') s' = (sh_view (or_mem st) s)(k \<mapsto> v)" "mem_read (or_mem st') v (unat (pr_val_len p)) = Inr data"
    "\<And>va. sh_val_arena s = Some va \<Longrightarrow> same_below (or_mem st) (or_mem st') vb (unat (arena_offset va))"
    "\<And>b. b \<noteq> kb \<Longrightarrow> b \<noteq> vb \<Longrightarrow> blocks (or_mem st') b = blocks (or_mem st) b"
    "sh_bound s' = sh_bound s" "sh_load s' \<le> sh_load s + 1" "v = Ptr vb (val_used s)" "arenas_advance s s' k (pr_val_len p)"
    using put_round [OF assms(1) o c assms(3) put_ready_room [OF as assms(3,5)]] by blast
  obtain va where va: "sh_val_arena s = Some va" using assms(3) by (rule shard_ok_cases)
  have adv: "val_used s' = val_used s + rounded (pr_val_len p)" using w(17) by (simp add: arenas_advance_def)
  have stays: "stays kb vb (or_mem st) (or_mem st') s s'"
    using w(12) [OF va] w(13) va adv by (simp add: stays_def val_used_def)
  have len: "length data = unat (pr_val_len p)" using mem_read_length [OF w(11)] .
  have new: "holds (or_mem st') vb s' v (Some data)"
    using w(11,16) adv len rounded_ge [of "pr_val_len p"] by (simp add: holds_def)
  have "stands_for_map (or_mem st') vb s' (req_step (SPut k data) A)"
    unfolding stands_for_map_def
  proof
    fix q
    have "holds (or_mem st) vb s (case sh_view (or_mem st) s q of None \<Rightarrow> NULL | Some v \<Rightarrow> v) (A q)"
      using assms(4) by (simp add: stands_for_map_def)
    then show "holds (or_mem st') vb s' (case sh_view (or_mem st') s' q of None \<Rightarrow> NULL | Some v \<Rightarrow> v) (req_step (SPut k data) A q)"
      using new holds_stays [OF stays] w(10) by simp
  qed
  moreover have "room_for s' rs'" if "room_for s ((a, p, SPut k data) # rs')" for rs'
    using that w(14,15,17) by (simp add: room_for_def arenas_advance_def val_need_def)
  moreover have "answered_by st' vb s' A (a, p, SPut k data)" using w(2,3) c(1) by (simp add: answered_by_def)
  ultimately show ?thesis using w(1-9) s stays by (auto simp: serves_next_def)
qed

lemma serve_get:
  assumes "next_request st i s a p rest" "live st kb vb (a, p, SGet k)" "shard_ok (or_mem st) s kb vb"
    and "stands_for_map (or_mem st) vb s A" "room_for s ((a, p, SGet k) # rs)"
  shows "\<exists>st'. shard_worker st i = Some (Inr st') \<and> serves_next st st' i kb vb A (a, p, SGet k) rest"
proof -
  obtain c x d w where c: "pr_status p = Some c" "or_stats st c = Some x" "pr_out_val p = Some d" "or_outs st d = Some w"
    and as: "pr_op p = OP_GET" "c_string (or_mem st) (pr_key p) = Inr k" "length k < 2 ^ 64"
    using assms(2) by (auto simp: live_def)
  have s: "or_shards st ! i = s" "i < length (or_shards st)" using assms(1) by (simp_all add: next_request_def)
  have load: "sh_load s < sh_bound s" using assms(5) by (simp add: room_for_def)
  let ?v = "case sh_view (or_mem st) s k of None \<Rightarrow> NULL | Some v \<Rightarrow> v"
  obtain ring where r: "rb_ok ring" "rb_list ring = rest" "shard_worker st i = Some (Inr
    ((set_shard st i (s\<lparr>sh_ring := ring\<rparr>))\<lparr>or_outs := (or_outs st)(d \<mapsto> ?v), or_stats := (or_stats st)(c \<mapsto> 0),
       or_procs := (or_procs st)(a \<mapsto> p\<lparr>pr_done := 1\<rparr>)\<rparr>))"
    using get_round [OF assms(1) as(1) c assms(3) load as(2,3)] by blast
  have h: "holds (or_mem st) vb (s\<lparr>sh_ring := ring\<rparr>) v y = holds (or_mem st) vb s v y" for v y
    by (simp add: holds_def split: option.split)
  have "stays kb vb (or_mem st) (or_mem st) s (s\<lparr>sh_ring := ring\<rparr>)" by (simp add: stays_def same_below_def)
  moreover have "stands_for_map (or_mem st) vb (s\<lparr>sh_ring := ring\<rparr>) A" using assms(4) h by (simp add: stands_for_map_def)
  moreover have "holds (or_mem st) vb (s\<lparr>sh_ring := ring\<rparr>) ?v (A k)" using assms(4) h by (simp add: stands_for_map_def)
  moreover have "room_for (s\<lparr>sh_ring := ring\<rparr>) rs'" if "room_for s ((a, p, SGet k) # rs')" for rs'
    using that by (simp add: room_for_def val_need_def)
  ultimately show ?thesis using r c(1,3) s assms(3) by (auto simp: serves_next_def answered_by_def)
qed

lemma serve_next:
  assumes "next_request st i s a p rest" "live st kb vb (a, p, r)" "shard_ok (or_mem st) s kb vb"
    and "stands_for_map (or_mem st) vb s A" "room_for s ((a, p, r) # rs)"
  shows "\<exists>st'. shard_worker st i = Some (Inr st') \<and> serves_next st st' i kb vb A (a, p, r) rest"
proof (cases r)
  case (SPut k data)
  then show ?thesis using serve_put [OF assms(1) _ assms(3,4)] assms(2,5) by simp
next
  case (SGet k)
  then show ?thesis using serve_get [OF assms(1) _ assms(3,4)] assms(2,5) by simp
qed

section \<open>Client and worker\<close>

text \<open>
  The steps of a shard: the client writes the next request to the ring, when there is room, or the worker
  does a round. The requests not yet written are the first component.
\<close>

inductive shard_step :: "nat \<Rightarrow> nat list \<times> orca \<Rightarrow> nat list \<times> orca \<Rightarrow> bool" for i where
  push: "Suc (length (rb_list (sh_ring (or_shards st ! i)))) < unat (rb_cap (sh_ring (or_shards st ! i))) \<Longrightarrow>
    rBuff_write (sh_ring (or_shards st ! i)) a = Inr (True, ring) \<Longrightarrow>
    shard_step i (a # todo, st) (todo, set_shard st i ((or_shards st ! i)\<lparr>sh_ring := ring\<rparr>))"
| work: "shard_worker st i = Some (Inr st') \<Longrightarrow> shard_step i (todo, st) (todo, st')"

text \<open>All requests are live, at addresses of their own, and no two have the same cell for a result.\<close>

definition client_ok :: "orca \<Rightarrow> nat \<Rightarrow> nat \<Rightarrow> client_req list \<Rightarrow> bool" where
  "client_ok st kb vb reqs \<longleftrightarrow> list_all (live st kb vb) reqs \<and> distinct (map fst reqs)
     \<and> sorted_wrt (\<lambda>(a, p, r) (b, q, t). \<forall>d. pr_out_val p = Some d \<longrightarrow> pr_out_val q \<noteq> Some d) reqs"

definition in_step :: "nat \<Rightarrow> nat \<Rightarrow> nat \<Rightarrow> (bytes \<Rightarrow> bytes option) \<Rightarrow> client_req list \<Rightarrow> client_req list \<Rightarrow> client_req list \<Rightarrow> orca \<Rightarrow> bool" where
  "in_step i kb vb A served pend rest st \<longleftrightarrow> i < length (or_shards st)
     \<and> rb_ok (sh_ring (or_shards st ! i)) \<and> rb_list (sh_ring (or_shards st ! i)) = map fst pend
     \<and> shard_ok (or_mem st) (or_shards st ! i) kb vb
     \<and> stands_for_map (or_mem st) vb (or_shards st ! i) (reqs_after served A)
     \<and> all_answered st vb (or_shards st ! i) served A
     \<and> list_all (live st kb vb) (pend @ rest) \<and> room_for (or_shards st ! i) (pend @ rest)"

lemma in_step_work:
  assumes "in_step i kb vb A served ((a, p, r) # pend) rest st" "distinct (map fst (served @ (a, p, r) # pend @ rest))"
    and "sorted_wrt (\<lambda>(a, p, r) (b, q, t). \<forall>d. pr_out_val p = Some d \<longrightarrow> pr_out_val q \<noteq> Some d) (served @ (a, p, r) # pend @ rest)"
  shows "\<exists>st'. shard_worker st i = Some (Inr st') \<and> in_step i kb vb A (served @ [(a, p, r)]) pend rest st'"
proof -
  let ?s = "or_shards st ! i"
  have l: "live st kb vb (a, p, r)" and n: "next_request st i ?s a p (map fst pend)"
    using assms(1) by (simp_all add: in_step_def next_request_def live_def)
  have o: "shard_ok (or_mem st) ?s kb vb" "stands_for_map (or_mem st) vb ?s (reqs_after served A)"
    "room_for ?s ((a, p, r) # pend @ rest)" "all_answered st vb ?s served A"
    using assms(1) by (simp_all add: in_step_def)
  obtain st' where st': "shard_worker st i = Some (Inr st')"
    "serves_next st st' i kb vb (reqs_after served A) (a, p, r) (map fst pend)"
    using serve_next [OF n l o(1-3)] by blast
  let ?s' = "or_shards st' ! i"
  obtain c where w: "i < length (or_shards st')" "rb_ok (sh_ring ?s')" "rb_list (sh_ring ?s') = map fst pend"
    "shard_ok (or_mem st') ?s' kb vb" "stands_for_map (or_mem st') vb ?s' (req_step r (reqs_after served A))"
    "stays kb vb (or_mem st) (or_mem st') ?s ?s'" "or_procs st' = (or_procs st)(a \<mapsto> p\<lparr>pr_done := 1\<rparr>)"
    "or_stats st' = (or_stats st)(c \<mapsto> 0)" "\<And>d. pr_out_val p \<noteq> Some d \<Longrightarrow> or_outs st' d = or_outs st d"
    "\<forall>d. or_outs st d \<noteq> None \<longrightarrow> or_outs st' d \<noteq> None" "answered_by st' vb ?s' (reqs_after served A) (a, p, r)"
    "room_for ?s' (pend @ rest)"
    using st'(2) o(3) by (auto simp: serves_next_def)
  have "live st' kb vb (b, q, t)" if "(b, q, t) \<in> set (pend @ rest)" for b q t
  proof (rule live_stays [OF w(6) _ _ w(7,8,10)])
    show "live st kb vb (b, q, t)" using assms(1) that by (auto simp: in_step_def list_all_iff)
    have "a \<notin> fst ` set (pend @ rest)" using assms(2) by auto
    then show "a \<noteq> b" using that by (metis fst_conv imageI)
  qed
  moreover have "all_answered st' vb ?s' served A"
  proof (rule all_answered_stays [OF w(6) _ w(7,8) _ o(4)])
    show "a \<notin> fst ` set served" using assms(2) by auto
    show "\<forall>(b, q, t) \<in> set served. \<forall>d. pr_out_val q = Some d \<longrightarrow> or_outs st' d = or_outs st d"
      using assms(3) w(9) by (fastforce simp: sorted_wrt_append)
  qed
  ultimately have "in_step i kb vb A (served @ [(a, p, r)]) pend rest st'"
    using w by (auto simp: in_step_def list_all_iff reqs_after_snoc all_answered_snoc)
  then show ?thesis using st'(1) by blast
qed

lemma in_step_idle:
  assumes "in_step i kb vb A served [] rest st"
  shows "shard_worker st i = Some (Inr st)"
  using assms read_empty [of "sh_ring (or_shards st ! i)"]
  by (simp add: in_step_def shard_worker_def shard_at_def)

lemma in_step_push:
  assumes "in_step i kb vb A served pend ((a, p, r) # rest) st"
    and "Suc (length (rb_list (sh_ring (or_shards st ! i)))) < unat (rb_cap (sh_ring (or_shards st ! i)))"
    and "rBuff_write (sh_ring (or_shards st ! i)) a = Inr (True, ring)"
  shows "in_step i kb vb A served (pend @ [(a, p, r)]) rest (set_shard st i ((or_shards st ! i)\<lparr>sh_ring := ring\<rparr>))"
proof -
  let ?s = "or_shards st ! i"
  have o: "rb_ok (sh_ring ?s)" "length (rb_list (sh_ring ?s)) < unat (rb_cap (sh_ring ?s)) - 1" "i < length (or_shards st)"
    using assms(1,2) by (auto simp: in_step_def)
  have ring: "rb_ok ring" "rb_list ring = rb_list (sh_ring ?s) @ [a]"
    using ring.enq_law [OF o(1,2), of a] assms(3) by auto
  have h: "holds m vb (?s\<lparr>sh_ring := ring\<rparr>) v y = holds m vb ?s v y" for m v y by (simp add: holds_def split: option.split)
  have st: "stands_for_map m vb (?s\<lparr>sh_ring := ring\<rparr>) B = stands_for_map m vb ?s B" for m B
    by (simp add: stands_for_map_def h)
  have an: "all_answered (set_shard st i (?s\<lparr>sh_ring := ring\<rparr>)) vb (?s\<lparr>sh_ring := ring\<rparr>) xs B = all_answered st vb ?s xs B" for xs B
    by (induction xs arbitrary: B) (auto simp: answered_by_def h split: shard_req.split)
  have "live (set_shard st i (?s\<lparr>sh_ring := ring\<rparr>)) kb vb = live st kb vb" by (simp add: live_def fun_eq_iff)
  moreover have "room_for (?s\<lparr>sh_ring := ring\<rparr>) = room_for ?s" by (simp add: room_for_def fun_eq_iff)
  ultimately show ?thesis using assms(1) ring o(3) by (simp add: in_step_def st an)
qed

text \<open>The invariant over all schedules.\<close>

definition accounts :: "nat \<Rightarrow> nat \<Rightarrow> nat \<Rightarrow> (bytes \<Rightarrow> bytes option) \<Rightarrow> client_req list \<Rightarrow> nat list \<times> orca \<Rightarrow> bool" where
  "accounts i kb vb A reqs = (\<lambda>(todo, st). \<exists>served pend rest. reqs = served @ pend @ rest \<and> todo = map fst rest
     \<and> in_step i kb vb A served pend rest st)"

lemma accountsI:
  "reqs = served @ pend @ rest \<Longrightarrow> todo = map fst rest \<Longrightarrow> in_step i kb vb A served pend rest st \<Longrightarrow>
   accounts i kb vb A reqs (todo, st)"
  unfolding accounts_def by blast

lemma shard_step_accounts:
  assumes "shard_step i x y" "accounts i kb vb A reqs x" "distinct (map fst reqs)"
    and "sorted_wrt (\<lambda>(a, p, r) (b, q, t). \<forall>d. pr_out_val p = Some d \<longrightarrow> pr_out_val q \<noteq> Some d) reqs"
  shows "accounts i kb vb A reqs y"
  using assms(1)
proof (cases rule: shard_step.cases)
  case (push st a ring todo)
  then obtain served pend rest where i: "reqs = served @ pend @ rest" "a # todo = map fst rest" "in_step i kb vb A served pend rest st"
    using assms(2) by (auto simp: accounts_def)
  then obtain p r rest' where rest: "rest = (a, p, r) # rest'" "todo = map fst rest'" by (cases rest) auto
  have "in_step i kb vb A served (pend @ [(a, p, r)]) rest' (set_shard st i ((or_shards st ! i)\<lparr>sh_ring := ring\<rparr>))"
    by (rule in_step_push [OF i(3) [unfolded rest(1)] push(3,4)])
  moreover have "reqs = served @ (pend @ [(a, p, r)]) @ rest'" using i(1) rest(1) by simp
  ultimately show ?thesis using rest(2) push(2) accountsI by blast
next
  case (work st st' todo)
  then obtain served pend rest where i: "reqs = served @ pend @ rest" "todo = map fst rest" "in_step i kb vb A served pend rest st"
    using assms(2) by (auto simp: accounts_def)
  show ?thesis
  proof (cases pend)
    case Nil
    then have "st' = st" using in_step_idle i(3) work(3) by force
    then show ?thesis using assms(2) work by simp
  next
    case (Cons z pend')
    obtain a p r where z: "z = (a, p, r)" by (cases z)
    obtain st2 where "shard_worker st i = Some (Inr st2)" "in_step i kb vb A (served @ [(a, p, r)]) pend' rest st2"
      using in_step_work [of i kb vb A served a p r pend' rest st] i assms(3,4) Cons z by auto
    moreover have "reqs = (served @ [(a, p, r)]) @ pend' @ rest" using i(1) Cons z by simp
    ultimately have "accounts i kb vb A reqs (todo, st2)" using accountsI [OF _ i(2)] by blast
    then show ?thesis using \<open>shard_worker st i = Some (Inr st2)\<close> work(2,3) by simp
  qed
qed

lemma shard_steps_account:
  assumes "(shard_step i)\<^sup>*\<^sup>* x y" "accounts i kb vb A reqs x" "distinct (map fst reqs)"
    and "sorted_wrt (\<lambda>(a, p, r) (b, q, t). \<forall>d. pr_out_val p = Some d \<longrightarrow> pr_out_val q \<noteq> Some d) reqs"
  shows "accounts i kb vb A reqs y"
  using assms by (induction rule: rtranclp_induct) (use shard_step_accounts in blast)+


definition demo_reqs :: "client_req list" where
  "demo_reqs = [(100, store_proc, SPut [97] [120, 121, 122]), (101, load_proc, SGet [97])]"

lemma demo_reqs_ok:
  "client_ok (service slots n) 10 11 demo_reqs" "room_for (service_shard slots n) demo_reqs"
  "stands_for_map service_mem 11 (service_shard slots n) (\<lambda>_. None)"
proof -
  have k: "storable_key [97]" by (simp add: storable_key_def FNV_1a_def fnv_step_def)
  show "client_ok (service slots n) 10 11 demo_reqs"
    using k by (auto simp: client_ok_def demo_reqs_def live_def service_def store_proc_def load_proc_def insert_proc_def
        get_proc_def away_def service_mem_def c_string_def mem_block_def mem_read_def)
  show "room_for (service_shard slots n) demo_reqs"
    using service_ok(2,3) [of slots n]
    by (simp add: room_for_def demo_reqs_def val_need_def key_used_def key_size_def val_used_def val_size_def
        service_shard_def rounded_def store_proc_def insert_proc_def)
  show "stands_for_map service_mem 11 (service_shard slots n) (\<lambda>_. None)"
    using service_ok(4) by (simp add: stands_for_map_def holds_def)
qed

lemma demo_pushes:
  "(shard_step 0)\<^sup>*\<^sup>* (map fst demo_reqs, service [0, 0, 0, 0] 0) ([], service [100, 101, 0, 0] 2)"
proof -
  have s: "or_shards (service slots n) ! 0 = service_shard slots n" for slots n by (simp add: service_def)
  have l: "rb_list (sh_ring (service_shard [0, 0, 0, 0] 0)) = []" "rb_list (sh_ring (service_shard [100, 0, 0, 0] 1)) = [100]"
    "unat (rb_cap (sh_ring (service_shard slots n))) = 4" for slots n
    by (simp_all add: service_shard_def rb_list_def rb_count_def)
  have w: "rBuff_write (sh_ring (service_shard [0, 0, 0, 0] 0)) 100 = Inr (True, sh_ring (service_shard [100, 0, 0, 0] 1))"
    "rBuff_write (sh_ring (service_shard [100, 0, 0, 0] 1)) 101 = Inr (True, sh_ring (service_shard [100, 101, 0, 0] 2))"
    by (simp_all add: service_shard_def rBuff_write_def rb_slot_def)
  have e: "set_shard (service slots n) 0 ((service_shard slots n)\<lparr>sh_ring := sh_ring (service_shard slots' n')\<rparr>) = service slots' n'"
    for slots n slots' n' by (simp add: service_def set_shard_def service_shard_def)
  have "shard_step 0 ([100, 101], service [0, 0, 0, 0] 0) ([101], service [100, 0, 0, 0] 1)"
    using shard_step.push [of "service [0, 0, 0, 0] 0" 0 100 _ "[101]"] l w(1) by (simp add: s e)
  moreover have "shard_step 0 ([101], service [100, 0, 0, 0] 1) ([], service [100, 101, 0, 0] 2)"
    using shard_step.push [of "service [100, 0, 0, 0] 1" 0 101 _ "[]"] l w(2) by (simp add: s e)
  ultimately show ?thesis by (simp add: demo_reqs_def)
qed


end
