(* ===== verification/C_Stdio.thy ===== *)
theory C_Stdio
  imports C_Memory
begin

text \<open>
  The parts of \<^verbatim>\<open>stdio.h\<close> and \<^verbatim>\<open>stdlib.h\<close> the storage, HTTP and manager code uses: decimal
  printing and scanning, \<open>fgets\<close> into a fixed array, string scans inside an array, and output
  streams with their three stages (the buffer of the process, the file of the system, what is on
  the disk for certain).
\<close>

section \<open>Characters and decimal numbers\<close>

definition is_space :: "byte \<Rightarrow> bool" where
  "is_space b \<longleftrightarrow> b = 32 \<or> (9 \<le> b \<and> b \<le> 13)"

definition is_digit :: "byte \<Rightarrow> bool" where
  "is_digit b \<longleftrightarrow> 48 \<le> b \<and> b \<le> 57"

fun dec :: "nat \<Rightarrow> bytes" where
  "dec n = (if n < 10 then [48 + of_nat n] else dec (n div 10) @ [48 + of_nat (n mod 10)])"

declare dec.simps [simp del]

definition digit_val :: "byte \<Rightarrow> nat" where
  "digit_val b = unat b - 48"

definition digits_val :: "bytes \<Rightarrow> nat" where
  "digits_val ds = foldl (\<lambda>a d. 10 * a + digit_val d) 0 ds"

text \<open>
  \<open>sscanf(s, "%zu", ...)\<close> on the string \<open>s\<close>: white space, an optional sign, digits; a value out of
  range saturates, a minus sign negates modulo \<open>2 ^ 64\<close>.
\<close>

definition scan_zu :: "bytes \<Rightarrow> u64 option" where
  "scan_zu s =
     (let s1 = dropWhile is_space s;
          neg = (s1 \<noteq> [] \<and> hd s1 = 45);
          s2 = (if s1 \<noteq> [] \<and> (hd s1 = 45 \<or> hd s1 = 43) then tl s1 else s1);
          ds = takeWhile is_digit s2;
          n = digits_val ds
      in if ds = [] then None
         else if 2 ^ 64 \<le> n then Some (- 1)
         else Some (if neg then - of_nat n else of_nat n))"

text \<open>\<open>sscanf(s, "%15s", ...)\<close>\<close>

definition scan_word :: "nat \<Rightarrow> bytes \<Rightarrow> bytes option" where
  "scan_word n s =
     (let w = take n (takeWhile (\<lambda>b. \<not> is_space b) (dropWhile is_space s))
      in if w = [] then None else Some w)"

section \<open>Arrays of characters\<close>

text \<open>The string that starts at index \<open>i\<close> of an array; its terminator must lie in the array.\<close>

definition str_at :: "bytes \<Rightarrow> nat \<Rightarrow> bytes res" where
  "str_at arr i =
     (if 0 \<in> set (drop i arr) then Inr (takeWhile (\<lambda>b. b \<noteq> 0) (drop i arr)) else Inl OutOfBounds)"

text \<open>\<open>strchr(arr + i, ch)\<close> as the index it points to, or \<open>NULL\<close>.\<close>

definition strchr_at :: "bytes \<Rightarrow> nat \<Rightarrow> byte \<Rightarrow> nat option res" where
  "strchr_at arr i ch =
     rbind (str_at arr i)
       (\<lambda>s. Inr (if ch \<in> set s then Some (i + length (takeWhile (\<lambda>b. b \<noteq> ch) s)) else None))"

definition slice :: "bytes \<Rightarrow> nat \<Rightarrow> nat \<Rightarrow> bytes res" where
  "slice arr i n = (if i + n \<le> length arr then Inr (take n (drop i arr)) else Inl OutOfBounds)"

section \<open>Reading lines\<close>

text \<open>What \<open>fgets(line, n, ...)\<close> takes from the input, and the array it leaves.\<close>

definition next_line :: "nat \<Rightarrow> bytes \<Rightarrow> bytes" where
  "next_line n inp =
     (let c = take (n - 1) inp; l = takeWhile (\<lambda>b. b \<noteq> 10) c
      in if length l < length c then l @ [10] else l)"

definition fgets_fill :: "bytes \<Rightarrow> bytes \<Rightarrow> bytes" where
  "fgets_fill arr l = l @ 0 # drop (length l + 1) arr"

lemma next_line_length: "length (next_line n inp) \<le> length inp"
  using length_takeWhile_le [of "\<lambda>b. b \<noteq> 10" "take (n - 1) inp"]
  by (simp add: next_line_def Let_def)

lemma next_line_nonempty: "inp \<noteq> [] \<Longrightarrow> 2 \<le> n \<Longrightarrow> next_line n inp \<noteq> []"
  by (cases inp; cases "n - 1") (auto simp: next_line_def Let_def)

lemma next_line_record:
  assumes "10 \<notin> set r" "length r + 1 \<le> n - 1"
  shows "next_line n (r @ 10 # rest) = r @ [10]"
proof -
  have "take (n - 1) (r @ 10 # rest) = r @ 10 # take (n - 2 - length r) rest"
    using assms(2) by (simp add: take_Cons')
  moreover have "takeWhile (\<lambda>b. b \<noteq> 10) (r @ 10 # xs) = r" for xs
    using assms(1) by (induction r) auto
  ultimately show ?thesis by (simp add: next_line_def)
qed

section \<open>Decimal round trip\<close>

lemma digit_byte:
  assumes "n < 10"
  shows "is_digit (48 + of_nat n)" "digit_val (48 + of_nat n) = n" "(48 + of_nat n :: byte) \<noteq> 32"
    "(48 + of_nat n :: byte) \<noteq> 0" "(48 + of_nat n :: byte) \<noteq> 10" "(48 + of_nat n :: byte) \<noteq> 45"
    "(48 + of_nat n :: byte) \<noteq> 43" "\<not> is_space (48 + of_nat n)"
proof -
  have "n \<in> {0, 1, 2, 3, 4, 5, 6, 7, 8, 9}" using assms by auto
  then show "is_digit (48 + of_nat n)" "digit_val (48 + of_nat n) = n" "(48 + of_nat n :: byte) \<noteq> 32"
    "(48 + of_nat n :: byte) \<noteq> 0" "(48 + of_nat n :: byte) \<noteq> 10" "(48 + of_nat n :: byte) \<noteq> 45"
    "(48 + of_nat n :: byte) \<noteq> 43" "\<not> is_space (48 + of_nat n)"
    by (auto simp: is_digit_def digit_val_def is_space_def)
qed

lemma dec_digits: "\<forall>b \<in> set (dec n). is_digit b \<and> b \<noteq> 32 \<and> b \<noteq> 0 \<and> b \<noteq> 10 \<and> b \<noteq> 45 \<and> b \<noteq> 43 \<and> \<not> is_space b"
proof (induction n rule: dec.induct)
  case (1 n)
  then show ?case
    using digit_byte [of n] digit_byte [of "n mod 10"] by (subst dec.simps) auto
qed

lemma dec_nonempty [simp]: "dec n \<noteq> []"
  by (subst dec.simps) simp

lemma digits_val_dec: "digits_val (dec n) = n"
proof (induction n rule: dec.induct)
  case (1 n)
  show ?case
  proof (cases "n < 10")
    case True
    then show ?thesis using digit_byte(2) [of n] by (subst dec.simps) (simp add: digits_val_def)
  next
    case False
    have "digits_val (dec n) = 10 * digits_val (dec (n div 10)) + digit_val (48 + of_nat (n mod 10))"
      using False by (subst dec.simps) (simp add: digits_val_def)
    then show ?thesis using 1 [OF False] digit_byte(2) [of "n mod 10"] by simp
  qed
qed

lemma takeWhile_stop:
  assumes "\<forall>b \<in> set ds. P b" "\<not> P x"
  shows "takeWhile P (ds @ x # rest) = ds"
  using assms by (simp add: takeWhile_append2)

lemma scan_zu_dec:
  assumes "n < 2 ^ 64" "rest = [] \<or> \<not> is_digit (hd rest)"
  shows "scan_zu (dec n @ rest) = Some (of_nat n)"
proof -
  obtain c cs where c: "dec n = c # cs" by (cases "dec n") auto
  have d: "is_digit c" "c \<noteq> 45" "c \<noteq> 43" "\<not> is_space c" using dec_digits [of n] c by auto
  have t: "takeWhile is_digit (dec n @ rest) = dec n"
    using assms(2) dec_digits [of n] takeWhile_stop [of "dec n" is_digit]
    by (cases rest) (auto simp: takeWhile_eq_all_conv)
  have "dropWhile is_space (dec n @ rest) = dec n @ rest" using d(4) c by simp
  then show ?thesis
    using d assms(1) t digits_val_dec [of n] c by (simp add: scan_zu_def Let_def)
qed

lemma length_dec_pos: "1 \<le> length (dec n)"
  by (cases "dec n") auto

section \<open>Output streams\<close>

text \<open>
  \<open>fl_buf\<close> is what the process has not flushed, \<open>fl_data\<close> the file as the system sees it and
  \<open>fl_synced\<close> how much of it survives a crash for certain. A stream in error fails every write.
\<close>

record stream =
  fl_data :: bytes
  fl_buf :: bytes
  fl_synced :: nat
  fl_bad :: bool

definition put :: "bytes \<Rightarrow> stream \<Rightarrow> stream" where
  "put bs f = (if fl_bad f then f else f\<lparr>fl_buf := fl_buf f @ bs\<rparr>)"

definition fflush :: "stream \<Rightarrow> stream" where
  "fflush f = f\<lparr>fl_data := fl_data f @ fl_buf f, fl_buf := []\<rparr>"

definition fsync :: "stream \<Rightarrow> stream" where
  "fsync f = f\<lparr>fl_synced := length (fl_data f)\<rparr>"

definition written :: "stream \<Rightarrow> bytes" where
  "written f = fl_data f @ fl_buf f"

text \<open>What is certain to be left of the file after a crash.\<close>

definition durable :: "stream \<Rightarrow> bytes" where
  "durable f = take (fl_synced f) (fl_data f)"

end
