(* ===== verification/Aof.thy ===== *)
theory Aof
  imports C_Stdio Hashmap_Props
begin

text \<open>
  \<^verbatim>\<open>src/core/storage/aof.c\<close>: the append-only log. Appending goes through an output stream whose
  flushing and syncing is explicit; replaying reads the file line by line into a 4096-byte array,
  whose old contents stay behind the terminator of a shorter line. The clock and the outcome of
  opening a file are parameters.
\<close>

section \<open>The log and its appends\<close>

datatype aof_sync_policy = AOF_SYNC_ALWAYS | AOF_SYNC_EVERYSEC | AOF_SYNC_NO

record aof_t =
  aof_file :: "stream option"
  aof_filename :: "bytes option"
  aof_policy :: aof_sync_policy
  aof_last_sync :: int
  aof_bytes_written :: u64

text \<open>
  \<open>existing\<close> is the contents \<open>fopen(filename, "a+")\<close> finds (all of it on disk), or \<open>None\<close> when it
  fails; \<open>sizeof(aof_t)\<close> is 40.
\<close>

definition aof_open ::
    "mem \<Rightarrow> bytes option \<Rightarrow> aof_sync_policy \<Rightarrow> bytes option \<Rightarrow> int \<Rightarrow> aof_t option \<times> mem" where
  "aof_open m filename policy existing now =
     (case filename of
        None \<Rightarrow> (None, m)
      | Some name \<Rightarrow>
          (case mem_reserve m 40 of
             None \<Rightarrow> (None, m)
           | Some m1 \<Rightarrow>
               (case existing of
                  None \<Rightarrow> (None, mem_release m1 40)
                | Some data \<Rightarrow>
                    let (dup, m2) = (case mem_reserve m1 (length name + 1) of
                                       None \<Rightarrow> (None, m1) | Some m2 \<Rightarrow> (Some name, m2))
                    in (Some \<lparr>aof_file = Some \<lparr>fl_data = data, fl_buf = [], fl_synced = length data,
                                               fl_bad = False\<rparr>,
                              aof_filename = dup, aof_policy = policy, aof_last_sync = now,
                              aof_bytes_written = 0\<rparr>, m2))))"

text \<open>The stream as \<open>aof_close\<close> leaves it, and the memory given back.\<close>

definition aof_close :: "mem \<Rightarrow> aof_t option \<Rightarrow> stream option \<times> mem" where
  "aof_close m aofp =
     (case aofp of
        None \<Rightarrow> (None, m)
      | Some aof \<Rightarrow>
          (map_option (\<lambda>f. fsync (fflush f)) (aof_file aof),
           mem_release (mem_release m (case aof_filename aof of None \<Rightarrow> 0 | Some n \<Rightarrow> length n + 1)) 40))"

definition aof_sync :: "aof_t \<Rightarrow> int \<Rightarrow> aof_t" where
  "aof_sync aof now =
     (case aof_file aof of
        None \<Rightarrow> aof
      | Some f \<Rightarrow>
          (case aof_policy aof of
             AOF_SYNC_ALWAYS \<Rightarrow> aof\<lparr>aof_file := Some (fsync (fflush f))\<rparr>
           | AOF_SYNC_EVERYSEC \<Rightarrow>
               if 1 \<le> now - aof_last_sync aof
               then aof\<lparr>aof_file := Some (fsync (fflush f)), aof_last_sync := now\<rparr>
               else aof\<lparr>aof_file := Some (fflush f)\<rparr>
           | AOF_SYNC_NO \<Rightarrow> aof\<lparr>aof_file := Some (fflush f)\<rparr>))"

definition set_head :: "bytes \<Rightarrow> nat \<Rightarrow> bytes" where
  "set_head key val_len =
     lit ''SET '' @ dec (length key) @ lit '' '' @ key @ lit '' '' @ dec val_len @ lit '' ''"

definition aof_append_set ::
    "mem \<Rightarrow> aof_t option \<Rightarrow> ptr \<Rightarrow> ptr \<Rightarrow> u64 \<Rightarrow> int \<Rightarrow> (int \<times> aof_t option) res" where
  "aof_append_set m aofp key val val_len now =
     (case aofp of
        None \<Rightarrow> Inr (- 1, None)
      | Some aof \<Rightarrow>
          (case aof_file aof of
             None \<Rightarrow> Inr (- 1, Some aof)
           | Some f \<Rightarrow>
               if key = NULL \<or> val = NULL then Inr (- 1, Some aof)
               else rbind (c_string m key)
                 (\<lambda>k. if fl_bad f then Inr (- 1, Some aof)
                  else rbind (mem_read m val (unat val_len))
                    (\<lambda>data.
                      let h = set_head k (unat val_len);
                          f' = put (lit [CHR 0x0A]) (put data (put h f))
                      in Inr (0, Some (aof_sync
                           (aof\<lparr>aof_file := Some f',
                                aof_bytes_written := aof_bytes_written aof + (of_nat (length h) + val_len + 1)\<rparr>)
                           now))))))"

definition del_record :: "bytes \<Rightarrow> bytes" where
  "del_record key = lit ''DEL '' @ dec (length key) @ lit '' '' @ key @ lit [CHR 0x0A]"

definition aof_append_del :: "mem \<Rightarrow> aof_t option \<Rightarrow> ptr \<Rightarrow> int \<Rightarrow> (int \<times> aof_t option) res" where
  "aof_append_del m aofp key now =
     (case aofp of
        None \<Rightarrow> Inr (- 1, None)
      | Some aof \<Rightarrow>
          (case aof_file aof of
             None \<Rightarrow> Inr (- 1, Some aof)
           | Some f \<Rightarrow>
               if key = NULL then Inr (- 1, Some aof)
               else rbind (c_string m key)
                 (\<lambda>k. if fl_bad f then Inr (- 1, Some aof)
                  else Inr (0, Some (aof_sync
                         (aof\<lparr>aof_file := Some (put (del_record k) f),
                              aof_bytes_written := aof_bytes_written aof + of_nat (length (del_record k))\<rparr>)
                         now)))))"

section \<open>Replay\<close>

text \<open>
  What one line asks for: nothing, a key whose value length does not parse (its copy is made and
  freed), a store, or a deletion.
\<close>

datatype replay_cmd = RSkip | RNoVal bytes | RSet bytes bytes | RDel bytes

text \<open>
  \<open>sscanf(p, "%zu", &key_len)\<close>, then \<open>p = strchr(p, ' ') + 1\<close> and the copy of \<open>key_len\<close> bytes:
  the bytes and the index behind them. Without a blank \<open>strchr\<close> is \<open>NULL\<close> and the copy reads address 1.
\<close>

definition counted_field :: "bytes \<Rightarrow> nat \<Rightarrow> (bytes \<times> nat) option res" where
  "counted_field line p =
     rbind (str_at line p)
       (\<lambda>s. case scan_zu s of
           None \<Rightarrow> Inr None
         | Some n \<Rightarrow> rbind (strchr_at line p 32)
             (\<lambda>q. case q of
                 None \<Rightarrow> Inl NullDeref
               | Some i \<Rightarrow> rbind (slice line (i + 1) (unat n))
                   (\<lambda>bs. Inr (Some (bs, i + 1 + unat n)))))"

definition replay_parse :: "bytes \<Rightarrow> replay_cmd res" where
  "replay_parse line =
     rbind (str_at line 0)
       (\<lambda>s. case scan_word 15 s of
           None \<Rightarrow> Inr RSkip
         | Some cmd \<Rightarrow>
             if cmd = lit ''SET'' then
               rbind (counted_field line 4)
                 (\<lambda>f. case f of
                     None \<Rightarrow> Inr RSkip
                   | Some (key, p) \<Rightarrow>
                       rbind (counted_field line (p + 1))
                         (\<lambda>g. case g of
                             None \<Rightarrow> Inr (RNoVal key)
                           | Some (val, _) \<Rightarrow> Inr (RSet key val)))
             else if cmd = lit ''DEL'' then
               rbind (counted_field line 4)
                 (\<lambda>f. case f of None \<Rightarrow> Inr RSkip | Some (key, p) \<Rightarrow> Inr (RDel key))
             else Inr RSkip)"

text \<open>A fresh copy of some bytes with a terminator; the result of \<open>malloc\<close> is not checked.\<close>

definition dup_bytes :: "mem \<Rightarrow> bytes \<Rightarrow> (ptr \<times> mem) res" where
  "dup_bytes m bs =
     (case mem_alloc m (bs @ [0]) of (p, m') \<Rightarrow> if p = NULL then Inl NullDeref else Inr (p, m'))"

definition free_key :: "ptr \<Rightarrow> mem \<times> hashmap \<times> u64 \<Rightarrow> (mem \<times> hashmap \<times> u64) res" where
  "free_key p = (\<lambda>(m, hm, n). rbind (mem_free m p) (\<lambda>m'. Inr (m', hm, n)))"

definition replay_set :: "mem \<Rightarrow> hashmap \<Rightarrow> bytes \<Rightarrow> bytes \<Rightarrow> (mem \<times> hashmap \<times> u64) res option" where
  "replay_set m hm key val =
     (case rbind (dup_bytes m key) (\<lambda>(k, m1). rbind (dup_bytes m1 val) (\<lambda>(v, m2). Inr (k, v, m2))) of
        Inl e \<Rightarrow> Some (Inl e)
      | Inr (k, v, m2) \<Rightarrow>
          (case hm_insert m2 (Some hm) k v (of_nat (length val)) of
             Some (Inr (rc, Some hm')) \<Rightarrow> Some (free_key k (m2, hm', 1))
           | Some (Inr (rc, None)) \<Rightarrow> Some (Inl NullDeref)
           | Some (Inl e) \<Rightarrow> Some (Inl e)
           | None \<Rightarrow> None))"

definition replay_del :: "mem \<Rightarrow> hashmap \<Rightarrow> bytes \<Rightarrow> (mem \<times> hashmap \<times> u64) res option" where
  "replay_del m hm key =
     (case dup_bytes m key of
        Inl e \<Rightarrow> Some (Inl e)
      | Inr (k, m1) \<Rightarrow>
          (case hm_get m1 (Some hm) k of
             Some (Inr old) \<Rightarrow>
               if old = NULL then Some (free_key k (m1, hm, 1))
               else (case hm_delete m1 (Some hm) k 1 of
                       Some (Inr (rc, Some hm')) \<Rightarrow> Some (free_key k (m1, hm', 1))
                     | Some (Inr (rc, None)) \<Rightarrow> Some (Inl NullDeref)
                     | Some (Inl e) \<Rightarrow> Some (Inl e)
                     | None \<Rightarrow> None)
           | Some (Inl e) \<Rightarrow> Some (Inl e)
           | None \<Rightarrow> None))"

definition replay_line :: "bytes \<Rightarrow> mem \<Rightarrow> hashmap \<Rightarrow> (mem \<times> hashmap \<times> u64) res option" where
  "replay_line line m hm =
     (case replay_parse line of
        Inl e \<Rightarrow> Some (Inl e)
      | Inr RSkip \<Rightarrow> Some (Inr (m, hm, 0))
      | Inr (RNoVal key) \<Rightarrow>
          Some (rbind (dup_bytes m key) (\<lambda>(k, m'). free_key k (m', hm, 0)))
      | Inr (RSet key val) \<Rightarrow> replay_set m hm key val
      | Inr (RDel key) \<Rightarrow> replay_del m hm key)"

function replay_loop ::
    "bytes \<Rightarrow> bytes \<Rightarrow> mem \<Rightarrow> hashmap \<Rightarrow> u64 \<Rightarrow> (mem \<times> hashmap \<times> u64) res option" where
  "replay_loop line inp m hm n =
     (if inp = [] then Some (Inr (m, hm, n))
      else
        (let l = next_line 4096 inp; line' = fgets_fill line l in
         case replay_line line' m hm of
           None \<Rightarrow> None
         | Some (Inl e) \<Rightarrow> Some (Inl e)
         | Some (Inr (m', hm', k)) \<Rightarrow> replay_loop line' (drop (length l) inp) m' hm' (n + k)))"
  by pat_completeness auto

termination
proof (relation "measure (\<lambda>(line, inp, m, hm, n). length inp)")
  show "wf (measure (\<lambda>(line, inp, m, hm, n). length inp))" by simp
next
  fix line inp :: bytes and m :: mem and hm :: hashmap and n :: u64
  fix x y a r m' p hm' k
  assume "inp \<noteq> []" "x = next_line 4096 inp"
  moreover then have "next_line 4096 inp \<noteq> []" by (intro next_line_nonempty) simp_all
  ultimately show "((y, drop (length x) inp, m', hm', n + k), (line, inp, m, hm, n))
      \<in> measure (\<lambda>(line, inp, m, hm, n). length inp)"
    by simp
qed

declare replay_loop.simps [simp del]

text \<open>
  \<open>aof_replay\<close>: \<open>rewind\<close> makes everything written readable; \<open>line0\<close> is what the array holds at
  first. The answer counts the commands.
\<close>

definition aof_replay ::
    "bytes \<Rightarrow> mem \<Rightarrow> aof_t option \<Rightarrow> hashmap option \<Rightarrow> (int \<times> mem \<times> hashmap option \<times> u64) res option" where
  "aof_replay line0 m aofp hmp =
     (case (aofp, hmp) of
        (Some aof, Some hm) \<Rightarrow>
          (case aof_file aof of
             None \<Rightarrow> Some (Inr (- 1, m, hmp, 0))
           | Some f \<Rightarrow>
               map_option (map_sum id (\<lambda>(m', hm', n). (0, m', Some hm', n)))
                 (replay_loop line0 (written f) m hm 0))
      | _ \<Rightarrow> Some (Inr (- 1, m, hmp, 0)))"

section \<open>Rewrite\<close>

text \<open>
  The inner loop \<open>while (node)\<close> of \<open>aof_rewrite\<close> never changes \<open>node\<close>; it writes the same bucket
  again and steps \<open>i\<close>. The accumulated output is the argument.
\<close>

definition rewrite_record :: "mem \<Rightarrow> hm_node \<Rightarrow> bytes res" where
  "rewrite_record m node =
     rbind (c_string m (node_key node))
       (\<lambda>k. rbind (mem_read m (node_value node) (unat (node_val_len node)))
         (\<lambda>data. Inr (lit ''SET '' @ dec (unat (node_key_len node)) @ lit '' '' @ k @ lit '' '' @
                      dec (unat (node_val_len node)) @ lit '' '' @ data @ lit [CHR 0x0A])))"

partial_function (option) rewrite_node ::
    "mem \<Rightarrow> hashmap \<Rightarrow> hm_node option \<Rightarrow> u64 \<Rightarrow> bytes \<Rightarrow> (u64 \<times> bytes) res option" where
  "rewrite_node m hm node i out =
     (case node of
        None \<Rightarrow> Some (Inr (i, out))
      | Some nd \<Rightarrow>
          (case rewrite_record m nd of
             Inl e \<Rightarrow> Some (Inl e)
           | Inr r \<Rightarrow> rewrite_node m hm node (next_idx hm i) (out @ r)))"

partial_function (option) rewrite_loop :: "mem \<Rightarrow> hashmap \<Rightarrow> u64 \<Rightarrow> bytes \<Rightarrow> bytes res option" where
  "rewrite_loop m hm i out =
     (if i < hm_capacity hm then
        (case bucket hm i of
           Inl e \<Rightarrow> Some (Inl e)
         | Inr nd \<Rightarrow> Option.bind (rewrite_node m hm (Some nd) i out)
             (\<lambda>r. case r of
                 Inl e \<Rightarrow> Some (Inl e)
               | Inr io \<Rightarrow> rewrite_loop m hm (fst io + 1) (snd io)))
      else Some (Inr out))"

text \<open>
  \<open>tmp\<close> tells whether the temporary file opens, \<open>renamed\<close> and \<open>reopen\<close> the outcome of \<open>rename\<close> and
  of opening the log again. The name is copied with \<open>%s\<close>, so it must not be \<open>NULL\<close>.
\<close>

definition aof_rewrite ::
    "mem \<Rightarrow> aof_t option \<Rightarrow> hashmap option \<Rightarrow> bool \<Rightarrow> bool \<Rightarrow> bool \<Rightarrow> (int \<times> aof_t option) res option" where
  "aof_rewrite m aofp hmp tmp renamed reopen =
     (case (aofp, hmp) of
        (Some aof, Some hm) \<Rightarrow>
          if aof_filename aof = None then Some (Inl NullDeref)
          else if \<not> tmp then Some (Inr (- 1, aofp))
          else Option.bind (rewrite_loop m hm 0 [])
            (\<lambda>r. Some (rbind r
              (\<lambda>out. case aof_file aof of
                  None \<Rightarrow> Inl NullDeref
                | Some f \<Rightarrow>
                    let old = fflush f;
                        new = \<lparr>fl_data = out, fl_buf = [], fl_synced = length out, fl_bad = False\<rparr>
                    in if \<not> renamed
                       then Inr (- 1, Some (aof\<lparr>aof_file := if reopen then Some old else None\<rparr>))
                       else if \<not> reopen then Inr (- 1, Some (aof\<lparr>aof_file := None\<rparr>))
                       else Inr (0, Some (aof\<lparr>aof_file := Some new, aof_bytes_written := 0\<rparr>)))))
      | _ \<Rightarrow> Some (Inr (- 1, aofp)))"

end
