(* ===== verification/Aof_Codec.thy ===== *)
theory Aof_Codec
  imports Aof
begin

text \<open>
  The log of \<^verbatim>\<open>src/core/storage/aof.c\<close> as a code for commands: the records the appends write, the
  parser of the replay as their inverse on records without a newline that fit a line, and the
  contract \<open>line_log\<close> from which whole logs round trip.
\<close>

section \<open>Records\<close>

definition set_record :: "bytes \<Rightarrow> bytes \<Rightarrow> bytes" where
  "set_record key val = set_head key (length val) @ val @ lit [CHR 0x0A]"

fun record_of :: "replay_cmd \<Rightarrow> bytes" where
  "record_of (RSet key val) = set_record key val"
| "record_of (RDel key) = del_record key"
| "record_of _ = lit [CHR 0x0A]"

text \<open>A command the log can carry: no newline, a C string as key, and a record of one line.\<close>

fun loggable :: "replay_cmd \<Rightarrow> bool" where
  "loggable (RSet key val) \<longleftrightarrow>
     0 \<notin> set key \<and> 10 \<notin> set key \<and> 10 \<notin> set val \<and> length (set_record key val) \<le> 4095"
| "loggable (RDel key) \<longleftrightarrow> 0 \<notin> set key \<and> 10 \<notin> set key \<and> length (del_record key) \<le> 4095"
| "loggable _ \<longleftrightarrow> False"

lemma lit_words:
  "lit ''SET '' = [83, 69, 84, 32]" "lit ''DEL '' = [68, 69, 76, 32]" "lit ''SET'' = [83, 69, 84]"
  "lit ''DEL'' = [68, 69, 76]" "lit '' '' = [32]" "lit [CHR 0x0A] = [10]"
  by simp_all

lemma dec_no: "32 \<notin> set (dec n)" "10 \<notin> set (dec n)" "0 \<notin> set (dec n)"
  using dec_digits [of n] by auto

lemma str_at_app:
  "p = length pre \<Longrightarrow> 0 \<notin> set s \<Longrightarrow> 0 \<in> set post \<Longrightarrow>
   str_at (pre @ s @ post) p = Inr (s @ takeWhile (\<lambda>b. b \<noteq> 0) post)"
  by (auto simp: str_at_def takeWhile_append)

lemma counted_field_ok:
  assumes "p = length pre" "length bs < 2 ^ 64" "0 \<in> set (bs @ post)"
  shows "counted_field (pre @ dec (length bs) @ 32 # bs @ post) p
    = Inr (Some (bs, p + length (dec (length bs)) + 1 + length bs))"
proof -
  let ?d = "dec (length bs)" and ?t = "takeWhile (\<lambda>b. b \<noteq> 0) (bs @ post)"
  let ?line = "pre @ ?d @ 32 # bs @ post"
  have l: "?line = pre @ (?d @ [32]) @ (bs @ post)" by simp
  have s: "str_at ?line p = Inr (?d @ 32 # ?t)"
    using str_at_app [OF assms(1) _ assms(3), of "?d @ [32]"] dec_no(3) unfolding l by simp
  have z: "scan_zu (?d @ 32 # ?t) = Some (of_nat (length bs))"
    by (rule scan_zu_dec [OF assms(2)]) (simp add: is_digit_def)
  have w: "takeWhile (\<lambda>b. b \<noteq> 32) (?d @ 32 # ?t) = ?d"
    by (rule takeWhile_stop) (use dec_digits in auto)
  have c: "strchr_at ?line p 32 = Inr (Some (p + length ?d))"
    by (simp add: strchr_at_def s w)
  have u: "unat (of_nat (length bs) :: u64) = length bs" using assms(2) by (rule unat_of_nat_u64)
  have sl: "slice ?line (p + length ?d + 1) (length bs) = Inr bs"
    using assms(1) by (simp add: slice_def)
  show ?thesis by (simp only: counted_field_def s rbind_simps z option.case c u sl)
qed

lemma counted_field_after:
  assumes "length bs < 2 ^ 64" "0 \<in> set (bs @ post)"
  shows "counted_field (a # b # c # d # dec (length bs) @ 32 # bs @ post) 4
    = Inr (Some (bs, 4 + length (dec (length bs)) + 1 + length bs))"
  using counted_field_ok [of 4 "[a, b, c, d]" bs post] assms by simp

lemma parse_set_any:
  assumes "0 \<in> set (val @ post)" "length key < 2 ^ 64" "length val < 2 ^ 64"
  shows "replay_parse (set_head key (length val) @ val @ post) = Inr (RSet key val)"
proof -
  let ?rest = "32 # dec (length val) @ 32 # val @ post"
  let ?line = "83 # 69 # 84 # 32 # dec (length key) @ 32 # key @ ?rest"
  have l: "set_head key (length val) @ val @ post = ?line" by (simp add: set_head_def)
  have "str_at ?line 0 = Inr ([83, 69, 84, 32] @ takeWhile (\<lambda>b. b \<noteq> 0) (dec (length key) @ 32 # key @ ?rest))"
    using str_at_app [of 0 "[]" "[83, 69, 84, 32]" "dec (length key) @ 32 # key @ ?rest"] assms(1) by simp
  moreover have "scan_word 15 ([83, 69, 84, 32] @ xs) = Some [83, 69, 84]" for xs
    by (simp add: scan_word_def is_space_def)
  moreover have "counted_field ?line 4 = Inr (Some (key, 4 + length (dec (length key)) + 1 + length key))"
    by (rule counted_field_after) (use assms(1,2) in auto)
  moreover have "counted_field ?line (4 + length (dec (length key)) + 1 + length key + 1)
      = Inr (Some (val, 4 + length (dec (length key)) + 1 + length key + 1 + length (dec (length val)) + 1 + length val))"
    using counted_field_ok [of "4 + length (dec (length key)) + 1 + length key + 1"
        "83 # 69 # 84 # 32 # dec (length key) @ 32 # key @ [32]" val post] assms(1,3)
    by simp
  ultimately show ?thesis unfolding l replay_parse_def by (simp add: lit_words del: append_Cons)
qed

lemma parse_set:
  assumes "0 \<in> set post" "length key < 2 ^ 64" "length val < 2 ^ 64"
  shows "replay_parse (set_head key (length val) @ val @ post) = Inr (RSet key val)"
  using parse_set_any assms by simp

lemma parse_del:
  assumes "0 \<in> set post" "length key < 2 ^ 64"
  shows "replay_parse (lit ''DEL '' @ dec (length key) @ lit '' '' @ key @ post) = Inr (RDel key)"
proof -
  let ?line = "68 # 69 # 76 # 32 # dec (length key) @ 32 # key @ post"
  have "str_at ?line 0 = Inr ([68, 69, 76, 32] @ takeWhile (\<lambda>b. b \<noteq> 0) (dec (length key) @ 32 # key @ post))"
    using str_at_app [of 0 "[]" "[68, 69, 76, 32]" "dec (length key) @ 32 # key @ post"] assms(1) by simp
  moreover have "scan_word 15 ([68, 69, 76, 32] @ xs) = Some [68, 69, 76]" for xs
    by (simp add: scan_word_def is_space_def)
  moreover have "counted_field ?line 4 = Inr (Some (key, 4 + length (dec (length key)) + 1 + length key))"
    by (rule counted_field_after) (use assms in auto)
  ultimately show ?thesis unfolding replay_parse_def by (simp add: lit_words)
qed

section \<open>Logs of lines\<close>

text \<open>All lines of an input, each read into the array and given to \<open>rd\<close>.\<close>

function log_read :: "(bytes \<Rightarrow> 'c res) \<Rightarrow> bytes \<Rightarrow> bytes \<Rightarrow> 'c list res" where
  "log_read rd line inp =
     (if inp = [] then Inr []
      else
        (let l = next_line 4096 inp; line' = fgets_fill line l in
         rbind (rd line') (\<lambda>c. rbind (log_read rd line' (drop (length l) inp)) (\<lambda>cs. Inr (c # cs)))))"
  by pat_completeness auto

termination
proof (relation "measure (\<lambda>(rd, line, inp). length inp)")
  show "wf (measure (\<lambda>(rd, line, inp). length inp))" by simp
next
  fix rd :: "bytes \<Rightarrow> 'c res" and line inp :: bytes
  fix x y c
  assume "inp \<noteq> []" "x = next_line 4096 inp"
  moreover then have "next_line 4096 inp \<noteq> []" by (intro next_line_nonempty) simp_all
  ultimately show "((rd, y, drop (length x) inp), (rd, line, inp)) \<in> measure (\<lambda>(rd, line, inp). length inp)"
    by simp
qed

declare log_read.simps [simp del]

lemma log_read_nil [simp]: "log_read rd line [] = Inr []"
  by (subst log_read.simps) simp

lemma fgets_fill_length:
  assumes "length line = 4096" "length l \<le> 4095"
  shows "length (fgets_fill line l) = 4096"
  using assms by (simp add: fgets_fill_def)

text \<open>
  What a log needs of its code: every record is one line that fits the array, and reading the
  array it was put in gives the command back, whatever the array held before.
\<close>

locale line_log =
  fixes ok :: "'c \<Rightarrow> bool" and enc :: "'c \<Rightarrow> bytes" and rd :: "bytes \<Rightarrow> 'c res"
  assumes enc_line: "ok c \<Longrightarrow> \<exists>r. enc c = r @ [10] \<and> 10 \<notin> set r \<and> length r + 1 \<le> 4095"
    and rd_enc: "ok c \<Longrightarrow> length line = 4096 \<Longrightarrow> rd (fgets_fill line (enc c)) = Inr c"
begin

lemma read_record:
  assumes "ok c" "length line = 4096"
  shows "log_read rd line (enc c @ rest)
    = rbind (log_read rd (fgets_fill line (enc c)) rest) (\<lambda>cs. Inr (c # cs))"
proof -
  obtain r where r: "enc c = r @ [10]" "10 \<notin> set r" "length r + 1 \<le> 4095"
    using enc_line [OF assms(1)] by blast
  have "next_line 4096 (enc c @ rest) = enc c" using next_line_record [OF r(2)] r(1,3) by simp
  then show ?thesis using r(1) rd_enc [OF assms] by (subst log_read.simps) (simp add: Let_def)
qed

lemma read_log:
  "list_all ok cs \<Longrightarrow> length line = 4096 \<Longrightarrow> log_read rd line (concat (map enc cs)) = Inr cs"
proof (induction cs arbitrary: line)
  case (Cons c cs)
  have ok: "ok c" "list_all ok cs" using Cons.prems(1) by simp_all
  obtain r where "enc c = r @ [10]" "length r + 1 \<le> 4095" using enc_line [OF ok(1)] by blast
  then have l: "length (fgets_fill line (enc c)) = 4096"
    by (intro fgets_fill_length [OF Cons.prems(2)]) simp
  show ?case using read_record [OF ok(1) Cons.prems(2)] Cons.IH [OF ok(2) l] by simp
qed simp

end

lemma record_no_newline:
  assumes "loggable c"
  shows "\<exists>r. record_of c = r @ [10] \<and> 10 \<notin> set r \<and> length r + 1 \<le> 4095"
proof (cases c)
  case (RSet key val)
  let ?r = "set_head key (length val) @ val"
  have "record_of c = ?r @ [10]" using RSet by (simp add: set_record_def lit_words)
  moreover have "10 \<notin> set ?r" using assms RSet dec_no by (auto simp: set_head_def)
  ultimately show ?thesis using assms RSet by (intro exI [of _ ?r]) (auto simp: set_record_def)
next
  case (RDel key)
  let ?r = "lit ''DEL '' @ dec (length key) @ lit '' '' @ key"
  have "record_of c = ?r @ [10]" using RDel by (simp add: del_record_def lit_words)
  moreover have "10 \<notin> set ?r" using assms RDel dec_no by auto
  ultimately show ?thesis using assms RDel by (intro exI [of _ ?r]) (auto simp: del_record_def)
qed (use assms in simp_all)

lemma parse_record:
  assumes "loggable c"
  shows "replay_parse (fgets_fill line (record_of c)) = Inr c"
proof (cases c)
  case (RSet key val)
  have "length key < 2 ^ 64" "length val < 2 ^ 64"
    using assms RSet by (simp_all add: set_record_def set_head_def)
  then show ?thesis
    using RSet parse_set [of "10 # 0 # drop (length (record_of c) + 1) line" key val]
    by (simp add: fgets_fill_def set_record_def lit_words)
next
  case (RDel key)
  have "length key < 2 ^ 64" using assms RDel by (simp add: del_record_def)
  then show ?thesis
    using RDel parse_del [of "10 # 0 # drop (length (record_of c) + 1) line" key]
    by (simp add: fgets_fill_def del_record_def lit_words)
qed (use assms in simp_all)

interpretation aof_log: line_log loggable record_of replay_parse
  by unfold_locales (use record_no_newline parse_record in auto)

section \<open>Replay as the run of the commands it reads\<close>

definition run_cmd :: "replay_cmd \<Rightarrow> mem \<Rightarrow> hashmap \<Rightarrow> (mem \<times> hashmap \<times> u64) res option" where
  "run_cmd c m hm =
     (case c of
        RSkip \<Rightarrow> Some (Inr (m, hm, 0))
      | RNoVal key \<Rightarrow> Some (rbind (dup_bytes m key) (\<lambda>(k, m'). free_key k (m', hm, 0)))
      | RSet key val \<Rightarrow> replay_set m hm key val
      | RDel key \<Rightarrow> replay_del m hm key)"

fun run_cmds :: "replay_cmd list \<Rightarrow> mem \<Rightarrow> hashmap \<Rightarrow> u64 \<Rightarrow> (mem \<times> hashmap \<times> u64) res option" where
  "run_cmds [] m hm n = Some (Inr (m, hm, n))"
| "run_cmds (c # cs) m hm n =
     (case run_cmd c m hm of
        None \<Rightarrow> None
      | Some (Inl e) \<Rightarrow> Some (Inl e)
      | Some (Inr (m', hm', k)) \<Rightarrow> run_cmds cs m' hm' (n + k))"

lemma replay_line_run: "replay_parse line = Inr c \<Longrightarrow> replay_line line m hm = run_cmd c m hm"
  by (cases c) (simp_all add: replay_line_def run_cmd_def)

lemma replay_runs:
  "log_read replay_parse line inp = Inr cs \<Longrightarrow> replay_loop line inp m hm n = run_cmds cs m hm n"
proof (induction "replay_parse" line inp arbitrary: cs m hm n rule: log_read.induct)
  case (1 line inp)
  show ?case
  proof (cases "inp = []")
    case True
    then show ?thesis using 1(2) by (subst replay_loop.simps) simp
  next
    case False
    let ?l = "next_line 4096 inp"
    let ?line = "fgets_fill line ?l"
    obtain c cs' where c: "replay_parse ?line = Inr c" "cs = c # cs'"
      "log_read replay_parse ?line (drop (length ?l) inp) = Inr cs'"
      using 1(2) False by (subst (asm) log_read.simps) (auto simp: Let_def rbind_eq_Inr)
    have "replay_loop ?line (drop (length ?l) inp) m' hm' k = run_cmds cs' m' hm' k" for m' hm' k
      using 1(1) [OF False refl refl c(3)] .
    then show ?thesis
      using False replay_line_run [OF c(1), of m hm] c(2)
      by (subst replay_loop.simps) (auto simp: Let_def split: option.splits sum.splits)
  qed
qed

end
