(* ===== verification/Aof_Props.thy ===== *)
theory Aof_Props
  imports Aof_Codec Hashmap_Frame
begin

text \<open>
  The properties of \<^verbatim>\<open>src/core/storage/aof.c\<close>: what an append leaves in the log and on the disk,
  recovery of the commands after a crash, what a value with a newline does to the log, and that
  the rewrite never ends.
\<close>

section \<open>Appends\<close>

definition aof_good :: "aof_t \<Rightarrow> bool" where
  "aof_good aof \<longleftrightarrow> (case aof_file aof of None \<Rightarrow> False
     | Some f \<Rightarrow> \<not> fl_bad f \<and> fl_synced f \<le> length (fl_data f))"

definition aof_log_bytes :: "aof_t \<Rightarrow> bytes" where
  "aof_log_bytes aof = (case aof_file aof of None \<Rightarrow> [] | Some f \<Rightarrow> written f)"

definition aof_durable :: "aof_t \<Rightarrow> bytes" where
  "aof_durable aof = (case aof_file aof of None \<Rightarrow> [] | Some f \<Rightarrow> durable f)"

text \<open>What is left when the process dies and the system does not.\<close>

definition aof_visible :: "aof_t \<Rightarrow> bytes" where
  "aof_visible aof = (case aof_file aof of None \<Rightarrow> [] | Some f \<Rightarrow> fl_data f)"

text \<open>The policies, from the weakest to the strongest.\<close>

fun policy_rank :: "aof_sync_policy \<Rightarrow> nat" where
  "policy_rank AOF_SYNC_NO = 0"
| "policy_rank AOF_SYNC_EVERYSEC = 1"
| "policy_rank AOF_SYNC_ALWAYS = 2"

lemma policy_rank_inject: "policy_rank p = policy_rank q \<longleftrightarrow> p = q"
  by (cases p; cases q) simp_all

instantiation aof_sync_policy :: linorder
begin

definition less_eq_aof_sync_policy :: "aof_sync_policy \<Rightarrow> aof_sync_policy \<Rightarrow> bool" where
  "less_eq_aof_sync_policy p q \<longleftrightarrow> policy_rank p \<le> policy_rank q"

definition less_aof_sync_policy :: "aof_sync_policy \<Rightarrow> aof_sync_policy \<Rightarrow> bool" where
  "less_aof_sync_policy p q \<longleftrightarrow> policy_rank p < policy_rank q"

instance
  by standard (auto simp: less_eq_aof_sync_policy_def less_aof_sync_policy_def policy_rank_inject [symmetric])

end

lemmas policy_order = less_eq_aof_sync_policy_def less_aof_sync_policy_def

text \<open>
  What one append at time \<open>now\<close> may leave behind of the disk: nothing, or, when the policy is not to
  sync each time, everything since the last sync, which is then less than a second old for
  \<open>AOF_SYNC_EVERYSEC\<close>.
\<close>

definition aof_lag :: "int \<Rightarrow> aof_t \<Rightarrow> aof_t \<Rightarrow> bool" where
  "aof_lag now aof aof' \<longleftrightarrow> (AOF_SYNC_NO < aof_policy aof \<and> aof_durable aof' = aof_log_bytes aof')
     \<or> (aof_policy aof < AOF_SYNC_ALWAYS \<and> (aof_policy aof = AOF_SYNC_EVERYSEC \<longrightarrow> now < aof_last_sync aof + 1)
        \<and> aof_durable aof' = aof_durable aof \<and> aof_last_sync aof' = aof_last_sync aof)"

text \<open>The calls a client makes, and the commands they stand for.\<close>

datatype aof_op = AppSet ptr ptr u64 | AppDel ptr

fun aof_apply :: "mem \<Rightarrow> aof_t option \<Rightarrow> aof_op \<Rightarrow> int \<Rightarrow> (int \<times> aof_t option) res" where
  "aof_apply m aofp (AppSet key val len) now = aof_append_set m aofp key val len now"
| "aof_apply m aofp (AppDel key) now = aof_append_del m aofp key now"

fun stands_for :: "mem \<Rightarrow> aof_op \<Rightarrow> replay_cmd \<Rightarrow> bool" where
  "stands_for m (AppSet key val len) (RSet k v) \<longleftrightarrow>
     c_string m key = Inr k \<and> val \<noteq> NULL \<and> mem_read m val (unat len) = Inr v"
| "stands_for m (AppDel key) (RDel k) \<longleftrightarrow> c_string m key = Inr k"
| "stands_for m _ _ \<longleftrightarrow> False"

fun aof_run :: "mem \<Rightarrow> aof_t option \<Rightarrow> (aof_op \<times> int) list \<Rightarrow> (int list \<times> aof_t option) res" where
  "aof_run m aofp [] = Inr ([], aofp)"
| "aof_run m aofp ((x, now) # xs) =
     rbind (aof_apply m aofp x now)
       (\<lambda>(rc, aofp'). rbind (aof_run m aofp' xs) (\<lambda>(rcs, aofp''). Inr (rc # rcs, aofp'')))"

lemma aof_sync_facts:
  assumes "aof_file aof = Some f" "fl_synced f \<le> length (fl_data f)"
  shows "aof_log_bytes (aof_sync aof now) = written f" "aof_good (aof_sync aof now) = (\<not> fl_bad f)"
    "aof_policy (aof_sync aof now) = aof_policy aof"
    "aof_bytes_written (aof_sync aof now) = aof_bytes_written aof"
    "aof_visible (aof_sync aof now) = written f"
  using assms
  by (auto simp: aof_sync_def aof_log_bytes_def aof_visible_def aof_good_def written_def
      fflush_def fsync_def split: aof_sync_policy.splits)

lemma aof_sync_lag:
  assumes "aof_file aof = Some f" "fl_synced f \<le> length (fl_data f)" "aof_policy aof0 = aof_policy aof"
    "aof_last_sync aof0 = aof_last_sync aof" "aof_durable aof0 = durable f"
  shows "aof_lag now aof0 (aof_sync aof now)"
  using assms
  by (auto simp: aof_lag_def policy_order aof_sync_def aof_log_bytes_def aof_durable_def written_def durable_def
      fflush_def fsync_def split: aof_sync_policy.splits)

lemma put_keeps [simp]: "fl_synced (put bs f) = fl_synced f" "fl_data (put bs f) = fl_data f" "durable (put bs f) = durable f"
  by (simp_all add: put_def durable_def)

lemma c_string_not_null: "c_string m p = Inr s \<Longrightarrow> p \<noteq> NULL"
  by (auto simp: c_string_def mem_block_def)

lemma aof_apply_ok:
  assumes "aof_good aof" "stands_for m x c"
  shows "\<exists>aof'. aof_apply m (Some aof) x now = Inr (0, Some aof') \<and> aof_good aof'
    \<and> aof_log_bytes aof' = aof_log_bytes aof @ record_of c \<and> aof_policy aof' = aof_policy aof
    \<and> aof_bytes_written aof' = aof_bytes_written aof + of_nat (length (record_of c))
    \<and> aof_visible aof' = aof_log_bytes aof' \<and> aof_lag now aof aof'"
proof -
  obtain f where f: "aof_file aof = Some f" "\<not> fl_bad f" "fl_synced f \<le> length (fl_data f)"
    using assms(1) by (auto simp: aof_good_def split: option.splits)
  show ?thesis
  proof (cases x)
    case (AppSet key val len)
    then obtain k v where c: "c = RSet k v" and s: "c_string m key = Inr k" "val \<noteq> NULL"
      "mem_read m val (unat len) = Inr v"
      using assms(2) by (cases c) auto
    have n: "length v = unat len" using mem_read_length [OF s(3)] .
    let ?f = "put (lit [CHR 0x0A]) (put v (put (set_head k (unat len)) f))"
    let ?aof = "aof\<lparr>aof_file := Some ?f, aof_bytes_written := aof_bytes_written aof
      + (of_nat (length (set_head k (unat len))) + len + 1)\<rparr>"
    have r: "aof_apply m (Some aof) x now = Inr (0, Some (aof_sync ?aof now))"
      using AppSet f s c_string_not_null [OF s(1)] by (simp add: aof_append_set_def Let_def)
    have w: "written ?f = written f @ record_of c" "\<not> fl_bad ?f"
      using f(2) c n by (simp_all add: put_def written_def set_record_def)
    have b: "of_nat (length (set_head k (unat len))) + len + 1 = (of_nat (length (record_of c)) :: u64)"
      using c n by (simp add: set_record_def)
    have "aof_lag now aof (aof_sync ?aof now)"
      by (rule aof_sync_lag [where f = ?f]) (use f in \<open>simp_all add: aof_durable_def\<close>)
    then show ?thesis
      using r w b f aof_sync_facts [of ?aof ?f now] by (auto simp: aof_log_bytes_def)
  next
    case (AppDel key)
    then obtain k where c: "c = RDel k" and s: "c_string m key = Inr k"
      using assms(2) by (cases c) auto
    let ?f = "put (del_record k) f"
    let ?aof = "aof\<lparr>aof_file := Some ?f, aof_bytes_written := aof_bytes_written aof + of_nat (length (del_record k))\<rparr>"
    have r: "aof_apply m (Some aof) x now = Inr (0, Some (aof_sync ?aof now))"
      using AppDel f s c_string_not_null [OF s] by (simp add: aof_append_del_def)
    have w: "written ?f = written f @ record_of c" "\<not> fl_bad ?f"
      using f(2) c by (simp_all add: put_def written_def)
    have "aof_lag now aof (aof_sync ?aof now)"
      by (rule aof_sync_lag [where f = ?f]) (use f in \<open>simp_all add: aof_durable_def\<close>)
    then show ?thesis
      using r w c f aof_sync_facts [of ?aof ?f now] by (auto simp: aof_log_bytes_def)
  qed
qed

text \<open>
  Of the calls \<open>xs\<close> the first \<open>i\<close> are on disk, and the others were made less than a second after the
  last sync, or, with \<open>AOF_SYNC_ALWAYS\<close>, there are none.
\<close>

definition aof_synced_upto ::
    "(aof_op \<times> int) list \<Rightarrow> replay_cmd list \<Rightarrow> nat \<Rightarrow> aof_t \<Rightarrow> aof_t \<Rightarrow> bool" where
  "aof_synced_upto xs cs i aof aof' \<longleftrightarrow>
     aof_durable aof' = (if i = 0 then aof_durable aof else aof_log_bytes aof @ concat (map record_of (take i cs)))
     \<and> (i = 0 \<longrightarrow> aof_last_sync aof' = aof_last_sync aof)
     \<and> (aof_policy aof = AOF_SYNC_ALWAYS \<longrightarrow> i = length xs) \<and> (aof_policy aof = AOF_SYNC_NO \<longrightarrow> i = 0)
     \<and> (aof_policy aof = AOF_SYNC_EVERYSEC \<longrightarrow> (\<forall>(x, now) \<in> set (drop i xs). now < aof_last_sync aof' + 1))"

lemma aof_synced_step:
  assumes "aof_lag now aof a1" "aof_log_bytes a1 = aof_log_bytes aof @ record_of c" "aof_policy a1 = aof_policy aof"
    and "aof_synced_upto xs cs i a1 a2" "i \<le> length xs"
  shows "\<exists>i \<le> length ((x, now) # xs). aof_synced_upto ((x, now) # xs) (c # cs) i aof a2"
proof (cases "i = 0 \<and> \<not> (AOF_SYNC_NO < aof_policy aof \<and> aof_durable a1 = aof_log_bytes a1)")
  case True
  then have "aof_synced_upto ((x, now) # xs) (c # cs) 0 aof a2"
    using assms by (auto simp: aof_synced_upto_def aof_lag_def policy_order)
  then show ?thesis by blast
next
  case False
  then have "aof_synced_upto ((x, now) # xs) (c # cs) (Suc i) aof a2"
    using assms by (auto simp: aof_synced_upto_def policy_order)
  then show ?thesis using assms(5) by (intro exI [of _ "Suc i"]) simp
qed

lemma aof_run_ok:
  "aof_good aof \<Longrightarrow> list_all2 (\<lambda>x c. stands_for m (fst x) c) xs cs \<Longrightarrow>
   \<exists>aof'. aof_run m (Some aof) xs = Inr (replicate (length xs) 0, Some aof') \<and> aof_good aof'
     \<and> aof_log_bytes aof' = aof_log_bytes aof @ concat (map record_of cs) \<and> aof_policy aof' = aof_policy aof
     \<and> aof_bytes_written aof' = aof_bytes_written aof + of_nat (length (concat (map record_of cs)))
     \<and> (aof_visible aof = aof_log_bytes aof \<longrightarrow> aof_visible aof' = aof_log_bytes aof')
     \<and> (\<exists>i \<le> length xs. aof_synced_upto xs cs i aof aof')"
proof (induction xs arbitrary: aof cs)
  case Nil
  then show ?case by (auto simp: aof_synced_upto_def)
next
  case (Cons x xs)
  obtain op now where x: "x = (op, now)" by (cases x)
  obtain c cs' where c: "cs = c # cs'" "stands_for m op c" "list_all2 (\<lambda>x c. stands_for m (fst x) c) xs cs'"
    using Cons.prems(2) x by (auto simp: list_all2_Cons1)
  obtain a1 where a1: "aof_apply m (Some aof) op now = Inr (0, Some a1)" "aof_good a1"
    "aof_log_bytes a1 = aof_log_bytes aof @ record_of c" "aof_policy a1 = aof_policy aof"
    "aof_bytes_written a1 = aof_bytes_written aof + of_nat (length (record_of c))"
    "aof_visible a1 = aof_log_bytes a1" "aof_lag now aof a1"
    using aof_apply_ok [OF Cons.prems(1) c(2), of now] by blast
  obtain a2 i where a2: "aof_run m (Some a1) xs = Inr (replicate (length xs) 0, Some a2)" "aof_good a2"
    "aof_log_bytes a2 = aof_log_bytes a1 @ concat (map record_of cs')" "aof_policy a2 = aof_policy a1"
    "aof_bytes_written a2 = aof_bytes_written a1 + of_nat (length (concat (map record_of cs')))"
    "aof_visible a2 = aof_log_bytes a2" "i \<le> length xs" "aof_synced_upto xs cs' i a1 a2"
    using Cons.IH [OF a1(2) c(3)] a1(6) by blast
  have "\<exists>i \<le> length (x # xs). aof_synced_upto (x # xs) cs i aof a2"
    using aof_synced_step [OF a1(7,3,4) a2(8,7)] x c(1) by simp
  then show ?case
    using x a1(1,3-6) a2 c(1) by (intro exI [of _ a2]) (simp add: algebra_simps)
qed

section \<open>Rewrite\<close>

lemma rewrite_node_never: "rewrite_node m hm (Some nd) i out \<noteq> Some (Inr x)"
proof
  assume a: "rewrite_node m hm (Some nd) i out = Some (Inr x)"
  have "(Some nd :: hm_node option) = None \<or> (\<exists>e. (Inr x :: (u64 \<times> bytes) res) = Inl e)"
    by (rule rewrite_node.raw_induct [where P = "\<lambda>m hm nd i out r. nd = None \<or> (\<exists>e. r = Inl e)", OF _ a])
      (fastforce split: option.splits sum.splits)
  then show False by simp
qed

lemma rewrite_loop_never:
  assumes "0 < hm_capacity hm"
  shows "rewrite_loop m hm 0 out \<noteq> Some (Inr x)"
  using assms rewrite_node_never
  by (subst rewrite_loop.simps) (auto simp: bind_eq_Some_conv split: sum.splits)

lemma dup_bytes_ok:
  assumes "length bs + 1 \<le> avail m"
  shows "\<exists>m'. dup_bytes m bs = Inr (Ptr (next_block m) 0, m') \<and> m' = snd (mem_alloc m (bs @ [0]))
    \<and> blocks m' = (blocks m)(next_block m \<mapsto> bs @ [0]) \<and> next_block m' = Suc (next_block m)
    \<and> avail m' = avail m - (length bs + 1)"
  using assms by (simp add: dup_bytes_def mem_alloc_def)

section \<open>Properties\<close>

definition aof_mem :: mem where
  "aof_mem = \<lparr>blocks = (\<lambda>_. None)(0 \<mapsto> [107, 0], 1 \<mapsto> [118, 32, 49]), next_block = 2, avail = 100\<rparr>"

definition aof_empty :: "aof_sync_policy \<Rightarrow> aof_t" where
  "aof_empty policy = \<lparr>aof_file = Some \<lparr>fl_data = [], fl_buf = [], fl_synced = 0, fl_bad = False\<rparr>,
     aof_filename = Some [], aof_policy = policy, aof_last_sync = 0, aof_bytes_written = 0\<rparr>"

lemma aof_mem_ops:
  "stands_for aof_mem (AppSet (Ptr 0 0) (Ptr 1 0) 3) (RSet [107] [118, 32, 49])"
  "stands_for aof_mem (AppDel (Ptr 0 0)) (RDel [107])"
  by (simp_all add: aof_mem_def c_string_def mem_block_def mem_read_def)

lemma aof_empty_facts: "aof_good (aof_empty p)" "aof_log_bytes (aof_empty p) = []"
  "aof_durable (aof_empty p) = []" "aof_policy (aof_empty p) = p" "aof_bytes_written (aof_empty p) = 0"
  by (simp_all add: aof_empty_def aof_good_def aof_log_bytes_def aof_durable_def written_def durable_def)

text \<open>
  An append to an open log returns 0, extends the log by exactly the record of the command,
  and counts its bytes in \<open>bytes_written\<close>, whatever the sync policy; with \<open>AOF_SYNC_ALWAYS\<close> the
  whole log is on disk when it returns.
\<close>

theorem aof_append_extends:
  assumes "aof_good aof" "stands_for m x c"
  shows "\<exists>aof'. aof_apply m (Some aof) x now = Inr (0, Some aof') \<and> aof_good aof'
    \<and> aof_log_bytes aof' = aof_log_bytes aof @ record_of c
    \<and> aof_bytes_written aof' = aof_bytes_written aof + of_nat (length (record_of c))
    \<and> (aof_policy aof = AOF_SYNC_ALWAYS \<longrightarrow> aof_durable aof' = aof_log_bytes aof')"
  using aof_apply_ok [OF assms, of now] by (auto simp: aof_lag_def policy_order)

theorem aof_append_extends_witness:
  "\<exists>aof'. aof_apply aof_mem (Some (aof_empty AOF_SYNC_NO)) (AppDel (Ptr 0 0)) 5 = Inr (0, Some aof')
    \<and> aof_log_bytes aof' = lit ''DEL 1 k'' @ [10]"
  using aof_append_extends [OF aof_empty_facts(1) aof_mem_ops(2), of AOF_SYNC_NO 5] aof_empty_facts(2)
  by (auto simp: del_record_def dec.simps)

text \<open>
  C10. Recovery: after any run of appends whose commands have no newline and fit a line, every append
  has returned 0, and the log is read, line by line and whatever the line buffer held before, as
  exactly the commands logged, old ones first, in order: all of them when only the process dies;
  the first \<open>i\<close> when the system does, where \<open>AOF_SYNC_ALWAYS\<close> loses none and \<open>AOF_SYNC_EVERYSEC\<close> only
  commands issued less than a second after the last sync.
\<close>

lemma synced_visible: "aof_good aof \<Longrightarrow> aof_durable aof = aof_log_bytes aof \<Longrightarrow> aof_visible aof = aof_log_bytes aof"
  by (auto simp: aof_good_def aof_durable_def aof_log_bytes_def aof_visible_def durable_def written_def
      dest: arg_cong [where f = length] split: option.splits)



text \<open>
  A stronger policy never loses more: of the same run of appends, what is on disk under the weaker
  policy is a prefix of what is on disk under the stronger one.
\<close>

theorem aof_policy_mono:
  assumes "aof_good aof" "aof_durable aof = aof_log_bytes aof" "p \<le> q"
    and "list_all2 (\<lambda>x c. stands_for m (fst x) c) xs cs"
  shows "\<exists>ap aq rest. aof_run m (Some (aof\<lparr>aof_policy := p\<rparr>)) xs = Inr (replicate (length xs) 0, Some ap)
    \<and> aof_run m (Some (aof\<lparr>aof_policy := q\<rparr>)) xs = Inr (replicate (length xs) 0, Some aq)
    \<and> aof_durable aq = aof_durable ap @ rest"
proof -
  have facts: "aof_good (aof\<lparr>aof_policy := p\<rparr>)" "aof_durable (aof\<lparr>aof_policy := p\<rparr>) = aof_log_bytes aof"
    "aof_log_bytes (aof\<lparr>aof_policy := p\<rparr>) = aof_log_bytes aof" for p
    using assms(1,2) by (simp_all add: aof_good_def aof_durable_def aof_log_bytes_def)
  have l: "length xs = length cs" using list_all2_lengthD [OF assms(4)] .
  have run: "\<exists>a i. aof_run m (Some (aof\<lparr>aof_policy := p\<rparr>)) xs = Inr (replicate (length xs) 0, Some a)
      \<and> aof_durable a = aof_log_bytes aof @ concat (map record_of (take i cs))
      \<and> (p = AOF_SYNC_ALWAYS \<longrightarrow> i = length cs) \<and> (p = AOF_SYNC_NO \<longrightarrow> i = 0)" for p
  proof -
    obtain a i where "aof_run m (Some (aof\<lparr>aof_policy := p\<rparr>)) xs = Inr (replicate (length xs) 0, Some a)"
      "aof_synced_upto xs cs i (aof\<lparr>aof_policy := p\<rparr>) a"
      using aof_run_ok [OF facts(1) assms(4), of p] by blast
    then show ?thesis using l by (intro exI [of _ a] exI [of _ i]) (simp add: aof_synced_upto_def facts)
  qed
  obtain ap i where ap: "aof_run m (Some (aof\<lparr>aof_policy := p\<rparr>)) xs = Inr (replicate (length xs) 0, Some ap)"
    "aof_durable ap = aof_log_bytes aof @ concat (map record_of (take i cs))" "p = AOF_SYNC_NO \<Longrightarrow> i = 0"
    using run [of p] by blast
  obtain aq j where aq: "aof_run m (Some (aof\<lparr>aof_policy := q\<rparr>)) xs = Inr (replicate (length xs) 0, Some aq)"
    "aof_durable aq = aof_log_bytes aof @ concat (map record_of (take j cs))" "q = AOF_SYNC_ALWAYS \<Longrightarrow> j = length cs"
    using run [of q] by blast
  have "p = q \<or> i = 0 \<or> j = length cs"
    using assms(3) ap(3) aq(3) by (cases p; cases q) (auto simp: policy_order)
  moreover have "\<exists>rest. aof_durable aq = aof_durable ap @ rest" if "j = length cs"
  proof -
    have "concat (map record_of cs) = concat (map record_of (take i cs)) @ concat (map record_of (drop i cs))"
      by (simp flip: concat_append map_append)
    then show ?thesis using ap(2) aq(2) that by simp
  qed
  ultimately show ?thesis using ap(1,2) aq(1,2) by (cases "p = q"; cases "i = 0") auto
qed

text \<open>
  C36. A value with a newline is not recovered: its record is read as several lines. Storing the
  bytes \<open>v\<close>, newline, \<open>DEL 1 k\<close> under any key whose record fits a line is read back as a
  store of something else followed by a deletion of the key \<open>k\<close>, a command nobody issued.
\<close>

theorem aof_newline_injects:
  assumes "0 \<notin> set key" "10 \<notin> set key" "10 \<notin> set v" "length (set_head key (length v + 8)) + length v + 1 \<le> 4087"
    and "length line = 4096"
  shows "\<exists>w. log_read replay_parse line (set_record key (v @ [10] @ lit ''DEL 1 k''))
      = Inr [RSet key w, RDel [107]] \<and> w \<noteq> v @ [10] @ lit ''DEL 1 k''"
proof -
  let ?h = "set_head key (length v + 8)" and ?d = "lit ''DEL 1 k''"
  let ?l1 = "?h @ v @ [10]" and ?l2 = "?d @ [10]"
  let ?line1 = "fgets_fill line ?l1"
  let ?w = "v @ 10 # take 7 (0 # drop (length ?l1 + 1) line)"
  have len: "length (v @ [10] @ ?d) = length v + 8" by simp
  have rec: "set_record key (v @ [10] @ ?d) = ?l1 @ ?l2"
    unfolding set_record_def len by (simp only: append_assoc lit_words)
  have nl: "10 \<notin> set (?h @ v)" using assms(2,3) dec_no(2) by (auto simp: set_head_def)
  have n1: "next_line 4096 (?l1 @ ?l2) = ?l1"
    using next_line_record [OF nl, of 4096 ?l2] assms(4) by simp
  have n2: "next_line 4096 ?l2 = ?l2"
    using next_line_record [of "?d" 4096 "[]"] by simp
  have lw: "length ?w = length v + 8" using assms(4,5) by simp
  have "?w @ drop 7 (0 # drop (length ?l1 + 1) line) = v @ 10 # 0 # drop (length ?l1 + 1) line"
    by (simp only: append_Cons append_assoc append_take_drop_id)
  then have split1: "?line1 = set_head key (length ?w) @ ?w @ drop 7 (0 # drop (length ?l1 + 1) line)"
    unfolding lw by (simp add: fgets_fill_def)
  have lk: "length key < 2 ^ 64" "length ?w < 2 ^ 64" using assms(4) lw by (simp_all add: set_head_def)
  have z: "0 \<in> set (?w @ drop 7 (0 # drop (length ?l1 + 1) line))" by simp
  have p1: "replay_parse ?line1 = Inr (RSet key ?w)"
  proof -
    let ?post = "drop 7 (0 # drop (length ?l1 + 1) line)"
    show ?thesis unfolding split1 by (rule parse_set_any [OF z lk])
  qed
  have p2: "replay_parse (fgets_fill ?line1 ?l2) = Inr (RDel [107])"
    using parse_record [of "RDel [107]" ?line1] by (simp add: del_record_def dec.simps)
  have "log_read replay_parse line (?l1 @ ?l2) = Inr [RSet key ?w, RDel [107]]"
    using n1 n2 p1 p2 by (subst log_read.simps) (subst log_read.simps, simp add: Let_def)
  moreover have "?w \<noteq> v @ [10] @ ?d" by (simp add: take_Cons')
  ultimately show ?thesis unfolding rec by blast
qed

theorem aof_newline_injects_witness:
  "\<exists>w. log_read replay_parse (replicate 4096 7) (set_record [98] ([120] @ [10] @ lit ''DEL 1 k''))
    = Inr [RSet [98] w, RDel [107]] \<and> w \<noteq> [120] @ [10] @ lit ''DEL 1 k''"
  by (rule aof_newline_injects) (simp_all add: set_head_def dec.simps)

text \<open>
  \<open>aof_rewrite\<close> never completes on a table with a bucket: its inner loop has no exit, it
  writes one bucket for ever or faults on it.
\<close>

theorem aof_rewrite_never_completes:
  assumes "aof_filename aof \<noteq> None" "0 < hm_capacity hm"
  shows "aof_rewrite m (Some aof) (Some hm) True renamed reopen \<noteq> Some (Inr x)"
  using rewrite_loop_never [OF assms(2), of m "[]"] assms(1)
  by (auto simp: aof_rewrite_def bind_eq_Some_conv rbind_eq_Inr)

theorem aof_rewrite_never_completes_witness:
  "\<forall>x. aof_rewrite (mem_init 0) (Some (aof_empty AOF_SYNC_NO)) (Some (demo_table 4)) True True True \<noteq> Some (Inr x)"
  using aof_rewrite_never_completes [of "aof_empty AOF_SYNC_NO" "demo_table 4"]
  by (simp add: aof_empty_def demo_table_def)

end
