(* ===== verification/Storage.thy ===== *)
theory Storage
  imports Aof_Props
begin

text \<open>
  \<^verbatim>\<open>src/core/storage/storage.c\<close>: the binary snapshot. Files are byte lists, integers little-endian
  objects; the clock, the outcome of opening and renaming files, the result of \<open>fork\<close> and what
  uninitialised stack objects hold are parameters.
\<close>

section \<open>Saving\<close>

definition DB_VERSION :: u32 where "DB_VERSION = 1"

definition DB_MAGIC :: bytes where "DB_MAGIC = lit ''OrcaDB''"

definition checksum :: "bytes \<Rightarrow> u32" where
  "checksum data = foldl (\<lambda>csum b. csum * 31 + ucast b) 0 data"

text \<open>The header \<open>db_save\<close> writes: the magic with its terminator, 7 bytes.\<close>

definition save_header :: "u64 \<Rightarrow> u64 \<Rightarrow> bytes" where
  "save_header timestamp cnt =
     DB_MAGIC @ [0] @ le_bytes 4 DB_VERSION @ le_bytes 8 timestamp @ le_bytes 8 cnt"

definition save_entry :: "mem \<Rightarrow> hm_node \<Rightarrow> (bytes \<times> u32) res" where
  "save_entry m node =
     (let key_len = ucast (node_key_len node) :: u32; val_len = ucast (node_val_len node) :: u32 in
      rbind (mem_read m (node_key node) (unat key_len))
        (\<lambda>k. if node_value node \<noteq> NULL \<and> 0 < val_len
           then rbind (mem_read m (node_value node) (unat val_len))
             (\<lambda>v. Inr (le_bytes 4 key_len @ k @ le_bytes 4 val_len @ v, checksum k + checksum v))
           else Inr (le_bytes 4 key_len @ k @ le_bytes 4 val_len, checksum k)))"

text \<open>\<open>while (node)\<close>: the node is never changed.\<close>

partial_function (option) save_node ::
    "mem \<Rightarrow> hashmap \<Rightarrow> hm_node option \<Rightarrow> u64 \<Rightarrow> bytes \<Rightarrow> u32 \<Rightarrow> (u64 \<times> bytes \<times> u32) res option" where
  "save_node m hm node i out csum =
     (case node of
        None \<Rightarrow> Some (Inr (i, out, csum))
      | Some nd \<Rightarrow>
          (case save_entry m nd of
             Inl e \<Rightarrow> Some (Inl e)
           | Inr bc \<Rightarrow> save_node m hm node (next_idx hm i) (out @ fst bc) (csum + snd bc)))"

partial_function (option) save_loop ::
    "mem \<Rightarrow> hashmap \<Rightarrow> u64 \<Rightarrow> bytes \<Rightarrow> u32 \<Rightarrow> (bytes \<times> u32) res option" where
  "save_loop m hm i out csum =
     (if i < hm_capacity hm then
        (case bucket hm i of
           Inl e \<Rightarrow> Some (Inl e)
         | Inr nd \<Rightarrow> Option.bind (save_node m hm (Some nd) i out csum)
             (\<lambda>r. case r of
                 Inl e \<Rightarrow> Some (Inl e)
               | Inr ios \<Rightarrow> save_loop m hm (fst ios + 1) (fst (snd ios)) (snd (snd ios))))
      else Some (Inr (out, csum)))"

text \<open>\<open>opens\<close> and \<open>renamed\<close> are the outcomes of \<open>fopen\<close> and \<open>rename\<close>; the new file is the second answer.\<close>

definition db_save ::
    "mem \<Rightarrow> hashmap option \<Rightarrow> bytes option \<Rightarrow> bool \<Rightarrow> bool \<Rightarrow> u64 \<Rightarrow> (int \<times> bytes option) res option" where
  "db_save m hmp filename opens renamed timestamp =
     (case (hmp, filename) of
        (Some hm, Some _) \<Rightarrow>
          if \<not> opens then Some (Inr (- 1, None))
          else map_option (map_sum id (\<lambda>(out, csum).
                 if renamed then (0, Some (out @ le_bytes 4 csum)) else (- 1, None)))
               (save_loop m hm 0 (save_header timestamp (hm_count hm)) 0)
      | _ \<Rightarrow> Some (Inr (- 1, None)))"

text \<open>\<open>fork\<close> fails, or the caller is the child (which saves and exits), or the parent.\<close>

datatype fork_result = Fork_failed | Fork_child | Fork_parent

datatype proc_outcome = Returns int | Exits int

definition db_save_proc ::
    "fork_result \<Rightarrow> mem \<Rightarrow> hashmap option \<Rightarrow> bytes option \<Rightarrow> bool \<Rightarrow> bool \<Rightarrow> u64
      \<Rightarrow> (proc_outcome \<times> bytes option) res option" where
  "db_save_proc fk m hmp filename opens renamed timestamp =
     (case fk of
        Fork_failed \<Rightarrow> Some (Inr (Returns (- 1), None))
      | Fork_child \<Rightarrow>
          map_option (map_sum id (\<lambda>(ret, file). (Exits (if ret = 0 then 0 else 1), file)))
            (db_save m hmp filename opens renamed timestamp)
      | Fork_parent \<Rightarrow> Some (Inr (Returns 0, None)))"

text \<open>The \<open>_WIN32\<close> branch saves in the caller.\<close>

definition db_save_proc_win32 ::
    "mem \<Rightarrow> hashmap option \<Rightarrow> bytes option \<Rightarrow> bool \<Rightarrow> bool \<Rightarrow> u64 \<Rightarrow> (proc_outcome \<times> bytes option) res option" where
  "db_save_proc_win32 m hmp filename opens renamed timestamp =
     map_option (map_sum id (apfst Returns)) (db_save m hmp filename opens renamed timestamp)"

section \<open>Loading\<close>

text \<open>\<open>fread\<close> of an object of \<open>n\<close> bytes: what the object holds, whether it was read whole, the rest.\<close>

definition fread_obj :: "(nat \<Rightarrow> byte) \<Rightarrow> nat \<Rightarrow> bytes \<Rightarrow> bytes \<times> bool \<times> bytes" where
  "fread_obj old n inp = (take n inp @ map old [length (take n inp)..<n], n \<le> length inp, drop n inp)"

text \<open>
  \<open>malloc(len + 1)\<close> in 32-bit arithmetic and \<open>fread(p, 1, len, file)\<close>: \<open>None\<close> when the allocation
  or the read falls short. A length of \<open>2 ^ 32 - 1\<close> asks for 0 bytes and overruns them.
\<close>

definition load_block :: "mem \<Rightarrow> u32 \<Rightarrow> bytes \<Rightarrow> (ptr \<times> bytes \<times> mem \<times> bytes) option res" where
  "load_block m len inp =
     (let bs = take (unat len) inp in
      if len + 1 = 0 then (if bs = [] then Inr None else Inl OutOfBounds)
      else (case mem_alloc m (bs @ [0]) of
              (p, m') \<Rightarrow>
                if p = NULL \<or> length bs < unat len then Inr None
                else Inr (Some (p, bs, m', drop (unat len) inp))))"

text \<open>
  One round of the loop: the table, memory, checksum and rest of the file, or one of the error
  exits with the memory it leaves (what was loaded before is not given back).
\<close>

type_synonym load_state = "hashmap \<times> mem \<times> u32 \<times> bytes"

datatype load_result = Load_failed mem | Loaded load_state

definition load_insert ::
    "hashmap \<Rightarrow> mem \<Rightarrow> ptr \<Rightarrow> ptr \<Rightarrow> u32 \<Rightarrow> u32 \<Rightarrow> bytes \<Rightarrow> load_result res option" where
  "load_insert hm m key val val_len csum inp =
     (case hm_insert m (Some hm) key val (ucast val_len) of
        None \<Rightarrow> None
      | Some (Inl e) \<Rightarrow> Some (Inl e)
      | Some (Inr (rc, None)) \<Rightarrow> Some (Inl NullDeref)
      | Some (Inr (rc, Some hm')) \<Rightarrow>
          Some (rbind (mem_free m key) (\<lambda>m'. Inr (Loaded (hm', m', csum, inp)))))"

definition fail_free :: "mem \<Rightarrow> ptr \<Rightarrow> load_result res option" where
  "fail_free m key = Some (rbind (mem_free m key) (\<lambda>m'. Inr (Load_failed m')))"

definition load_entry :: "load_state \<Rightarrow> load_result res option" where
  "load_entry = (\<lambda>(hm, m, csum, inp).
     let (klb, kfull, inp1) = fread_obj (\<lambda>_. 0) 4 inp in
     if \<not> kfull then Some (Inr (Load_failed m))
     else (case load_block m (le_word klb) inp1 of
             Inl e \<Rightarrow> Some (Inl e)
           | Inr None \<Rightarrow> Some (Inr (Load_failed m))
           | Inr (Some (key, k, m1, inp2)) \<Rightarrow>
               let (vlb, vfull, inp3) = fread_obj (\<lambda>_. 0) 4 inp2; val_len = le_word vlb :: u32 in
               if \<not> vfull then fail_free m1 key
               else if 0 < val_len then
                 (case load_block m1 val_len inp3 of
                    Inl e \<Rightarrow> Some (Inl e)
                  | Inr None \<Rightarrow> fail_free m1 key
                  | Inr (Some (val, v, m2, inp4)) \<Rightarrow>
                      load_insert hm m2 key val val_len (csum + checksum k + checksum v) inp4)
               else load_insert hm m1 key NULL val_len (csum + checksum k) inp3))"

fun load_loop :: "nat \<Rightarrow> load_state \<Rightarrow> load_result res option" where
  "load_loop 0 s = Some (Inr (Loaded s))"
| "load_loop (Suc n) s =
     (case load_entry s of
        Some (Inr (Loaded s')) \<Rightarrow> load_loop n s'
      | r \<Rightarrow> r)"

text \<open>
  \<open>existing\<close> is the file; \<open>stack i\<close> what the \<open>i\<close>-th local object holds before it is read into. The answer
  is the table, the memory, and whether the checksum agreed (a mismatch is only printed).
\<close>

definition db_load ::
    "mem \<Rightarrow> bytes option \<Rightarrow> bytes option \<Rightarrow> (nat \<Rightarrow> nat \<Rightarrow> byte) \<Rightarrow> (hashmap option \<times> mem \<times> bool) res option" where
  "db_load m filename existing stack =
     (case (filename, existing) of
        (Some _, Some inp0) \<Rightarrow>
          let (magic, _, inp1) = fread_obj (stack 0) 6 inp0 in
          if magic \<noteq> DB_MAGIC then Some (Inr (None, m, True))
          else
            let (ver, _, inp2) = fread_obj (stack 1) 4 inp1 in
            if le_word ver \<noteq> DB_VERSION then Some (Inr (None, m, True))
            else
              let (ts, _, inp3) = fread_obj (stack 2) 8 inp2;
                  (cnt, _, inp4) = fread_obj (stack 3) 8 inp3;
                  n = le_word cnt :: u64;
                  capacity = (if 2 * n < 1024 then 1024 else 2 * n)
              in (case hm_create m capacity of
                    (None, m1) \<Rightarrow> Some (Inr (None, m1, True))
                  | (Some hm, m1) \<Rightarrow>
                      (case load_loop (unat n) (hm, m1, 0, inp4) of
                         None \<Rightarrow> None
                       | Some (Inl e) \<Rightarrow> Some (Inl e)
                       | Some (Inr (Load_failed m2)) \<Rightarrow> Some (Inr (None, hm_free m2 (Some hm) 1, True))
                       | Some (Inr (Loaded (hm', m2, csum, inp5))) \<Rightarrow>
                           Some (Inr (Some hm', m2, le_word (fst (fread_obj (stack 4) 4 inp5)) = csum))))
      | _ \<Rightarrow> Some (Inr (None, m, True)))"

end
