(* ===== verification/Hashmap_Dangling.thy ===== *)
theory Hashmap_Dangling
  imports Hashmap_Frame
begin

text \<open>
  The table of \<^verbatim>\<open>src/core/hashmap/hashmap.c\<close> all of whose keys have been freed, as \<open>aof_replay\<close> and \<open>db_load\<close>
  leave it. The table is compared with itself over the memory in which its keys are still there. As
  long as the hash or the length of a key decides, the two agree; the first \<open>memcmp\<close> on a stored key
  is a use after free.
\<close>

section \<open>Following a probe with other keys\<close>

text \<open>
  A probe for \<open>k\<close> in memory \<open>g\<close> and one for \<open>k'\<close> in memory \<open>m\<close> with the same hash: if each comparison faults
  in \<open>m\<close>, or fails in both, the second probe takes the path of the first until it faults.
\<close>

definition follows :: "mem \<Rightarrow> bytes \<Rightarrow> mem \<Rightarrow> bytes \<Rightarrow> u64 \<Rightarrow> fault \<Rightarrow> hashmap \<Rightarrow> bool" where
  "follows g k m k' hash e hm \<longleftrightarrow> (\<forall>nd \<in> set (hm_buckets hm). occ nd \<longrightarrow>
     key_match m nd hash k' = Inl e \<or> (key_match m nd hash k' = Inr False \<and> key_match g nd hash k = Inr False))"

lemma followsD:
  assumes "follows g k m k' hash e hm" "bucket hm i = Inr nd" "node_hash nd \<noteq> 0"
  shows "key_match m nd hash k' = Inl e \<or> (key_match m nd hash k' = Inr False \<and> key_match g nd hash k = Inr False)"
  using assms by (auto simp: follows_def bucket_def occ_def split: if_splits)

lemma get_follows:
  assumes "probe_loop g k hash hm dib i = Some (Inr t)" "follows g k m k' hash e hm"
  shows "hm_get_loop m k' hash hm dib i = Some (Inl e) \<or> (t = None \<and> hm_get_loop m k' hash hm dib i = Some (Inr NULL))"
proof -
  have "r = Inr t \<longrightarrow> follows g k m k' hash e hm \<longrightarrow> hm_get_loop m k' hash hm dib i = Some (Inl e)
      \<or> (t = None \<and> hm_get_loop m k' hash hm dib i = Some (Inr NULL))"
    if "probe_loop g k hash hm dib i = Some r" for r
  proof (rule probe_loop.raw_induct [where P = "\<lambda>g k hash hm dib i r. r = Inr t \<longrightarrow> follows g k m k' hash e hm \<longrightarrow>
      hm_get_loop m k' hash hm dib i = Some (Inl e) \<or> (t = None \<and> hm_get_loop m k' hash hm dib i = Some (Inr NULL))",
      OF _ that], goal_cases)
    case (1 f g k hash hm dib i r)
    show ?case
    proof (intro impI)
      assume r: "r = Inr t" and fo: "follows g k m k' hash e hm"
      obtain nd where nd: "bucket hm i = Inr nd" using 1(2) r by (cases "bucket hm i") auto
      show "hm_get_loop m k' hash hm dib i = Some (Inl e) \<or> (t = None \<and> hm_get_loop m k' hash hm dib i = Some (Inr NULL))"
      proof (cases "node_hash nd = 0 \<or> node_dib nd < dib \<or> key_match m nd hash k' = Inl e")
        case True
        then show ?thesis using 1(2) r nd by (subst (1 2) hm_get_loop.simps) auto
      next
        case False
        then have k: "key_match m nd hash k' = Inr False" "key_match g nd hash k = Inr False"
          using followsD [OF fo nd] by auto
        then show ?thesis using 1(1) [of g k hash hm "dib + 1" "next_idx hm i" r] 1(2) r fo nd False
          by (subst (1 2) hm_get_loop.simps) simp
      qed
    qed
  qed
  from this [OF assms(1)] show ?thesis using assms(2) by blast
qed

lemma insert_follows:
  assumes "probe_loop g k hash hm dib i = Some (Inr (Some t))" "follows g k m k' hash e hm"
    and "\<And>nd. nd \<in> set (hm_buckets hm) \<Longrightarrow> occ nd \<Longrightarrow> \<not> is_tomb nd" "node_dib cur = dib"
  shows "hm_insert_loop m k' hash val vl hm cur i = Some (Inl e)"
proof -
  define free where "free = (\<lambda>hm :: hashmap. \<forall>nd \<in> set (hm_buckets hm). occ nd \<longrightarrow> \<not> is_tomb nd)"
  have "r = Inr (Some t) \<longrightarrow> follows g k m k' hash e hm \<longrightarrow> free hm \<longrightarrow>
      (\<forall>cur. node_dib cur = dib \<longrightarrow> hm_insert_loop m k' hash val vl hm cur i = Some (Inl e))"
    if "probe_loop g k hash hm dib i = Some r" for r
  proof (rule probe_loop.raw_induct [where P = "\<lambda>g k hash hm dib i r. r = Inr (Some t) \<longrightarrow> follows g k m k' hash e hm \<longrightarrow>
      free hm \<longrightarrow> (\<forall>cur. node_dib cur = dib \<longrightarrow> hm_insert_loop m k' hash val vl hm cur i = Some (Inl e))",
      OF _ that], goal_cases)
    case (1 f g k hash hm dib i r)
    show ?case
    proof (intro impI allI)
      fix cur :: hm_node
      assume r: "r = Inr (Some t)" and fo: "follows g k m k' hash e hm" and fr: "free hm" and d: "node_dib cur = dib"
      obtain nd where nd: "bucket hm i = Inr nd" using 1(2) r by (cases "bucket hm i") auto
      have c: "node_hash nd \<noteq> 0" "\<not> node_dib nd < dib" using 1(2) r nd by (auto split: if_splits)
      have tomb: "\<not> is_tomb nd" using fr nd c(1) by (auto simp: free_def occ_def bucket_def split: if_splits)
      show "hm_insert_loop m k' hash val vl hm cur i = Some (Inl e)"
      proof (cases "key_match m nd hash k' = Inl e")
        case True
        then show ?thesis using nd c tomb by (subst hm_insert_loop.simps) simp
      next
        case False
        then have k: "key_match m nd hash k' = Inr False" "key_match g nd hash k = Inr False"
          using followsD [OF fo nd c(1)] by auto
        have "hm_insert_loop m k' hash val vl hm (cur\<lparr>node_dib := node_dib cur + 1\<rparr>) (next_idx hm i) = Some (Inl e)"
          using 1(1) [of g k hash hm "dib + 1" "next_idx hm i" r] 1(2) r fo fr nd c k d by simp
        then show ?thesis using nd c tomb k d by (subst hm_insert_loop.simps) simp
      qed
    qed
  qed
  from this [OF assms(1)] show ?thesis using assms(2-4) by (simp add: free_def)
qed

text \<open>An insertion whose comparisons give the same in both memories.\<close>

lemma insert_agrees:
  assumes "hm_insert_loop g k hash val vl hm cur i = Some r"
    and "\<And>nd. nd \<in> set (hm_buckets hm) \<Longrightarrow> occ nd \<Longrightarrow> key_match m nd hash k = key_match g nd hash k"
    and "key_match m cur hash k = key_match g cur hash k"
  shows "hm_insert_loop m k hash val vl hm cur i = Some r"
proof -
  define agree where "agree = (\<lambda>g k hash (nd :: hm_node). key_match m nd hash k = key_match g nd hash k)"
  define agrees where "agrees = (\<lambda>g k hash (hm :: hashmap). \<forall>nd \<in> set (hm_buckets hm). occ nd \<longrightarrow> agree g k hash nd)"
  have put: "agrees g k hash (set_bucket hm i nd)" if "agrees g k hash hm" "agree g k hash nd" for g k hash hm i nd
    using that set_update_subset_insert [of "hm_buckets hm" "unat i" nd] by (auto simp: agrees_def set_bucket_def)
  have dib [simp]: "agree g k hash (nd\<lparr>node_dib := d\<rparr>) = agree g k hash nd" for g k hash nd d
    by (simp add: agree_def key_match_def)
  have "agrees g k hash hm \<longrightarrow> agree g k hash cur \<longrightarrow> hm_insert_loop m k hash val vl hm cur i = Some r"
  proof (rule hm_insert_loop.raw_induct [where P = "\<lambda>g k hash val vl hm cur i r.
      agrees g k hash hm \<longrightarrow> agree g k hash cur \<longrightarrow> hm_insert_loop m k hash val vl hm cur i = Some r", OF _ assms(1)], goal_cases)
    case (1 f g k hash val vl hm cur i r)
    show ?case
    proof (intro impI)
      assume a: "agrees g k hash hm" "agree g k hash cur"
      have same: "key_match m nd hash k = key_match g nd hash k" "agree g k hash nd"
        if "bucket hm i = Inr nd" "node_hash nd \<noteq> 0" for nd
        using that a(1) by (auto simp: agrees_def agree_def occ_def bucket_def split: if_splits)
      show "hm_insert_loop m k hash val vl hm cur i = Some r"
        using 1(2) same a put [OF a]
          1(1) [of g k hash val vl "set_bucket hm i cur" _ "next_idx hm i" r]
          1(1) [of g k hash val vl hm _ "next_idx hm i" r]
        by (subst hm_insert_loop.simps) (auto split: sum.splits if_splits)
    qed
  qed
  then show ?thesis using assms(2,3) by (simp add: agrees_def agree_def)
qed

section \<open>A table whose keys are gone\<close>

text \<open>Keys the table cannot tell apart without reading them.\<close>

definition twin :: "bytes \<Rightarrow> bytes \<Rightarrow> bool" where
  "twin k k' \<longleftrightarrow> FNV_1a k = FNV_1a k' \<and> length k = length k'"

lemma twin_refl [simp]: "twin k k"
  by (simp add: twin_def)

text \<open>
  \<open>g\<close> is the memory in which nothing was freed: what is still there in \<open>m\<close> is as in \<open>g\<close>. \<open>dangles\<close>: the table
  is well formed over \<open>g\<close>, and in \<open>m\<close> all its keys, none of them empty, have been freed.
\<close>

definition ghost :: "mem \<Rightarrow> mem \<Rightarrow> bool" where
  "ghost g m \<longleftrightarrow> mem_ok g \<and> next_block g = next_block m \<and> (\<forall>b. blocks m b = None \<or> blocks m b = blocks g b)"

definition dead :: "mem \<Rightarrow> ptr \<Rightarrow> bool" where
  "dead m p \<longleftrightarrow> (\<exists>b off. p = Ptr b off \<and> blocks m b = None)"

definition dangles :: "mem \<Rightarrow> mem \<Rightarrow> hashmap \<Rightarrow> bool" where
  "dangles g m hm \<longleftrightarrow> hm_ok g hm \<and> keys_where (dead m) hm \<and> [] \<notin> dom (hm_view g hm)"

lemma view_node:
  assumes "hm_ok g hm" "nd \<in> set (hm_buckets hm)" "occ nd"
  shows "key_of g nd \<in> dom (hm_view g hm)" "node_ok g nd"
    "FNV_1a (key_of g nd) = node_hash nd" "length (key_of g nd) = unat (node_key_len nd)"
proof -
  show "key_of g nd \<in> dom (hm_view g hm)"
  proof -
    have "(key_of g nd, node_value nd) \<in> set (entries g (hm_buckets hm))" using assms(2,3) by (simp add: entries_def)
    then show ?thesis using weak_map_of_SomeI by (fastforce simp: hm_view_def)
  qed
  show n: "node_ok g nd" using assms by (auto simp: hm_ok_def table_ok_def nodes_ok_def)
  show "FNV_1a (key_of g nd) = node_hash nd" "length (key_of g nd) = unat (node_key_len nd)"
    using n by (auto simp: node_ok_def key_of_def)
qed

lemma dangling_match:
  assumes "dangles g m hm" "nd \<in> set (hm_buckets hm)" "occ nd" "length k < 2 ^ 64"
  shows "key_match m nd (FNV_1a k) k = (if twin (key_of g nd) k then Inl UseAfterFree else Inr False)"
proof -
  have g: "hm_ok g hm" "[] \<notin> dom (hm_view g hm)" using assms(1) by (simp_all add: dangles_def)
  note v = view_node [OF g(1) assms(2,3)]
  have ne: "key_of g nd \<noteq> []" using v(1) g(2) by metis
  have "length (key_of g nd) < 2 ^ 64" using v(4) unsigned_less [of "node_key_len nd", where ?'a = nat] by simp
  then have "(of_nat (length (key_of g nd)) :: u64) = of_nat (length k) \<longleftrightarrow> length (key_of g nd) = length k"
    by (intro iffI of_nat_u64_inj [OF _ _ assms(4)]) simp_all
  then have l: "(ucast (node_key_len nd) :: u64) = of_nat (length k) \<longleftrightarrow> length (key_of g nd) = length k"
    unfolding v(4) by (simp only: of_nat_unat)
  obtain b off where b: "node_key nd = Ptr b off" "blocks m b = None"
    using assms(1-3) by (auto simp: dangles_def keys_where_def dead_def)
  show ?thesis
  proof (cases "twin (key_of g nd) k")
    case True
    then have "k \<noteq> []" using ne by (auto simp: twin_def)
    then have "mem_read m (node_key nd) (length k) = Inl UseAfterFree" using b by (simp add: mem_read_def mem_block_def)
    then show ?thesis using True l v(3) by (simp add: key_match_def twin_def)
  next
    case False
    then have "\<not> (node_hash nd = FNV_1a k \<and> (ucast (node_key_len nd) :: u64) = of_nat (length k))"
      using l v(3) by (simp add: twin_def)
    then show ?thesis using False by (simp only: key_match_def if_False)
  qed
qed

lemma dangling_follows:
  assumes "dangles g m hm" "twin k' k" "length k < 2 ^ 64" "\<And>j. j \<in> dom (hm_view g hm) \<Longrightarrow> twin j k \<Longrightarrow> e = UseAfterFree"
    and "k' \<in> dom (hm_view g hm) \<or> k' = k"
  shows "follows g k' m k (FNV_1a k) e hm"
  unfolding follows_def
proof (intro ballI impI)
  fix nd assume nd: "nd \<in> set (hm_buckets hm)" "occ nd"
  have ok: "hm_ok g hm" using assms(1) by (simp add: dangles_def)
  note v = view_node [OF ok nd]
  have "key_match g nd (FNV_1a k) k' = Inr (key_of g nd = k')"
    using key_match_ok [OF v(2), of k'] assms(2,3) by (simp add: twin_def)
  then show "key_match m nd (FNV_1a k) k = Inl e \<or> key_match m nd (FNV_1a k) k = Inr False \<and> key_match g nd (FNV_1a k) k' = Inr False"
    using dangling_match [OF assms(1) nd assms(3)] assms(2,4) v(1) by (auto simp: twin_def)
qed

lemma dangling_get:
  assumes d: "dangles g m hm" and room: "room (hm_buckets hm)" and k: "c_string m q = Inr k" "length k < 2 ^ 64"
  shows "hm_get m (Some hm) q = Some (if \<exists>j \<in> dom (hm_view g hm). twin j k then Inl UseAfterFree else Inr NULL)"
proof -
  have ok: "hm_ok g hm" using d by (simp add: dangles_def)
  have nn: "q \<noteq> NULL" using k(1) by (auto simp: c_string_def mem_block_def)
  have "hm_get_loop m k (FNV_1a k) hm 0 (idx hm (FNV_1a k))
      = Some (if \<exists>j \<in> dom (hm_view g hm). twin j k then Inl UseAfterFree else Inr NULL)"
  proof (cases "\<exists>j \<in> dom (hm_view g hm). twin j k")
    case True
    then obtain j v where j: "hm_view g hm j = Some v" "twin j k" by blast
    then obtain t where p: "probe_loop g j (FNV_1a k) hm 0 (idx hm (FNV_1a k)) = Some (Inr (Some t))"
      using probe_spec [OF ok room, of j] k(2) by (auto simp: twin_def)
    have "follows g j m k (FNV_1a k) UseAfterFree hm" using j by (intro dangling_follows [OF d j(2) k(2)]) auto
    then show ?thesis using get_follows [OF p] True by auto
  next
    case False
    then have n: "hm_view g hm k = None" using twin_refl by blast
    then have p: "probe_loop g k (FNV_1a k) hm 0 (idx hm (FNV_1a k)) = Some (Inr None)"
      using probe_spec [OF ok room k(2)] by auto
    have "follows g k m k (FNV_1a k) e hm" for e using False by (intro dangling_follows [OF d twin_refl k(2)]) auto
    then have "hm_get_loop m k (FNV_1a k) hm 0 (idx hm (FNV_1a k)) \<in> {Some (Inl e), Some (Inr NULL)}" for e
      using get_follows [OF p] by blast
    from this [of UseAfterFree] this [of NullDeref] show ?thesis using False by auto
  qed
  then show ?thesis using nn k(1) by (simp add: hm_get_def)
qed

lemma dangling_insert_twin:
  assumes d: "dangles g m hm" and room: "room (hm_buckets hm)" and k: "c_string m p = Inr k" "length k < 2 ^ 64"
    and j: "j \<in> dom (hm_view g hm)" "twin j k"
  shows "hm_insert m (Some hm) p v vl = Some (Inl UseAfterFree)"
proof -
  have ok: "hm_ok g hm" using d by (simp add: dangles_def)
  have nn: "p \<noteq> NULL" using k(1) by (auto simp: c_string_def mem_block_def)
  obtain t where t: "probe_loop g j (FNV_1a k) hm 0 (idx hm (FNV_1a k)) = Some (Inr (Some t))"
    using probe_spec [OF ok room, of j] k(2) j by (auto simp: twin_def)
  have f: "follows g j m k (FNV_1a k) UseAfterFree hm" using j by (intro dangling_follows [OF d j(2) k(2)]) auto
  have "\<not> is_tomb nd" if "nd \<in> set (hm_buckets hm)" "occ nd" for nd
    using view_node(2) [OF ok that] by (rule node_ok_not_tomb)
  then show ?thesis using insert_follows [OF t f] nn k(1) by (simp add: hm_insert_def new_node_def)
qed

lemma dangling_insert_new:
  assumes d: "dangles g m hm" and g: "ghost g m" and full: "unat (hm_count hm) < hm_bound hm"
    and k: "c_string m p = Inr k" "storable_key k" "k \<noteq> []" "\<forall>j \<in> dom (hm_view g hm). \<not> twin j k"
    and p: "p = Ptr b 0" and free: "mem_free m p = Inr m'"
  shows "\<exists>hm'. hm_insert m (Some hm) p v vl = Some (Inr (0, Some hm')) \<and> dangles g m' hm' \<and> ghost g m'
    \<and> hm_view g hm' = (hm_view g hm)(k \<mapsto> v) \<and> hm_capacity hm' = hm_capacity hm
    \<and> unat (hm_count hm') = unat (hm_count hm) + 1"
proof -
  have ok: "hm_ok g hm" using d by (simp add: dangles_def)
  have nn: "p \<noteq> NULL" using p by simp
  have len: "length k < 2 ^ 64" using k(2) by (simp add: storable_key_def)
  have live: "blocks m b \<noteq> None" using free p by (auto simp: mem_free_def split: option.splits)
  then have same: "blocks g b = blocks m b" using g by (metis ghost_def)
  then have kg: "c_string g p = Inr k" using k(1) p by (simp add: c_string_def mem_block_def)
  have n: "hm_view g hm k = None" using k(4) twin_refl by blast
  obtain hm' where h: "hm_insert g (Some hm) p v vl = Some (Inr (0, Some hm'))" "hm_ok g hm'"
    "hm_view g hm' = (hm_view g hm)(k \<mapsto> v)" "hm_capacity hm' = hm_capacity hm"
    "unat (hm_count hm') = unat (hm_count hm) + 1"
    using hm_insert_view [OF ok full kg k(2), of v vl] n by auto
  obtain r where r: "hm_insert_loop g k (FNV_1a k) v vl hm (new_node k p v vl) (idx hm (FNV_1a k)) = Some r"
    "map_sum id (apsnd Some) r = Inr (0, Some hm')"
    using h(1) kg nn by (auto simp: hm_insert_def)
  have "hm_insert_loop m k (FNV_1a k) v vl hm (new_node k p v vl) (idx hm (FNV_1a k)) = Some r"
  proof (rule insert_agrees [OF r(1)])
    fix nd assume nd: "nd \<in> set (hm_buckets hm)" "occ nd"
    note w = view_node [OF ok nd]
    have "\<not> twin (key_of g nd) k" using w(1) k(4) by blast
    moreover then have "key_of g nd \<noteq> k" by auto
    ultimately show "key_match m nd (FNV_1a k) k = key_match g nd (FNV_1a k) k"
      using dangling_match [OF d nd len] key_match_ok [OF w(2) len] by simp
  next
    show "key_match m (new_node k p v vl) (FNV_1a k) k = key_match g (new_node k p v vl) (FNV_1a k) k"
      using same p by (intro key_match_other) (auto simp: new_node_def)
  qed
  then have i: "hm_insert m (Some hm) p v vl = Some (Inr (0, Some hm'))"
    using r(2) nn k(1) by (simp add: hm_insert_def)
  have m': "blocks m' = (blocks m)(b := None)" "next_block m' = next_block m"
    using free p by (auto simp: mem_free_def split: option.splits)
  have "dead m q \<Longrightarrow> dead m' q" for q using m' by (auto simp: dead_def)
  then have "keys_where (dead m') hm" using d by (simp add: dangles_def keys_where_def)
  then have "keys_where (dead m') hm'" using hm_insert_keys [OF i] m' p by (auto simp: dead_def)
  moreover have "ghost g m'" using g m' by (auto simp: ghost_def)
  moreover have "[] \<notin> dom (hm_view g hm')" using d k(3) h(3) by (auto simp: dangles_def)
  ultimately show ?thesis using i h(2-5) by (auto simp: dangles_def)
qed

text \<open>What is gone stays gone, and a table without entries has no keys to lose.\<close>

lemma dangles_grows:
  assumes "dangles g m hm" "ghost g m" "mem_grows m m'"
  shows "dangles g m' hm"
proof -
  have "dead m' (node_key nd)" if nd: "nd \<in> set (hm_buckets hm)" "occ nd" for nd
  proof -
    obtain b off where b: "node_key nd = Ptr b off" "blocks m b = None"
      using assms(1) nd by (auto simp: dangles_def keys_where_def dead_def)
    have "hm_ok g hm" using assms(1) by (simp add: dangles_def)
    then have "node_ok g nd" by (rule view_node(2) [OF _ nd])
    then have "blocks g b \<noteq> None" using b(1) by (auto simp: node_ok_def c_string_def mem_block_def split: option.splits)
    then have "b < next_block m" using assms(2) by (metis ghost_def mem_ok_def not_le)
    then show ?thesis using assms(3) b by (auto simp: mem_grows_def dead_def)
  qed
  then show ?thesis using assms(1) by (simp add: dangles_def keys_where_def)
qed

lemma dangles_empty:
  assumes "hm_ok m hm" "hm_view m hm = (\<lambda>_. None)"
  shows "dangles m m hm"
proof -
  have "\<not> occ nd" if "nd \<in> set (hm_buckets hm)" for nd
    using view_node(1) [OF assms(1) that] assms(2) by auto
  then show ?thesis using assms by (auto simp: dangles_def keys_where_def)
qed

text \<open>An allocation, in both memories.\<close>

lemma ghost_alloc:
  assumes "ghost g m" "dangles g m hm" "mem_alloc m bs = (p, m')" "p \<noteq> NULL"
  shows "\<exists>g'. ghost g' m' \<and> dangles g' m' hm \<and> hm_view g' hm = hm_view g hm"
proof -
  define g' where "g' = g\<lparr>blocks := (blocks g)(next_block m \<mapsto> bs), next_block := Suc (next_block m)\<rparr>"
  have m': "blocks m' = (blocks m)(next_block m \<mapsto> bs)" "next_block m' = Suc (next_block m)"
    using assms(3,4) by (auto simp: mem_alloc_def split: if_splits)
  have "mem_ok g" "next_block g = next_block m" using assms(1) by (simp_all add: ghost_def)
  then have g: "mem_grows g g'" "ghost g' m'"
    using assms(1) m' by (auto simp: g'_def mem_grows_def ghost_def mem_ok_def)
  have "mem_grows m m'" using m' by (simp add: mem_grows_def)
  then have "dangles g m' hm" using dangles_grows assms(1,2) by blast
  then show ?thesis using hm_ok_ext [OF \<open>mem_ok g\<close> g(1)] g(2) by (auto simp: dangles_def)
qed

section \<open>The keys a table has lost\<close>

text \<open>All there is to know about such a table: which keys were stored. \<open>gone\<close> hides the other memory.\<close>

definition gone :: "mem \<Rightarrow> hashmap \<Rightarrow> bytes list \<Rightarrow> bool" where
  "gone m hm keys \<longleftrightarrow> (\<exists>g. ghost g m \<and> dangles g m hm \<and> dom (hm_view g hm) = set keys)"

abbreviation twin_in :: "bytes list \<Rightarrow> bytes \<Rightarrow> bool" where
  "twin_in keys k \<equiv> list_ex (\<lambda>j. twin j k) keys"

text \<open>Keys that can be stored one after the other behind \<open>keys\<close>: each is told apart from all before it.\<close>

definition tellable :: "bytes list \<Rightarrow> bytes list \<Rightarrow> bool" where
  "tellable keys ks \<longleftrightarrow> (\<forall>k \<in> set ks. \<not> twin_in keys k) \<and> sorted_wrt (\<lambda>j k. \<not> twin j k) ks"

lemma tellable_Cons: "tellable keys (k # ks) \<longleftrightarrow> \<not> twin_in keys k \<and> tellable (k # keys) ks"
  by (auto simp: tellable_def)

lemma tellable_Nil [simp]: "tellable keys []" "tellable [] ks \<longleftrightarrow> sorted_wrt (\<lambda>j k. \<not> twin j k) ks"
  by (simp_all add: tellable_def)

lemma gone_empty: "mem_ok m \<Longrightarrow> hm_ok m hm \<Longrightarrow> hm_view m hm = (\<lambda>_. None) \<Longrightarrow> gone m hm []"
  unfolding gone_def using dangles_empty [of m hm] by (intro exI [of _ m]) (auto simp: ghost_def)

lemma gone_alloc:
  assumes "gone m hm keys" "mem_alloc m bs = (p, m')" "p \<noteq> NULL"
  shows "gone m' hm keys"
  using ghost_alloc [OF _ _ assms(2,3)] assms(1) by (metis gone_def)

lemma gone_copy:
  assumes "gone m hm keys" "mem_ok m" "length bs + 1 \<le> avail m"
  shows "\<exists>m'. mem_alloc m (bs @ [0]) = (Ptr (next_block m) 0, m') \<and> gone m' hm keys \<and> mem_ok m'
    \<and> blocks m' = (blocks m)(next_block m \<mapsto> bs @ [0]) \<and> next_block m' = Suc (next_block m)
    \<and> avail m' = avail m - (length bs + 1)"
proof -
  obtain m' where d: "mem_alloc m (bs @ [0]) = (Ptr (next_block m) 0, m')"
    using mem_alloc_fits [of "bs @ [0]" m] assms(3) by auto
  have m': "m' = snd (mem_alloc m (bs @ [0]))" using d by simp
  then have "gone m' hm keys" "mem_ok m'"
    using gone_alloc [OF assms(1) d] mem_ok_alloc [OF assms(2)] by simp_all
  then show ?thesis using d by (auto simp: mem_alloc_def split: if_splits)
qed

lemma mem_ok_free: "mem_ok m \<Longrightarrow> mem_free m p = Inr m' \<Longrightarrow> mem_ok m'"
  by (auto simp: mem_free_def mem_ok_def split: ptr.splits option.splits if_splits)

lemma gone_free:
  assumes "gone m hm keys" "mem_free m p = Inr m'"
  shows "gone m' hm keys"
proof -
  obtain g where g: "ghost g m" "dangles g m hm" "dom (hm_view g hm) = set keys" using assms(1) by (auto simp: gone_def)
  have m': "next_block m' = next_block m" "\<And>b. blocks m' b = None \<or> blocks m' b = blocks m b"
    using assms(2) by (auto simp: mem_free_def split: ptr.splits option.splits if_splits)
  have "dead m q \<Longrightarrow> dead m' q" for q using m'(2) by (fastforce simp: dead_def)
  then have "dangles g m' hm" using g(2) by (simp add: dangles_def keys_where_def)
  moreover have "blocks m' b = None \<or> blocks m' b = blocks g b" for b using g(1) m'(2) [of b] by (auto simp: ghost_def)
  then have "ghost g m'" using g(1) m'(1) by (simp add: ghost_def)
  ultimately show ?thesis using g(3) by (auto simp: gone_def)
qed

lemma gone_cong: "set keys = set keys' \<Longrightarrow> gone m hm keys = gone m hm keys'"
  by (simp add: gone_def)

lemma gone_get:
  assumes "gone m hm keys" "mem_grows m m'" "hm_count hm < hm_capacity hm" "c_string m' q = Inr k" "length k < 2 ^ 64"
  shows "hm_get m' (Some hm) q = Some (if twin_in keys k then Inl UseAfterFree else Inr NULL)"
proof -
  obtain g where g: "ghost g m" "dangles g m hm" "dom (hm_view g hm) = set keys" using assms(1) by (auto simp: gone_def)
  have "hm_ok g hm" using g(2) by (simp add: dangles_def)
  then have "room (hm_buckets hm)" using room_count assms(3) by blast
  then show ?thesis
    using dangling_get [OF dangles_grows [OF g(2,1) assms(2)] _ assms(4,5)] g(3) by (simp add: list_ex_iff)
qed

lemma gone_insert:
  assumes "gone m hm keys" "unat (hm_count hm) < hm_bound hm" "c_string m p = Inr k" "storable_key k" "k \<noteq> []"
    and "p = Ptr b 0" "mem_free m p = Inr m'"
  shows "if twin_in keys k then hm_insert m (Some hm) p v vl = Some (Inl UseAfterFree)
    else \<exists>hm'. hm_insert m (Some hm) p v vl = Some (Inr (0, Some hm')) \<and> gone m' hm' (k # keys)
      \<and> hm_capacity hm' = hm_capacity hm \<and> unat (hm_count hm') = unat (hm_count hm) + 1"
proof -
  obtain g where g: "ghost g m" "dangles g m hm" "dom (hm_view g hm) = set keys" using assms(1) by (auto simp: gone_def)
  have len: "length k < 2 ^ 64" using assms(4) by (simp add: storable_key_def)
  show ?thesis
  proof (cases "twin_in keys k")
    case True
    have "hm_ok g hm" using g(2) by (simp add: dangles_def)
    moreover have "hm_count hm < hm_capacity hm" using assms(2) by (simp add: hm_bound_def word_less_nat_alt)
    ultimately have "room (hm_buckets hm)" using room_count by blast
    then show ?thesis using dangling_insert_twin [OF g(2) _ assms(3) len] g(3) True by (auto simp: list_ex_iff)
  next
    case False
    then have "\<forall>j \<in> dom (hm_view g hm). \<not> twin j k" using g(3) by (auto simp: list_ex_iff)
    from dangling_insert_new [OF g(2,1) assms(2-5) this assms(6,7), of v vl]
    show ?thesis using False g(3) by (fastforce simp: gone_def)
  qed
qed

text \<open>
  What replay and loading do for one key: its copy is in block \<open>b\<close>, the value is wherever it is, and the
  copy of the key is freed once it is in the table.
\<close>

lemma gone_store:
  assumes "gone m hm keys" "mem_ok m" "unat (hm_count hm) < hm_bound hm" "storable_key k" "k \<noteq> []" "0 \<notin> set k"
    and "blocks m b = Some (k @ [0])"
  shows "\<exists>m'. mem_free m (Ptr b 0) = Inr m' \<and> mem_ok m' \<and> avail m' = avail m + (length k + 1)
    \<and> (if twin_in keys k then hm_insert m (Some hm) (Ptr b 0) v vl = Some (Inl UseAfterFree)
       else \<exists>hm'. hm_insert m (Some hm) (Ptr b 0) v vl = Some (Inr (0, Some hm')) \<and> gone m' hm' (k # keys)
         \<and> hm_capacity hm' = hm_capacity hm \<and> unat (hm_count hm') = unat (hm_count hm) + 1)"
proof -
  define m' where "m' = m\<lparr>blocks := (blocks m)(b := None), avail := avail m + (length k + 1)\<rparr>"
  have f: "mem_free m (Ptr b 0) = Inr m'" using assms(7) by (simp add: mem_free_def m'_def)
  have s: "c_string m (Ptr b 0) = Inr k" using assms(6,7) by (simp add: c_string_def mem_block_def takeWhile_nul_append)
  have "avail m' = avail m + (length k + 1)" by (simp add: m'_def)
  then show ?thesis using f mem_ok_free [OF assms(2) f] gone_insert [OF assms(1,3) s assms(4,5) refl f, of v vl]
    by (intro exI [of _ m'] conjI)
qed

end
