(* ===== verification/Storage_Props.thy ===== *)
theory Storage_Props
  imports Storage Hashmap_Dangling
begin

text \<open>
  The properties of \<^verbatim>\<open>src/core/storage/storage.c\<close>: saving never ends, no file that starts as saved
  files start is accepted, and what loading a well-formed file leaves behind.
\<close>

section \<open>Saving\<close>

lemma save_node_never: "save_node m hm (Some nd) i out csum \<noteq> Some (Inr x)"
proof
  assume a: "save_node m hm (Some nd) i out csum = Some (Inr x)"
  have "(Some nd :: hm_node option) = None \<or> (\<exists>e. (Inr x :: (u64 \<times> bytes \<times> u32) res) = Inl e)"
    by (rule save_node.raw_induct [where P = "\<lambda>m hm nd i out csum r. nd = None \<or> (\<exists>e. r = Inl e)", OF _ a])
      (fastforce split: option.splits sum.splits)
  then show False by simp
qed

lemma save_loop_never:
  assumes "0 < hm_capacity hm"
  shows "save_loop m hm 0 out csum \<noteq> Some (Inr x)"
  using assms save_node_never
  by (subst save_loop.simps) (auto simp: bind_eq_Some_conv split: sum.splits)

section \<open>Loading one entry\<close>

lemma fread_exact:
  assumes "length bs = n"
  shows "fread_obj old n (bs @ rest) = (bs, True, rest)"
  using assms by (simp add: fread_obj_def)

definition load_header :: "u64 \<Rightarrow> u64 \<Rightarrow> bytes" where
  "load_header timestamp cnt = DB_MAGIC @ le_bytes 4 DB_VERSION @ le_bytes 8 timestamp @ le_bytes 8 cnt"

definition entry_bytes :: "bytes \<Rightarrow> bytes \<Rightarrow> bytes" where
  "entry_bytes k v =
     le_bytes 4 (of_nat (length k) :: u32) @ k @ le_bytes 4 (of_nat (length v) :: u32) @ v"

lemma le_u32 [simp]: "le_word (le_bytes 4 (w :: u32)) = w"
  by (rule le_word_le_bytes_id) simp

lemma le_u64 [simp]: "le_word (le_bytes 8 (w :: u64)) = w"
  by (rule le_word_le_bytes_id) simp

lemma unat_u32: "n < 2 ^ 32 \<Longrightarrow> unat (of_nat n :: u32) = n"
  by (simp add: unat_of_nat)

lemma load_block_ok:
  assumes "length bs + 1 < 2 ^ 32" "length bs + 1 \<le> avail m"
  shows "load_block m (of_nat (length bs)) (bs @ rest)
    = Inr (Some (Ptr (next_block m) 0, bs, snd (mem_alloc m (bs @ [0])), rest))"
proof -
  have u: "unat (of_nat (length bs) :: u32) = length bs" using assms(1) by (intro unat_u32) simp
  have "(of_nat (length bs) :: u32) + 1 = of_nat (length bs + 1)" by simp
  moreover have "unat (of_nat (length bs + 1) :: u32) = length bs + 1" by (rule unat_u32 [OF assms(1)])
  ultimately have "(of_nat (length bs) :: u32) + 1 \<noteq> 0" by (metis Suc_eq_plus1 nat.distinct(1) unat_0)
  then show ?thesis using assms(2) u by (simp add: load_block_def mem_alloc_def Let_def)
qed

lemma load_entry_ok:
  assumes "length k + 1 < 2 ^ 32" "length v + 1 < 2 ^ 32" "v \<noteq> []"
    and "length k + length v + 2 \<le> avail m"
  shows "load_entry (hm, m, csum, entry_bytes k v @ rest)
    = (let m1 = snd (mem_alloc m (k @ [0])); m2 = snd (mem_alloc m1 (v @ [0])) in
       load_insert hm m2 (Ptr (next_block m) 0) (Ptr (Suc (next_block m)) 0) (of_nat (length v))
         (csum + checksum k + checksum v) rest)"
proof -
  let ?m1 = "snd (mem_alloc m (k @ [0]))"
  have m1: "next_block ?m1 = Suc (next_block m)" "avail ?m1 = avail m - (length k + 1)"
    using assms(4) by (simp_all add: mem_alloc_def)
  have f1: "fread_obj (\<lambda>_. 0) 4 (entry_bytes k v @ rest)
      = (le_bytes 4 (of_nat (length k) :: u32), True, k @ (le_bytes 4 (of_nat (length v) :: u32) @ v @ rest))"
    by (simp add: entry_bytes_def fread_exact)
  have b1: "load_block m (of_nat (length k)) (k @ (le_bytes 4 (of_nat (length v) :: u32) @ v @ rest))
      = Inr (Some (Ptr (next_block m) 0, k, ?m1, le_bytes 4 (of_nat (length v) :: u32) @ v @ rest))"
    by (rule load_block_ok) (use assms in simp_all)
  have f2: "fread_obj (\<lambda>_. 0) 4 (le_bytes 4 (of_nat (length v) :: u32) @ v @ rest)
      = (le_bytes 4 (of_nat (length v) :: u32), True, v @ rest)"
    by (simp add: fread_exact)
  have b2: "load_block ?m1 (of_nat (length v)) (v @ rest)
      = Inr (Some (Ptr (Suc (next_block m)) 0, v, snd (mem_alloc ?m1 (v @ [0])), rest))"
    using load_block_ok [of v ?m1 rest] assms m1 by simp
  have "unat (of_nat (length v) :: u32) = length v" using assms(2) by (intro unat_u32) simp
  then have "(0 :: u32) < of_nat (length v)" using assms(3) by (simp add: word_less_nat_alt)
  then show ?thesis by (simp add: load_entry_def f1 b1 f2 b2 Let_def)
qed

lemma checksum_nil [simp]: "checksum [] = 0"
  by (simp add: checksum_def)

lemma load_entry_nil:
  assumes "length k + 1 < 2 ^ 32" "length k + 1 \<le> avail m"
  shows "load_entry (hm, m, csum, entry_bytes k [] @ rest)
    = load_insert hm (snd (mem_alloc m (k @ [0]))) (Ptr (next_block m) 0) NULL 0 (csum + checksum k) rest"
proof -
  have f1: "fread_obj (\<lambda>_. 0) 4 (entry_bytes k [] @ rest)
      = (le_bytes 4 (of_nat (length k) :: u32), True, k @ (le_bytes 4 (0 :: u32) @ rest))"
    by (simp add: entry_bytes_def fread_exact)
  have f2: "fread_obj (\<lambda>_. 0) 4 (le_bytes 4 (0 :: u32) @ rest) = (le_bytes 4 (0 :: u32), True, rest)"
    by (simp add: fread_exact)
  show ?thesis using load_block_ok [OF assms, of "le_bytes 4 (0 :: u32) @ rest"] by (simp add: load_entry_def f1 f2 Let_def)
qed

text \<open>One entry: its insertion reaches a key that is gone, or it succeeds and its own key is gone.\<close>

lemma load_entry_gone:
  assumes "gone m hm keys" "mem_ok m" "unat (hm_count hm) < hm_bound hm" "storable_key k" "k \<noteq> []" "0 \<notin> set k"
    and "length v + 1 < 2 ^ 32" "length k + length v + 2 \<le> avail m"
  shows "if twin_in keys k then load_entry (hm, m, csum, entry_bytes k v @ rest) = Some (Inl UseAfterFree)
    else \<exists>m' hm'. load_entry (hm, m, csum, entry_bytes k v @ rest) = Some (Inr (Loaded (hm', m', csum + checksum k + checksum v, rest)))
      \<and> gone m' hm' (k # keys) \<and> mem_ok m' \<and> avail m \<le> avail m' + (length v + 1) \<and> hm_capacity hm' = hm_capacity hm
      \<and> unat (hm_count hm') = unat (hm_count hm) + 1"
proof -
  let ?b = "next_block m"
  have k32: "length k + 1 < 2 ^ 32" using assms(4) by (simp add: storable_key_def)
  obtain m1 where m1: "mem_alloc m (k @ [0]) = (Ptr ?b 0, m1)" "gone m1 hm keys" "mem_ok m1"
    "blocks m1 = (blocks m)(?b \<mapsto> k @ [0])" "next_block m1 = Suc ?b" "avail m1 = avail m - (length k + 1)"
    using gone_copy [OF assms(1,2), of k] assms(8) by auto
  show ?thesis
  proof (cases "v = []")
    case True
    have "blocks m1 ?b = Some (k @ [0])" using m1(4) by simp
    from gone_store [OF m1(2,3) assms(3-6) this, of NULL "ucast (0 :: u32)"]
    show ?thesis using load_entry_nil [OF k32, of m hm csum rest] m1(1,6) True assms(8) by (auto simp: load_insert_def split: if_splits)
  next
    case False
    have "length v + 1 \<le> avail m1" using m1(6) assms(8) by simp
    then obtain m2 where m2: "mem_alloc m1 (v @ [0]) = (Ptr (Suc ?b) 0, m2)" "gone m2 hm keys" "mem_ok m2"
      "blocks m2 = (blocks m1)(Suc ?b \<mapsto> v @ [0])" "avail m2 = avail m1 - (length v + 1)"
      using gone_copy [OF m1(2,3), of v] m1(5) by auto
    have "blocks m2 ?b = Some (k @ [0])" using m1(4) m2(4) by simp
    from gone_store [OF m2(2,3) assms(3-6) this, of "Ptr (Suc ?b) 0" "ucast (of_nat (length v) :: u32)"]
    show ?thesis using load_entry_ok [OF k32 assms(7) False assms(8), of hm csum rest] m1(1,6) m2(1,5) assms(8)
      by (auto simp: load_insert_def split: if_splits)
  qed
qed

definition entry_sum :: "(bytes \<times> bytes) list \<Rightarrow> u32" where
  "entry_sum es = sum_list (map (\<lambda>(k, v). checksum k + checksum v) es)"

definition loadable :: "bytes \<times> bytes \<Rightarrow> bool" where
  "loadable = (\<lambda>(k, v). storable_key k \<and> k \<noteq> [] \<and> 0 \<notin> set k \<and> length v + 1 < 2 ^ 32)"

lemma load_loop_gone:
  assumes "gone m hm keys" "mem_ok m" "unat (hm_count hm) + length es < hm_bound hm" "list_all loadable es"
    and "sum_list (map (\<lambda>(k, v). length k + length v + 2) es) \<le> avail m"
  shows "if tellable keys (map fst es) then \<exists>m' hm'. load_loop (length es) (hm, m, csum, concat (map (\<lambda>(k, v). entry_bytes k v) es) @ rest)
        = Some (Inr (Loaded (hm', m', csum + entry_sum es, rest)))
      \<and> gone m' hm' (map fst es @ keys) \<and> mem_ok m' \<and> hm_capacity hm' = hm_capacity hm
      \<and> unat (hm_count hm') = unat (hm_count hm) + length es
    else load_loop (length es) (hm, m, csum, concat (map (\<lambda>(k, v). entry_bytes k v) es) @ rest) = Some (Inl UseAfterFree)"
  using assms
proof (induction es arbitrary: m hm keys csum)
  case Nil
  then show ?case by (simp add: entry_sum_def)
next
  case (Cons e es)
  obtain k v where e: "e = (k, v)" by (cases e)
  let ?rest = "concat (map (\<lambda>(k, v). entry_bytes k v) es) @ rest"
  have r: "unat (hm_count hm) < hm_bound hm" "storable_key k" "k \<noteq> []" "0 \<notin> set k" "length v + 1 < 2 ^ 32"
    "length k + length v + 2 \<le> avail m"
    using Cons.prems(3-5) e by (simp_all add: loadable_def)
  note one = load_entry_gone [OF Cons.prems(1,2) r, of csum ?rest]
  show ?case
  proof (cases "twin_in keys k")
    case True
    then show ?thesis using one e by (simp add: tellable_Cons)
  next
    case False
    then obtain m' hm' where s: "load_entry (hm, m, csum, entry_bytes k v @ ?rest)
        = Some (Inr (Loaded (hm', m', csum + checksum k + checksum v, ?rest)))" "gone m' hm' (k # keys)" "mem_ok m'"
      "avail m \<le> avail m' + (length v + 1)" "hm_capacity hm' = hm_capacity hm" "unat (hm_count hm') = unat (hm_count hm) + 1"
      using one by auto
    have b: "unat (hm_count hm') + length es < hm_bound hm'" using Cons.prems(3) s(5,6) by (simp add: hm_bound_def)
    have ok: "list_all loadable es" using Cons.prems(4) by simp
    have l: "sum_list (map (\<lambda>(k, v). length k + length v + 2) es) \<le> avail m'" using Cons.prems(5) s(4) e by simp
    show ?thesis
      using Cons.IH [OF s(2,3) b ok l, of "csum + checksum k + checksum v"] s(1,5,6) e False
        gone_cong [of "map fst es @ k # keys" "k # map fst es @ keys"]
      by (auto simp: tellable_Cons entry_sum_def algebra_simps)
  qed
qed

lemma hm_create_blocks_eq: "hm_create m c = (h, m') \<Longrightarrow> blocks m' = blocks m \<and> next_block m' = next_block m"
  by (auto simp: hm_create_def mem_reserve_def mem_release_def split: option.splits if_splits)

lemma hm_create_keeps:
  assumes "32 + 32 * unat c \<le> avail m" "unat c = 2 ^ k"
  shows "\<exists>hm m'. hm_create m c = (Some hm, m') \<and> avail m' = avail m - (32 + 32 * unat c)
    \<and> hm_ok m' hm \<and> hm_view m' hm = (\<lambda>_. None) \<and> hm_count hm = 0 \<and> hm_capacity hm = c"
proof -
  have r: "32 \<le> avail m" "32 * unat c \<le> avail m - 32" using assms(1) by linarith+
  have "hm_create m c = (Some (demo_table c), m\<lparr>avail := avail m - 32 - 32 * unat c\<rparr>)"
    using r by (simp add: hm_create_def mem_reserve_def demo_table_def)
  then show ?thesis using demo_table_ok [OF assms(2)] by auto
qed

definition load_file :: "u64 \<Rightarrow> (bytes \<times> bytes) list \<Rightarrow> bytes \<Rightarrow> bytes" where
  "load_file ts es ck = load_header ts (of_nat (length es)) @ concat (map (\<lambda>(k, v). entry_bytes k v) es) @ ck"

lemma db_load_loop:
  assumes "mem_ok m" "length es \<le> 512" "32 + 32 * 1024 + n \<le> avail m"
  shows "\<exists>hm m1. gone m1 hm [] \<and> mem_ok m1 \<and> n \<le> avail m1 \<and> hm_count hm = 0 \<and> hm_capacity hm = 1024
    \<and> db_load m (Some name) (Some (load_file ts es ck)) stack =
        (case load_loop (length es) (hm, m1, 0, concat (map (\<lambda>(k, v). entry_bytes k v) es) @ ck) of
           None \<Rightarrow> None
         | Some (Inl e) \<Rightarrow> Some (Inl e)
         | Some (Inr (Load_failed m2)) \<Rightarrow> Some (Inr (None, hm_free m2 (Some hm) 1, True))
         | Some (Inr (Loaded (hm', m2, csum, inp5))) \<Rightarrow>
             Some (Inr (Some hm', m2, le_word (fst (fread_obj (stack 4) 4 inp5)) = csum)))"
proof -
  have cap: "unat (1024 :: u64) = 2 ^ 10" by simp
  have a: "32 + 32 * unat (1024 :: u64) \<le> avail m" using assms(3) by simp
  obtain hm m1 where h: "hm_create m 1024 = (Some hm, m1)" "avail m1 = avail m - (32 + 32 * 1024)"
    "hm_ok m1 hm" "hm_view m1 hm = (\<lambda>_. None)" "hm_count hm = 0" "hm_capacity hm = 1024"
    using hm_create_keeps [OF a cap] by auto
  have m1: "mem_ok m1" using assms(1) hm_create_blocks_eq [OF h(1)] by (simp add: mem_ok_def)
  let ?n = "of_nat (length es) :: u64"
  have u: "unat ?n = length es" using assms(2) by (intro unat_of_nat_u64) simp
  have "unat (2 * ?n) = 2 * length es" using u assms(2) by (simp add: unat_word_ariths)
  then have c: "(if 2 * ?n < 1024 then 1024 else 2 * ?n) = (1024 :: u64)"
    using assms(2) by (auto simp: word_less_nat_alt word_unat_eq_iff)
  let ?rest = "concat (map (\<lambda>(k, v). entry_bytes k v) es) @ ck"
  have f0: "fread_obj (stack 0) 6 (load_file ts es ck)
      = (DB_MAGIC, True, le_bytes 4 DB_VERSION @ le_bytes 8 ts @ le_bytes 8 ?n @ ?rest)"
    unfolding load_file_def load_header_def append_assoc by (rule fread_exact) (simp add: DB_MAGIC_def)
  have f1: "fread_obj (stack 1) 4 (le_bytes 4 DB_VERSION @ xs) = (le_bytes 4 DB_VERSION, True, xs)" for xs
    by (simp add: fread_exact)
  have f2: "fread_obj (stack i) 8 (le_bytes 8 (w :: u64) @ xs) = (le_bytes 8 w, True, xs)" for i w xs
    by (simp add: fread_exact)
  have "db_load m (Some name) (Some (load_file ts es ck)) stack =
        (case load_loop (length es) (hm, m1, 0, ?rest) of
           None \<Rightarrow> None
         | Some (Inl e) \<Rightarrow> Some (Inl e)
         | Some (Inr (Load_failed m2)) \<Rightarrow> Some (Inr (None, hm_free m2 (Some hm) 1, True))
         | Some (Inr (Loaded (hm', m2, csum, inp5))) \<Rightarrow>
             Some (Inr (Some hm', m2, le_word (fst (fread_obj (stack 4) 4 inp5)) = csum)))"
    unfolding db_load_def option.case prod.case Let_def f0 f1 f2 le_u32 le_u64 c h(1) u by simp
  moreover have "n \<le> avail m1" using h(2) assms(3) by simp
  ultimately show ?thesis using gone_empty [OF m1 h(3,4)] m1 h(5,6) by blast
qed

text \<open>A file that begins as saved files do is refused: the version is read one byte off.\<close>

lemma load_saved_header:
  "db_load m (Some name) (Some (save_header ts cnt @ rest)) stack = Some (Inr (None, m, True))"
proof -
  have a: "save_header ts cnt @ rest = DB_MAGIC @ ([0, 1, 0, 0] @ 0 # le_bytes 8 ts @ le_bytes 8 cnt @ rest)"
    by (simp add: save_header_def DB_VERSION_def numeral_eq_Suc)
  have "fread_obj (stack 0) 6 (save_header ts cnt @ rest)
      = (DB_MAGIC, True, [0, 1, 0, 0] @ 0 # le_bytes 8 ts @ le_bytes 8 cnt @ rest)"
    unfolding a by (rule fread_exact) (simp add: DB_MAGIC_def)
  moreover have "fread_obj (stack 1) 4 ([0, 1, 0, 0] @ xs) = ([0, 1, 0, 0], True, xs)" for xs
    by (rule fread_exact) simp
  ultimately obtain r r' where f: "fread_obj (stack 0) 6 (save_header ts cnt @ rest) = (DB_MAGIC, True, r)"
    "fread_obj (stack 1) 4 r = ([0, 1, 0, 0], True, r')"
    by blast
  have "(le_word [0, 1, 0, 0] :: u32) \<noteq> DB_VERSION" by (simp add: DB_VERSION_def)
  then show ?thesis by (simp add: db_load_def f del: One_nat_def)
qed

section \<open>Properties\<close>

text \<open>
  \<open>db_save\<close> never completes on a table with a bucket, so no snapshot is ever written: the inner
  loop \<open>while (node)\<close> has no exit. The child of \<open>db_save_proc\<close> does not exit either, while the
  parent reports success; on Windows the caller itself is stuck.
\<close>

theorem db_save_never_completes:
  assumes "0 < hm_capacity hm"
  shows "db_save m (Some hm) (Some name) True renamed ts \<noteq> Some (Inr x)
    \<and> db_save_proc Fork_child m (Some hm) (Some name) True renamed ts \<noteq> Some (Inr y)
    \<and> db_save_proc_win32 m (Some hm) (Some name) True renamed ts \<noteq> Some (Inr z)
    \<and> db_save_proc Fork_parent m (Some hm) (Some name) True renamed ts = Some (Inr (Returns 0, None))"
  using save_loop_never [OF assms, of m "save_header ts (hm_count hm)" 0]
  by (auto simp: db_save_def db_save_proc_def db_save_proc_win32_def map_sum_def split: sum.splits)

theorem db_save_never_completes_witness:
  "\<forall>x. db_save (mem_init 0) (Some (demo_table 4)) (Some []) True True 0 \<noteq> Some (Inr x)"
  using db_save_never_completes [of "demo_table 4"] by (simp add: demo_table_def)

text \<open>
  C37. \<open>db_load\<close> rejects every file that begins with the header \<open>db_save\<close> writes: the magic is
  written with its terminator, 7 bytes, and read as 6, so the version is read one byte off.
\<close>

theorem db_load_rejects_saved_header:
  "db_load m (Some name) (Some (save_header ts cnt @ rest)) stack = Some (Inr (None, m, True))"
  by (rule load_saved_header)



end
