(* ===== verification/Http_Parse.thy ===== *)
theory Http_Parse
  imports C_Stdio
begin

text \<open>
  \<^verbatim>\<open>src/misc/http/parse.c\<close> and \<^verbatim>\<open>request.h\<close>: the request line, the headers and the body. The buffer
  is the list of the bytes received; a pointer into it is an index, and every read outside the
  received bytes is a fault. The C integers involved are \<open>int\<close>; only the value of
  \<open>Content-Length\<close> can leave their range, which is a fault too.
\<close>

section \<open>The request\<close>

text \<open>A parameter's value points into the buffer or at the literal \<open>""\<close>.\<close>

datatype val_ptr = In_buf nat | Empty_lit

record http_param =
  pa_key :: nat
  pa_key_len :: nat
  pa_val :: val_ptr
  pa_val_len :: nat

text \<open>\<open>rq_params\<close> is \<open>params[0 .. param_count - 1]\<close>.\<close>

record http_req =
  rq_method :: nat
  rq_method_len :: nat
  rq_path :: nat
  rq_path_len :: nat
  rq_body :: "nat option"
  rq_body_len :: nat
  rq_content_length :: nat
  rq_params :: "http_param list"

definition req_zero :: http_req where
  "req_zero = \<lparr>rq_method = 0, rq_method_len = 0, rq_path = 0, rq_path_len = 0, rq_body = None,
     rq_body_len = 0, rq_content_length = 0, rq_params = []\<rparr>"

section \<open>The parser\<close>

text \<open>\<open>*p\<close>\<close>

definition byte_at :: "bytes \<Rightarrow> nat \<Rightarrow> byte res" where
  "byte_at buf p = (if p < length buf then Inr (buf ! p) else Inl OutOfBounds)"

text \<open>\<open>while (p < end && P(*p)) p++;\<close>\<close>

definition skip_while :: "(byte \<Rightarrow> bool) \<Rightarrow> bytes \<Rightarrow> nat \<Rightarrow> nat" where
  "skip_while P buf p = p + length (takeWhile P (drop p buf))"

definition at_char :: "bytes \<Rightarrow> nat \<Rightarrow> byte \<Rightarrow> bool" where
  "at_char buf p c \<longleftrightarrow> p < length buf \<and> buf ! p = c"

text \<open>One parameter: it and the position behind it.\<close>

definition parse_param :: "bytes \<Rightarrow> nat \<Rightarrow> http_param \<times> nat" where
  "parse_param buf p =
     (let p1 = skip_while (\<lambda>b. b \<noteq> 61 \<and> b \<noteq> 38 \<and> b \<noteq> 32) buf p in
      if at_char buf p1 61 then
        (let p2 = skip_while (\<lambda>b. b \<noteq> 38 \<and> b \<noteq> 32) buf (p1 + 1) in
         (\<lparr>pa_key = p, pa_key_len = p1 - p, pa_val = In_buf (p1 + 1), pa_val_len = p2 - (p1 + 1)\<rparr>,
          if at_char buf p2 38 then p2 + 1 else p2))
      else
        (\<lparr>pa_key = p, pa_key_len = p1 - p, pa_val = Empty_lit, pa_val_len = 0\<rparr>,
         if at_char buf p1 38 then p1 + 1 else p1))"

text \<open>The loop over the parameters, at most \<open>n\<close> more.\<close>

primrec parse_params :: "nat \<Rightarrow> bytes \<Rightarrow> nat \<Rightarrow> http_param list \<times> nat" where
  "parse_params 0 buf p = ([], p)"
| "parse_params (Suc n) buf p =
     (if p < length buf \<and> buf ! p \<noteq> 32
      then (let (x, p1) = parse_param buf p; (xs, p2) = parse_params n buf p1 in (x # xs, p2))
      else ([], p))"

text \<open>
  \<open>parse_req_line\<close> on a buffer that is the line: the bytes consumed or -1, and the request, whose
  fields keep their old values when the line is refused before they are set.
\<close>

definition parse_req_line :: "bytes \<Rightarrow> http_req \<Rightarrow> (int \<times> http_req) res" where
  "parse_req_line buf req =
     (let p1 = skip_while (\<lambda>b. b \<noteq> 32) buf 0; req1 = req\<lparr>rq_method := 0\<rparr> in
      if p1 = length buf then Inr (- 1, req1)
      else
        (let req2 = req1\<lparr>rq_method_len := p1, rq_path := p1 + 1\<rparr>;
             p2 = skip_while (\<lambda>b. b \<noteq> 32 \<and> b \<noteq> 63) buf (p1 + 1) in
         if p2 = length buf then Inr (- 1, req2)
         else rbind (byte_at buf p2)
           (\<lambda>c. let req3 = req2\<lparr>rq_path_len := p2 - (p1 + 1)\<rparr>;
                    (ps, p3) = (if c = 63 then parse_params 8 buf (p2 + 1) else ([], p2));
                    p4 = skip_while (\<lambda>b. b \<noteq> 10) buf p3;
                    p5 = (if p4 < length buf then p4 + 1 else p4)
                in Inr (int p5, req3\<lparr>rq_params := ps\<rparr>))))"

text \<open>The digits of a \<open>Content-Length\<close>, in \<open>int\<close> arithmetic.\<close>

fun int_digits :: "nat \<Rightarrow> bytes \<Rightarrow> nat res" where
  "int_digits n [] = Inr n"
| "int_digits n (d # ds) =
     (let n' = 10 * n + digit_val d in
      if n' < 2 ^ 31 then int_digits n' ds else Inl SignedOverflow)"

definition content_length_name :: bytes where
  "content_length_name = lit ''Content-Length:''"

text \<open>What one header line does to the position and the length.\<close>

definition header_line :: "bytes \<Rightarrow> nat \<Rightarrow> nat \<Rightarrow> (nat \<times> nat) res" where
  "header_line buf p clen =
     rbind (if at_char buf p 67 \<and> at_char buf (p + 1) 111 \<and> p + 15 \<le> length buf
              \<and> take 15 (drop p buf) = content_length_name
            then (let p1 = skip_while (\<lambda>b. b = 32 \<or> b = 9) buf (p + 15);
                      ds = takeWhile is_digit (drop p1 buf)
                  in rbind (int_digits 0 ds) (\<lambda>n. Inr (p1 + length ds, n)))
            else Inr (p, clen))
       (\<lambda>(p1, n). let p2 = skip_while (\<lambda>b. b \<noteq> 10) buf p1
                  in Inr (if p2 < length buf then p2 + 1 else p2, n))"

function headers_loop :: "bytes \<Rightarrow> nat \<Rightarrow> nat \<Rightarrow> (int \<times> nat) res" where
  "headers_loop buf p clen =
     (if p + 1 < length buf then
        (if buf ! p = 13 \<and> buf ! (p + 1) = 10 then Inr (int (p + 2), clen)
         else (case header_line buf p clen of
                 Inl e \<Rightarrow> Inl e
               | Inr pn \<Rightarrow> if p < fst pn then headers_loop buf (fst pn) (snd pn) else Inl OutOfBounds))
      else Inr (- 1, clen))"
  by pat_completeness auto

termination
  by (relation "measure (\<lambda>(buf, p, clen). length buf - p)") auto

declare headers_loop.simps [simp del]

definition parse_headers :: "bytes \<Rightarrow> http_req \<Rightarrow> (int \<times> http_req) res" where
  "parse_headers buf req =
     rbind (headers_loop buf 0 0) (\<lambda>(n, clen). Inr (n, req\<lparr>rq_content_length := clen\<rparr>))"

text \<open>\<open>parse_http_req\<close> on the \<open>read_total\<close> bytes received.\<close>

definition parse_http_req :: "bytes \<Rightarrow> http_req \<Rightarrow> (int \<times> http_req) res" where
  "parse_http_req buf req =
     (if 10 \<notin> set buf then Inr (- 1, req)
      else
        (let line_len = length (takeWhile (\<lambda>b. b \<noteq> 10) buf) + 1 in
         rbind (parse_req_line (take line_len buf) req)
           (\<lambda>(consumed, req1).
             if consumed < 0 then Inr (- 1, req1)
             else rbind (parse_headers (drop (nat consumed) buf) req1)
               (\<lambda>(hc, req2).
                 if hc < 0 then Inr (- 1, req2)
                 else
                   (let pos = nat consumed + nat hc; n = rq_content_length req2 in
                    if 0 < n then
                      (if length buf - pos < n then Inr (- 1, req2)
                       else Inr (int (pos + n), req2\<lparr>rq_body := Some pos, rq_body_len := n\<rparr>))
                    else Inr (int pos, req2\<lparr>rq_body := None, rq_body_len := 0\<rparr>))))))"

section \<open>Bounds\<close>

lemma skip_while_bounds: "p \<le> length buf \<Longrightarrow> p \<le> skip_while P buf p \<and> skip_while P buf p \<le> length buf"
  using length_takeWhile_le [of P "drop p buf"] by (simp add: skip_while_def)

lemma skip_while_stop: "skip_while P buf p < length buf \<Longrightarrow> \<not> P (buf ! skip_while P buf p)"
proof -
  assume a: "skip_while P buf p < length buf"
  then have "length (takeWhile P (drop p buf)) < length (drop p buf)" by (simp add: skip_while_def)
  then have "\<not> P (drop p buf ! length (takeWhile P (drop p buf)))" by (rule nth_length_takeWhile)
  then show ?thesis using a by (simp add: skip_while_def)
qed

lemma skip_while_app:
  assumes "p = length pre" "\<forall>b \<in> set s. P b" "\<not> P c"
  shows "skip_while P (pre @ s @ c # post) p = p + length s"
  using assms by (simp add: skip_while_def takeWhile_append2)

definition param_in :: "bytes \<Rightarrow> http_param \<Rightarrow> bool" where
  "param_in buf x \<longleftrightarrow> pa_key x + pa_key_len x \<le> length buf
     \<and> (case pa_val x of In_buf v \<Rightarrow> v + pa_val_len x \<le> length buf | Empty_lit \<Rightarrow> pa_val_len x = 0)"

definition req_in :: "bytes \<Rightarrow> http_req \<Rightarrow> bool" where
  "req_in buf rq \<longleftrightarrow> rq_method rq + rq_method_len rq \<le> length buf \<and> rq_path rq + rq_path_len rq \<le> length buf
     \<and> length (rq_params rq) \<le> 8 \<and> (\<forall>x \<in> set (rq_params rq). param_in buf x)
     \<and> (case rq_body rq of None \<Rightarrow> rq_body_len rq = 0 | Some b \<Rightarrow> b + rq_body_len rq \<le> length buf)"

lemma param_bounds:
  assumes "p \<le> length buf"
  shows "param_in buf (fst (parse_param buf p)) \<and> p \<le> snd (parse_param buf p) \<and> snd (parse_param buf p) \<le> length buf"
proof -
  let ?p1 = "skip_while (\<lambda>b. b \<noteq> 61 \<and> b \<noteq> 38 \<and> b \<noteq> 32) buf p"
  have p1: "p \<le> ?p1" "?p1 \<le> length buf" using skip_while_bounds [OF assms] by blast+
  show ?thesis
  proof (cases "at_char buf ?p1 61")
    case True
    then have "?p1 + 1 \<le> length buf" by (simp add: at_char_def)
    from skip_while_bounds [OF this, of "\<lambda>b. b \<noteq> 38 \<and> b \<noteq> 32"]
    show ?thesis using True p1 by (auto simp: parse_param_def param_in_def at_char_def Let_def)
  qed (use p1 in \<open>auto simp: parse_param_def param_in_def at_char_def Let_def\<close>)
qed

lemma params_bounds:
  "p \<le> length buf \<Longrightarrow> (\<forall>x \<in> set (fst (parse_params n buf p)). param_in buf x)
     \<and> length (fst (parse_params n buf p)) \<le> n
     \<and> p \<le> snd (parse_params n buf p) \<and> snd (parse_params n buf p) \<le> length buf"
proof (induction n arbitrary: p)
  case (Suc n)
  obtain x p1 where x: "parse_param buf p = (x, p1)" by (cases "parse_param buf p")
  obtain xs p2 where xs: "parse_params n buf p1 = (xs, p2)" by (cases "parse_params n buf p1")
  show ?case using Suc param_bounds [OF Suc.prems] x xs Suc.IH [of p1] by auto
qed simp

lemma param_in_mono: "param_in (take n buf) x \<Longrightarrow> param_in buf x"
  by (auto simp: param_in_def split: val_ptr.splits)

lemma req_line_bounds:
  assumes "parse_req_line buf req = Inr (n, rq)" "0 \<le> n"
  shows "0 < n \<and> n \<le> int (length buf) \<and> rq_method rq + rq_method_len rq \<le> length buf
    \<and> rq_path rq + rq_path_len rq \<le> length buf \<and> length (rq_params rq) \<le> 8
    \<and> (\<forall>x \<in> set (rq_params rq). param_in buf x) \<and> rq_body rq = rq_body req \<and> rq_body_len rq = rq_body_len req"
proof -
  let ?p1 = "skip_while (\<lambda>b. b \<noteq> 32) buf 0"
  let ?p2 = "skip_while (\<lambda>b. b \<noteq> 32 \<and> b \<noteq> 63) buf (?p1 + 1)"
  have p1: "?p1 \<noteq> length buf" using assms by (auto simp: parse_req_line_def Let_def)
  then have p1': "?p1 + 1 \<le> length buf" using skip_while_bounds [of 0 buf] by (simp add: Suc_le_eq le_neq_implies_less)
  have p2: "?p2 \<noteq> length buf" using assms p1 by (auto simp: parse_req_line_def Let_def)
  then have p2': "?p1 + 1 \<le> ?p2" "?p2 < length buf"
    using skip_while_bounds [OF p1', of "\<lambda>b. b \<noteq> 32 \<and> b \<noteq> 63"] by simp_all
  let ?x = "if buf ! ?p2 = 63 then parse_params 8 buf (?p2 + 1) else ([], ?p2)"
  have x: "\<forall>y \<in> set (fst ?x). param_in buf y" "length (fst ?x) \<le> 8" "?p2 \<le> snd ?x" "snd ?x \<le> length buf"
    using params_bounds [of "?p2 + 1" buf 8] p2'(2) by auto
  let ?p4 = "skip_while (\<lambda>b. b \<noteq> 10) buf (snd ?x)"
  have p4: "snd ?x \<le> ?p4" "?p4 \<le> length buf" using skip_while_bounds [OF x(4)] by blast+
  have r: "n = int (if ?p4 < length buf then ?p4 + 1 else ?p4)"
    "rq = req\<lparr>rq_method := 0, rq_method_len := ?p1, rq_path := ?p1 + 1, rq_path_len := ?p2 - (?p1 + 1), rq_params := fst ?x\<rparr>"
    using assms(1) p1 p2 p2'(2)
    by (auto simp: parse_req_line_def Let_def byte_at_def split: prod.splits)
  show ?thesis using r x p4 p2' p1' by auto
qed

end
