(* ===== verification/Http_Props.thy ===== *)
theory Http_Props
  imports Http_Parse
begin

text \<open>
  The properties of \<^verbatim>\<open>src/misc/http/parse.c\<close>: the parser is total and stays inside the received
  bytes, and it reads a rendered request back.
\<close>

section \<open>Safety\<close>

lemma int_digits_error: "int_digits n ds = Inl e \<Longrightarrow> e = SignedOverflow"
  by (induction ds arbitrary: n) (auto simp: Let_def split: if_splits)

definition line_end :: "bytes \<Rightarrow> nat \<Rightarrow> nat" where
  "line_end buf q = (let p2 = skip_while (\<lambda>b. b \<noteq> 10) buf q in if p2 < length buf then p2 + 1 else p2)"

lemma line_end_bounds:
  assumes "p \<le> q" "q \<le> length buf" "p < length buf"
  shows "p < line_end buf q \<and> line_end buf q \<le> length buf"
  using skip_while_bounds [OF assms(2), of "\<lambda>b. b \<noteq> 10"] assms by (auto simp: line_end_def Let_def)

lemma header_line_eq:
  "header_line buf p clen =
    (if at_char buf p 67 \<and> at_char buf (p + 1) 111 \<and> p + 15 \<le> length buf
        \<and> take 15 (drop p buf) = content_length_name
     then rbind (int_digits 0 (takeWhile is_digit (drop (skip_while (\<lambda>b. b = 32 \<or> b = 9) buf (p + 15)) buf)))
       (\<lambda>n. Inr (line_end buf (skip_while (\<lambda>b. b = 32 \<or> b = 9) buf (p + 15)
          + length (takeWhile is_digit (drop (skip_while (\<lambda>b. b = 32 \<or> b = 9) buf (p + 15)) buf))), n))
     else Inr (line_end buf p, clen))"
  by (auto simp: header_line_def line_end_def Let_def rbind_def split: sum.splits)

lemma header_line_bounds:
  assumes "p < length buf"
  shows "(\<exists>p' n. header_line buf p clen = Inr (p', n) \<and> p < p' \<and> p' \<le> length buf)
    \<or> header_line buf p clen = Inl SignedOverflow"
proof -
  let ?p1 = "skip_while (\<lambda>b. b = 32 \<or> b = 9) buf (p + 15)"
  let ?ds = "takeWhile is_digit (drop ?p1 buf)"
  have q: "p \<le> ?p1 + length ?ds \<and> ?p1 + length ?ds \<le> length buf" if "p + 15 \<le> length buf"
    using skip_while_bounds [OF that, of "\<lambda>b. b = 32 \<or> b = 9"] length_takeWhile_le [of is_digit "drop ?p1 buf"]
    unfolding length_drop by linarith
  show ?thesis
    using line_end_bounds [OF _ _ assms] q assms int_digits_error [of 0 ?ds]
    unfolding header_line_eq by (cases "int_digits 0 ?ds") auto
qed

lemma headers_bounds:
  "(\<exists>n clen'. headers_loop buf p clen = Inr (n, clen') \<and> (n = - 1 \<or> (2 \<le> n \<and> n \<le> int (length buf))))
   \<or> headers_loop buf p clen = Inl SignedOverflow"
proof (induction buf p clen rule: headers_loop.induct)
  case (1 buf p clen)
  show ?case
  proof (cases "p + 1 < length buf \<and> \<not> (buf ! p = 13 \<and> buf ! (p + 1) = 10)")
    case True
    then have p: "p < length buf" by simp
    from header_line_bounds [OF p, of clen] show ?thesis
    proof
      assume "\<exists>p' n. header_line buf p clen = Inr (p', n) \<and> p < p' \<and> p' \<le> length buf"
      then obtain p' n where h: "header_line buf p clen = Inr (p', n)" "p < p'" by blast
      have "headers_loop buf p clen = headers_loop buf p' n"
        using True h by (subst headers_loop.simps) auto
      then show ?thesis using "1.IH" [of "(p', n)"] True h by simp
    qed (use True in \<open>subst headers_loop.simps, auto\<close>)
  next
    case False
    then show ?thesis by (subst (1 2) headers_loop.simps) auto
  qed
qed

lemma req_line_total: "\<exists>n rq. parse_req_line buf req = Inr (n, rq) \<and> (n = - 1 \<or> 0 \<le> n)"
proof -
  let ?p1 = "skip_while (\<lambda>b. b \<noteq> 32) buf 0"
  let ?p2 = "skip_while (\<lambda>b. b \<noteq> 32 \<and> b \<noteq> 63) buf (?p1 + 1)"
  have p1: "?p1 \<le> length buf" using skip_while_bounds [of 0 buf] by simp
  show ?thesis
  proof (cases "?p1 = length buf \<or> ?p2 = length buf")
    case False
    then have "?p1 + 1 \<le> length buf" using p1 by simp
    then have "?p2 < length buf" using False skip_while_bounds [of "?p1 + 1" buf] by (simp add: le_neq_implies_less)
    then show ?thesis using False by (simp add: parse_req_line_def Let_def byte_at_def split: prod.splits)
  qed (auto simp: parse_req_line_def Let_def)
qed

lemma parse_in_bounds:
  "case parse_http_req buf req of
     Inl e \<Rightarrow> e = SignedOverflow
   | Inr (n, rq) \<Rightarrow> n = - 1 \<or> (0 < n \<and> n \<le> int (length buf) \<and> req_in buf rq)"
proof (cases "10 \<in> set buf")
  case True
  let ?line = "take (length (takeWhile (\<lambda>b. b \<noteq> 10) buf) + 1) buf"
  obtain c rq1 where l: "parse_req_line ?line req = Inr (c, rq1)" "c = - 1 \<or> 0 \<le> c"
    using req_line_total by blast
  show ?thesis
  proof (cases "0 \<le> c")
    case False
    then show ?thesis using True l by (simp add: parse_http_req_def Let_def)
  next
    case c0: True
    have b: "0 < c" "c \<le> int (length ?line)" "rq_method rq1 + rq_method_len rq1 \<le> length ?line"
      "rq_path rq1 + rq_path_len rq1 \<le> length ?line" "length (rq_params rq1) \<le> 8"
      "\<forall>x \<in> set (rq_params rq1). param_in ?line x"
      using req_line_bounds [OF l(1) c0] by auto
    have p: "\<forall>x \<in> set (rq_params rq1). param_in buf x" using b(6) param_in_mono by blast
    have len: "length ?line \<le> length buf" by simp
    have cb: "nat c \<le> length buf" using b(2) len by linarith
    from headers_bounds [of "drop (nat c) buf" 0 0] show ?thesis
    proof
      assume "\<exists>n clen. headers_loop (drop (nat c) buf) 0 0 = Inr (n, clen)
        \<and> (n = - 1 \<or> 2 \<le> n \<and> n \<le> int (length (drop (nat c) buf)))"
      then obtain n clen where h: "headers_loop (drop (nat c) buf) 0 0 = Inr (n, clen)"
        "n = - 1 \<or> (2 \<le> n \<and> n \<le> int (length (drop (nat c) buf)))" by blast
      have m: "rq_method rq1 + rq_method_len rq1 \<le> length buf" "rq_path rq1 + rq_path_len rq1 \<le> length buf"
        using b(3,4) len by linarith+
      have hb: "nat c + nat n \<le> length buf" if "2 \<le> n"
      proof -
        have "nat n \<le> length (drop (nat c) buf)" using h(2) that by linarith
        then show ?thesis using cb by simp
      qed
      show ?thesis
        using True l(1) c0 h hb m b(1,5) p
        by (auto simp: parse_http_req_def parse_headers_def Let_def req_in_def)
    next
      assume "headers_loop (drop (nat c) buf) 0 0 = Inl SignedOverflow"
      then show ?thesis using True l(1) c0 by (simp add: parse_http_req_def parse_headers_def Let_def)
    qed
  qed
qed (simp add: parse_http_req_def)

section \<open>Rendered requests\<close>

definition render_param :: "bytes \<times> bytes \<Rightarrow> bytes" where
  "render_param = (\<lambda>(k, v). k @ 61 # v)"

fun render_params :: "(bytes \<times> bytes) list \<Rightarrow> bytes" where
  "render_params [] = []"
| "render_params [x] = render_param x"
| "render_params (x # y # xs) = render_param x @ 38 # render_params (y # xs)"

definition render_req :: "bytes \<Rightarrow> bytes \<Rightarrow> (bytes \<times> bytes) list \<Rightarrow> bytes" where
  "render_req meth path ps =
     meth @ 32 # path @ 63 # render_params ps @ lit '' HTTP/1.1'' @ [13, 10, 13, 10]"

text \<open>What may stand in a key or a value so that it is not taken for something else.\<close>

definition plain_key :: "bytes \<Rightarrow> bool" where
  "plain_key k \<longleftrightarrow> (\<forall>b \<in> set k. b \<noteq> 61 \<and> b \<noteq> 38 \<and> b \<noteq> 32 \<and> b \<noteq> 10)"

definition plain_val :: "bytes \<Rightarrow> bool" where
  "plain_val v \<longleftrightarrow> (\<forall>b \<in> set v. b \<noteq> 38 \<and> b \<noteq> 32 \<and> b \<noteq> 10)"

definition plain_word :: "bytes \<Rightarrow> bool" where
  "plain_word w \<longleftrightarrow> (\<forall>b \<in> set w. b \<noteq> 32 \<and> b \<noteq> 63 \<and> b \<noteq> 10)"

definition in_buf :: "bytes \<Rightarrow> nat \<Rightarrow> nat \<Rightarrow> bytes" where
  "in_buf buf p n = take n (drop p buf)"

definition param_key :: "bytes \<Rightarrow> http_param \<Rightarrow> bytes" where
  "param_key buf x = in_buf buf (pa_key x) (pa_key_len x)"

definition param_val :: "bytes \<Rightarrow> http_param \<Rightarrow> bytes" where
  "param_val buf x = (case pa_val x of In_buf v \<Rightarrow> in_buf buf v (pa_val_len x) | Empty_lit \<Rightarrow> [])"

definition param_pair :: "bytes \<Rightarrow> http_param \<Rightarrow> bytes \<times> bytes" where
  "param_pair buf x = (param_key buf x, param_val buf x)"

lemma parse_param_rendered:
  assumes "p = length pre" "plain_key k" "plain_val v" "c = 32 \<or> c = 38"
  shows "\<exists>x. parse_param (pre @ render_param (k, v) @ c # post) p
      = (x, p + length (render_param (k, v)) + (if c = 38 then 1 else 0))
    \<and> pa_key x = p \<and> pa_key_len x = length k \<and> pa_val x = In_buf (p + length k + 1) \<and> pa_val_len x = length v"
proof -
  let ?buf = "pre @ render_param (k, v) @ c # post"
  have b1: "?buf = pre @ k @ 61 # (v @ c # post)" and b2: "?buf = (pre @ k @ [61]) @ v @ c # post"
    by (simp_all add: render_param_def)
  have s1: "skip_while (\<lambda>b. b \<noteq> 61 \<and> b \<noteq> 38 \<and> b \<noteq> 32) ?buf p = p + length k"
    unfolding b1 by (rule skip_while_app) (use assms in \<open>auto simp: plain_key_def\<close>)
  have s2: "skip_while (\<lambda>b. b \<noteq> 38 \<and> b \<noteq> 32) ?buf (p + length k + 1) = p + length k + 1 + length v"
    unfolding b2 by (rule skip_while_app) (use assms in \<open>auto simp: plain_val_def\<close>)
  have c1: "at_char ?buf (p + length k) 61"
    unfolding b1 using assms(1) by (simp add: at_char_def nth_append)
  have c2: "at_char ?buf (p + length k + 1 + length v) 38 = (c = 38)"
    unfolding b2 using assms(1) by (simp add: at_char_def nth_append)
  show ?thesis using s1 s2 c1 c2 by (simp add: parse_param_def render_param_def Let_def)
qed

lemma in_buf_mid: "p = length pre \<Longrightarrow> n = length s \<Longrightarrow> in_buf (pre @ s @ post) p n = s"
  by (simp add: in_buf_def)

lemma param_read:
  fixes post :: bytes
  assumes "plain_key k" "plain_val v" "p = length pre" "ch = 32 \<or> ch = 38"
  defines "buf \<equiv> pre @ render_param (k, v) @ ch # post"
  shows "\<exists>x. parse_param buf p = (x, p + length (render_param (k, v)) + (if ch = 38 then 1 else 0))
    \<and> param_pair buf x = (k, v) \<and> p < length buf \<and> buf ! p \<noteq> 32"
proof -
  obtain x where x: "parse_param buf p = (x, p + length (render_param (k, v)) + (if ch = 38 then 1 else 0))"
    "pa_key x = p" "pa_key_len x = length k" "pa_val x = In_buf (p + length k + 1)" "pa_val_len x = length v"
    unfolding buf_def using parse_param_rendered [OF assms(3), of k v ch post] assms(1,2,4) by auto
  have "p < length buf \<and> buf ! p \<noteq> 32"
    unfolding buf_def using assms(3) by (simp add: nth_append render_param_def) (cases k; use assms(1) in \<open>auto simp: plain_key_def\<close>)
  moreover have "param_key buf x = k"
    unfolding buf_def using in_buf_mid [of p pre "length k" k "61 # v @ ch # post"] assms(3) x(2,3)
    by (simp add: param_key_def render_param_def)
  moreover have "param_val buf x = v"
    unfolding buf_def using in_buf_mid [of "p + length k + 1" "pre @ k @ [61]" "length v" v "ch # post"] assms(3) x(4,5)
    by (simp add: param_val_def render_param_def)
  ultimately show ?thesis using x(1) by (simp add: param_pair_def)
qed

lemma params_head: "plain_key (fst y) \<Longrightarrow> hd (render_params (y # ys) @ [32]) \<noteq> 32"
  by (cases y; cases ys; cases "fst y") (auto simp: render_param_def plain_key_def)

lemma parse_params_rendered:
  assumes "\<forall>(k, v) \<in> set ps. plain_key k \<and> plain_val v" "ps \<noteq> []" "length ps \<le> n" "p = length pre"
    and "hd (render_params ps @ [32]) \<noteq> 32"
  shows "\<exists>xs. parse_params n (pre @ render_params ps @ 32 # post) p = (xs, p + length (render_params ps))
    \<and> map (param_pair (pre @ render_params ps @ 32 # post)) xs = ps"
  using assms
proof (induction ps arbitrary: n p pre rule: render_params.induct)
  case (2 kv)
  obtain k v where kv: "kv = (k, v)" by (cases kv)
  obtain n' where n: "n = Suc n'" using 2(3) by (cases n) auto
  let ?buf = "pre @ render_param (k, v) @ 32 # post"
  obtain x where x: "parse_param ?buf p = (x, p + length (render_param (k, v)))" "param_pair ?buf x = (k, v)"
    "p < length ?buf" "?buf ! p \<noteq> 32"
    using param_read [OF _ _ 2(4), of k v 32 post] 2(1) kv by auto
  have "parse_params n' ?buf (p + length (render_param (k, v))) = ([], p + length (render_param (k, v)))"
    using 2(4) by (cases n') (auto simp: nth_append)
  then show ?case using n x kv by simp
next
  case (3 kv y ys)
  obtain k v where kv: "kv = (k, v)" by (cases kv)
  obtain n' where n: "n = Suc n'" using 3(4) by (cases n) auto
  let ?rest = "render_params (y # ys)"
  let ?buf = "pre @ render_param (k, v) @ 38 # ?rest @ 32 # post"
  let ?pre = "pre @ render_param (k, v) @ [38]"
  obtain x where x: "parse_param ?buf p = (x, p + length (render_param (k, v)) + 1)" "param_pair ?buf x = (k, v)"
    "p < length ?buf" "?buf ! p \<noteq> 32"
    using param_read [OF _ _ 3(5), of k v 38 "?rest @ 32 # post"] 3(2) kv by auto
  have hd: "hd (?rest @ [32]) \<noteq> 32" using 3(2) by (intro params_head) auto
  obtain xs where xs: "parse_params n' (?pre @ ?rest @ 32 # post) (length ?pre) = (xs, length ?pre + length ?rest)"
    "map (param_pair (?pre @ ?rest @ 32 # post)) xs = y # ys"
    using 3(1) [of n' "length ?pre" ?pre] 3(2,4) n hd by auto
  have b: "?pre @ ?rest @ 32 # post = ?buf" by simp
  have l: "length ?pre = p + length (render_param (k, v)) + 1" using 3(5) by simp
  have e: "parse_params n' ?buf (p + length (render_param (k, v)) + 1)
      = (xs, p + length (render_param (k, v)) + 1 + length ?rest)" "map (param_pair ?buf) xs = y # ys"
    using xs unfolding b l by simp_all
  have "parse_params n ?buf p = (x # xs, p + length (render_param (k, v)) + 1 + length ?rest)"
    using n x(1,3,4) e(1) by simp
  then show ?case using e(2) x(2) kv by simp
qed simp

section \<open>Properties\<close>


lemma in_buf_app: "p + n \<le> length a \<Longrightarrow> in_buf (a @ b) p n = in_buf a p n"
  by (simp add: in_buf_def)

lemma param_pair_app: "param_in a x \<Longrightarrow> param_pair (a @ b) x = param_pair a x"
  by (auto simp: param_pair_def param_key_def param_val_def param_in_def in_buf_app split: val_ptr.splits)

lemma no_newline_params:
  assumes "\<forall>(k, v) \<in> set ps. plain_key k \<and> plain_val v"
  shows "10 \<notin> set (render_params ps)"
  using assms
  by (induction ps rule: render_params.induct) (auto simp: render_param_def plain_key_def plain_val_def)

lemma req_line_rendered:
  fixes ps :: "(bytes \<times> bytes) list"
  assumes "plain_word meth" "plain_word path" "\<forall>(k, v) \<in> set ps. plain_key k \<and> plain_val v" "ps \<noteq> []"
    "length ps \<le> 8"
  defines "line \<equiv> meth @ 32 # path @ 63 # render_params ps @ lit '' HTTP/1.1'' @ [13, 10]"
  shows "\<exists>xs. parse_req_line line req = Inr (int (length line),
      req\<lparr>rq_method := 0, rq_method_len := length meth, rq_path := length meth + 1, rq_path_len := length path,
        rq_params := xs\<rparr>) \<and> map (param_pair line) xs = ps"
proof -
  let ?pre = "meth @ 32 # path @ [63]" and ?post = "lit ''HTTP/1.1'' @ [13, 10]"
  have l1: "line = [] @ meth @ 32 # (path @ 63 # render_params ps @ lit '' HTTP/1.1'' @ [13, 10])"
    and l2: "line = (meth @ [32]) @ path @ 63 # (render_params ps @ lit '' HTTP/1.1'' @ [13, 10])"
    and l3: "line = ?pre @ render_params ps @ 32 # ?post"
    and l4: "line = (?pre @ render_params ps) @ (lit '' HTTP/1.1'' @ [13]) @ 10 # []"
    by (simp_all add: line_def)
  have p1: "skip_while (\<lambda>b. b \<noteq> 32) line 0 = length meth"
    unfolding l1 using assms(1) by (subst skip_while_app) (auto simp: plain_word_def)
  have p2: "skip_while (\<lambda>b. b \<noteq> 32 \<and> b \<noteq> 63) line (length meth + 1) = length meth + 1 + length path"
    unfolding l2 using assms(2) by (subst skip_while_app) (auto simp: plain_word_def)
  obtain k v rest where ps: "ps = (k, v) # rest" using assms(4) by (cases ps) auto
  have "hd (render_params ps @ [32]) = hd (k @ [61])"
    using ps by (cases rest; cases k) (auto simp: render_param_def)
  moreover have "hd (k @ [61]) \<noteq> 32" using assms(3) ps by (cases k) (auto simp: plain_key_def)
  ultimately have hd: "hd (render_params ps @ [32]) \<noteq> 32" by simp
  obtain xs where xs: "parse_params 8 line (length ?pre) = (xs, length ?pre + length (render_params ps))"
    "map (param_pair line) xs = ps"
    using parse_params_rendered [OF assms(3,4,5) refl hd, of ?pre ?post] unfolding l3 by blast
  have p4: "skip_while (\<lambda>b. b \<noteq> 10) line (length ?pre + length (render_params ps)) = length line - 1"
    unfolding l4 by (subst skip_while_app) auto
  have c: "byte_at line (length meth + 1 + length path) = Inr 63"
    unfolding l2 by (simp add: byte_at_def nth_append)
  have len: "length meth \<noteq> length line" "length meth + 1 + length path \<noteq> length line" "0 < length line"
    by (simp_all add: line_def)
  have "parse_req_line line req = Inr (int (length line),
      req\<lparr>rq_method := 0, rq_method_len := length meth, rq_path := length meth + 1, rq_path_len := length path,
        rq_params := xs\<rparr>)"
    using len xs(1) p4 p2 c by (simp add: parse_req_line_def p1 Let_def)
  then show ?thesis using xs(2) by blast
qed

text \<open>A request line that is read back, and what the header lines behind it make of the request.\<close>

lemma line_parsed:
  fixes tail :: bytes and ps :: "(bytes \<times> bytes) list"
  assumes "plain_word meth" "plain_word path" "\<forall>(k, v) \<in> set ps. plain_key k \<and> plain_val v" "ps \<noteq> []" "length ps \<le> 8"
    and "headers_loop tail 0 0 = Inr (n, 0)"
  defines "line \<equiv> meth @ 32 # path @ 63 # render_params ps @ lit '' HTTP/1.1'' @ [13, 10]"
  shows "\<exists>xs. map (param_pair line) xs = ps \<and> (\<forall>x \<in> set xs. param_in line x)
    \<and> parse_http_req (line @ tail) req =
        (let req1 = req\<lparr>rq_method := 0, rq_method_len := length meth, rq_path := length meth + 1, rq_path_len := length path,
               rq_params := xs, rq_content_length := 0\<rparr>
         in if n < 0 then Inr (- 1, req1)
            else Inr (int (length line + nat n), req1\<lparr>rq_body := None, rq_body_len := 0\<rparr>))"
proof -
  let ?l0 = "meth @ 32 # path @ 63 # render_params ps @ lit '' HTTP/1.1'' @ [13]"
  have b: "line @ tail = ?l0 @ 10 # tail" by (simp add: line_def)
  have no: "10 \<notin> set ?l0"
    using no_newline_params [OF assms(3)] assms(1,2) by (auto simp: plain_word_def)
  have tw: "takeWhile (\<lambda>b. b \<noteq> 10) (line @ tail) = ?l0"
    unfolding b by (rule takeWhile_stop) (use no in auto)
  have ll: "length ?l0 + 1 = length line" by (simp add: line_def)
  have t: "take (length line) (line @ tail) = line" and d: "drop (length line) (line @ tail) = tail" by simp_all
  obtain xs where x: "parse_req_line line req = Inr (int (length line),
      req\<lparr>rq_method := 0, rq_method_len := length meth, rq_path := length meth + 1, rq_path_len := length path,
        rq_params := xs\<rparr>)" "map (param_pair line) xs = ps"
    unfolding line_def using req_line_rendered [OF assms(1-5)] by blast
  have n10: "10 \<in> set (line @ tail)" unfolding b by simp
  have "parse_headers (drop (nat (int (length line))) (line @ tail)) rq1 = Inr (n, rq1\<lparr>rq_content_length := 0\<rparr>)" for rq1
    unfolding nat_int d parse_headers_def assms(6) by simp
  then have "parse_http_req (line @ tail) req =
        (let req1 = req\<lparr>rq_method := 0, rq_method_len := length meth, rq_path := length meth + 1, rq_path_len := length path,
               rq_params := xs, rq_content_length := 0\<rparr>
         in if n < 0 then Inr (- 1, req1)
            else Inr (int (length line + nat n), req1\<lparr>rq_body := None, rq_body_len := 0\<rparr>))"
    using n10 unfolding parse_http_req_def Let_def tw ll t x(1) by simp
  moreover have "\<forall>y \<in> set xs. param_in line y" using req_line_bounds [OF x(1)] by simp
  ultimately show ?thesis using x(2) by blast
qed

lemma parse_rendered_lemma:
  fixes rest :: bytes
  assumes "plain_word meth" "plain_word path" "\<forall>(k, v) \<in> set ps. plain_key k \<and> plain_val v" "ps \<noteq> []"
    "length ps \<le> 8"
  defines "buf \<equiv> render_req meth path ps @ rest"
  shows "\<exists>rq. parse_http_req buf req = Inr (int (length (render_req meth path ps)), rq)
    \<and> in_buf buf (rq_method rq) (rq_method_len rq) = meth \<and> in_buf buf (rq_path rq) (rq_path_len rq) = path
    \<and> map (param_pair buf) (rq_params rq) = ps \<and> rq_body rq = None
    \<and> rq_method_len rq = length meth \<and> rq_path_len rq = length path
    \<and> (\<forall>x \<in> set (rq_params rq). param_in buf x)"
proof -
  let ?line = "meth @ 32 # path @ 63 # render_params ps @ lit '' HTTP/1.1'' @ [13, 10]"
  have b: "buf = ?line @ ([13, 10] @ rest)" by (simp add: buf_def render_req_def)
  have h: "headers_loop ([13, 10] @ rest) 0 0 = Inr (2, 0)" by (subst headers_loop.simps) simp
  obtain xs where x: "map (param_pair ?line) xs = ps" "\<forall>x \<in> set xs. param_in ?line x"
    "parse_http_req buf req = Inr (int (length ?line + 2),
      req\<lparr>rq_method := 0, rq_method_len := length meth, rq_path := length meth + 1, rq_path_len := length path,
        rq_params := xs, rq_content_length := 0, rq_body := None, rq_body_len := 0\<rparr>)"
    unfolding b using line_parsed [OF assms(1-5) h, of req] by (auto simp: Let_def simp del: append.simps append_assoc)
  have "map (param_pair buf) xs = map (param_pair ?line) xs"
    unfolding b using param_pair_app x(2) by (intro map_cong refl) blast
  then have xs: "map (param_pair buf) xs = ps" using x(1) by (rule trans)
  have "buf = [] @ meth @ (32 # path @ 63 # render_params ps @ lit '' HTTP/1.1'' @ [13, 10, 13, 10] @ rest)"
    "buf = (meth @ [32]) @ path @ (63 # render_params ps @ lit '' HTTP/1.1'' @ [13, 10, 13, 10] @ rest)"
    by (simp_all add: buf_def render_req_def)
  then have "in_buf buf 0 (length meth) = meth" "in_buf buf (length meth + 1) (length path) = path"
    using in_buf_mid [of 0 "[]" "length meth" meth] in_buf_mid [of "length meth + 1" "meth @ [32]" "length path" path]
    by simp_all
  moreover have "\<forall>y \<in> set xs. param_in buf y"
    using x(2) param_in_mono [of "length ?line" buf] b append_eq_conv_conj [of ?line "[13, 10] @ rest" buf] by metis
  moreover have "length (render_req meth path ps) = length ?line + 2" by (simp add: render_req_def)
  ultimately show ?thesis using x(3) xs by simp
qed

text \<open>A rendered request that has not arrived whole is waited for.\<close>

lemma parse_rendered_prefix:
  assumes "plain_word meth" "plain_word path" "\<forall>(k, v) \<in> set ps. plain_key k \<and> plain_val v" "ps \<noteq> []" "length ps \<le> 8"
    and "render_req meth path ps = buf @ missing" "missing \<noteq> []"
  shows "\<exists>rq. parse_http_req buf req = Inr (- 1, rq)"
proof -
  define l0 where "l0 = meth @ 32 # path @ 63 # render_params ps @ lit '' HTTP/1.1'' @ [13]"
  have r: "buf @ missing = l0 @ [10, 13, 10]" using assms(6) by (simp add: render_req_def l0_def)
  have no: "10 \<notin> set l0"
    using no_newline_params [OF assms(3)] assms(1,2) by (auto simp: plain_word_def l0_def)
  consider (within) "length buf \<le> length l0" | (behind) tail where "buf = (l0 @ [10]) @ tail" "tail = [] \<or> tail = [13]"
    using r assms(7) by (auto simp: append_eq_append_conv2 append_eq_Cons_conv Cons_eq_append_conv)
  then show ?thesis
  proof cases
    case within
    then have "take (length buf) (buf @ missing) = take (length buf) l0" unfolding r by simp
    then have "set buf \<subseteq> set l0" using set_take_subset [of "length buf" l0] by simp
    then show ?thesis using no by (auto simp: parse_http_req_def)
  next
    case behind
    then have "headers_loop tail 0 0 = Inr (- 1, 0)" by (subst headers_loop.simps) auto
    from line_parsed [OF assms(1-5) this, of req] show ?thesis using behind(1) by (auto simp: Let_def l0_def)
  qed
qed

text \<open>
  C17. A rendered request without a body is read back: method, path and up to 8 parameters come
  out as they went in, and exactly the request is consumed, whatever bytes follow.
\<close>

theorem parse_http_req_rendered:
  assumes "plain_word meth" "plain_word path" "list_all (\<lambda>(k, v). plain_key k \<and> plain_val v) ps"
    and "ps \<noteq> []" "length ps \<le> 8" "buf = render_req meth path ps @ rest"
  shows "\<exists>rq. parse_http_req buf req = Inr (int (length (render_req meth path ps)), rq)
    \<and> in_buf buf (rq_method rq) (rq_method_len rq) = meth \<and> in_buf buf (rq_path rq) (rq_path_len rq) = path
    \<and> map (param_pair buf) (rq_params rq) = ps \<and> rq_body rq = None"
  using parse_rendered_lemma [OF assms(1,2) _ assms(4,5), of rest req] assms(3,6)
  by (simp add: list_all_iff) blast

theorem parse_http_req_rendered_witness:
  "\<exists>rq. parse_http_req (render_req (lit ''GET'') (lit ''/api/v1/GET'') [(lit ''key'', lit ''a'')] @ [1, 2]) req_zero
      = Inr (34, rq)
    \<and> map (param_pair (render_req (lit ''GET'') (lit ''/api/v1/GET'') [(lit ''key'', lit ''a'')] @ [1, 2])) (rq_params rq)
      = [(lit ''key'', lit ''a'')]"
  using parse_http_req_rendered [of "lit ''GET''" "lit ''/api/v1/GET''" "[(lit ''key'', lit ''a'')]" _ "[1, 2]" req_zero]
  by (auto simp: plain_word_def plain_key_def plain_val_def render_req_def render_param_def)

end
