(* ===== verification/Http_Conn.thy ===== *)
theory Http_Conn
  imports Http_Props
begin

text \<open>
  \<^verbatim>\<open>src/misc/http/route.c\<close>, \<^verbatim>\<open>response.c\<close>, \<^verbatim>\<open>conn.c\<close> and the event dispatch of \<^verbatim>\<open>worker.c\<close>: the
  route table, the response in the write buffer, and a connection as a state machine. What the
  socket delivers and accepts is a list of events; a handler is a function of the received bytes,
  the request and the server's state, as the function pointers of the route table are.
\<close>

section \<open>Responses\<close>

definition BUFFER_SIZE :: nat where "BUFFER_SIZE = 16384"
definition RESP_BUFFER_SIZE :: nat where "RESP_BUFFER_SIZE = 32768"
definition CONN_POOL_SIZE :: nat where "CONN_POOL_SIZE = 16384"

text \<open>
  The body is the text a handler formatted; \<open>body_len\<close> is its length. The field \<open>is_static\<close> is
  never read and left out.
\<close>

record http_resp =
  rs_status :: nat
  rs_body :: bytes

definition status_text :: "nat \<Rightarrow> bytes" where
  "status_text st = (if st = 200 then lit ''OK'' else if st = 404 then lit ''Not Found'' else lit ''Error'')"

definition crlf :: bytes where "crlf = [13, 10]"

definition resp_head :: "nat \<Rightarrow> nat \<Rightarrow> bytes" where
  "resp_head st len =
     lit ''HTTP/1.1 '' @ dec st @ lit '' '' @ status_text st @ crlf
     @ lit ''Content-Type: application/json'' @ crlf
     @ lit ''Content-Length: '' @ dec len @ crlf
     @ lit ''Connection: keep-alive'' @ crlf
     @ lit ''Cache-Control: no-cache'' @ crlf @ crlf"

definition resp_bytes :: "http_resp \<Rightarrow> bytes" where
  "resp_bytes res = resp_head (rs_status res) (length (rs_body res)) @ rs_body res"

section \<open>Connections\<close>

datatype conn_state = CONN_READING | CONN_WRITING | CONN_CLOSE | CONN_PROXY

text \<open>
  \<open>cn_in\<close> is \<open>read_buf[0 .. read_total)\<close>, \<open>cn_out\<close> is \<open>write_buf[0 .. write_total)\<close>; \<open>cn_rbuf\<close> and
  \<open>cn_wbuf\<close> tell whether the buffers are allocated.
\<close>

record conn =
  cn_fd :: int
  cn_state :: conn_state
  cn_rbuf :: bool
  cn_wbuf :: bool
  cn_in :: bytes
  cn_out :: bytes
  cn_pos :: nat
  cn_req :: http_req

text \<open>
  \<open>alloc_conn\<close>: the next slot of the pool, with buffers if \<open>malloc\<close> gives them, or a zeroed context
  from \<open>calloc\<close>, which has none, once the pool is used up. A slot is never given back.
\<close>

definition conn_zero :: conn where
  "conn_zero = \<lparr>cn_fd = 0, cn_state = CONN_READING, cn_rbuf = False, cn_wbuf = False, cn_in = [],
     cn_out = [], cn_pos = 0, cn_req = req_zero\<rparr>"

definition alloc_conn :: "nat \<Rightarrow> bool \<Rightarrow> bool \<Rightarrow> bool \<Rightarrow> conn option \<times> nat" where
  "alloc_conn next_slot calloc_ok rbuf_ok wbuf_ok =
     (if CONN_POOL_SIZE \<le> next_slot then (if calloc_ok then Some conn_zero else None, next_slot)
      else (Some (conn_zero\<lparr>cn_rbuf := rbuf_ok, cn_wbuf := wbuf_ok\<rparr>), next_slot + 1))"

text \<open>What the worker does with an accepted socket; the result of \<open>alloc_conn\<close> is not checked.\<close>

definition accept_conn :: "nat \<Rightarrow> bool \<Rightarrow> bool \<Rightarrow> bool \<Rightarrow> int \<Rightarrow> (conn \<times> nat) res" where
  "accept_conn next_slot calloc_ok rbuf_ok wbuf_ok cfd =
     (case alloc_conn next_slot calloc_ok rbuf_ok wbuf_ok of
        (None, n) \<Rightarrow> Inl NullDeref
      | (Some c, n) \<Rightarrow> Inr (c\<lparr>cn_fd := cfd, cn_state := CONN_READING\<rparr>, n))"

definition build_resp :: "conn \<Rightarrow> http_resp \<Rightarrow> conn res" where
  "build_resp c res =
     (if \<not> cn_wbuf c then Inl NullDeref
      else if length (resp_bytes res) \<le> RESP_BUFFER_SIZE
      then Inr (c\<lparr>cn_out := resp_bytes res, cn_pos := 0\<rparr>)
      else Inl OutOfBounds)"

text \<open>
  One \<open>read\<close>: up to \<open>n\<close> of the bytes that wait, as many as there is space for, or an error, or
  end of file. When nothing waits the call would block. A null buffer makes the call fail.
\<close>

datatype rd_event = Rd nat | Rd_again | Rd_err | Rd_eof

type_synonym 's responder = "bytes \<Rightarrow> http_req \<Rightarrow> 's \<Rightarrow> (http_resp \<times> 's) res option"

definition chunk_size :: "nat \<Rightarrow> conn \<Rightarrow> bytes \<Rightarrow> nat" where
  "chunk_size n c sock = max 1 (min n (min (BUFFER_SIZE - length (cn_in c)) (length sock)))"

text \<open>What follows a successful read: parse, and on a whole request answer it.\<close>

definition serve :: "'s responder \<Rightarrow> conn \<Rightarrow> 's \<Rightarrow> (bool \<times> conn \<times> 's) res option" where
  "serve respond c st =
     (case parse_http_req (cn_in c) (cn_req c) of
        Inl e \<Rightarrow> Some (Inl e)
      | Inr (consumed, rq) \<Rightarrow>
          if consumed \<le> 0 then Some (Inr (False, c\<lparr>cn_req := rq\<rparr>, st))
          else (case respond (cn_in c) rq st of
                  None \<Rightarrow> None
                | Some (Inl e) \<Rightarrow> Some (Inl e)
                | Some (Inr (res, st')) \<Rightarrow>
                    Some (rbind (build_resp (c\<lparr>cn_req := rq\<rparr>) res)
                      (\<lambda>c'. Inr (True, c'\<lparr>cn_in := drop (nat consumed) (cn_in c'), cn_state := CONN_WRITING\<rparr>, st')))))"

fun handle_readable ::
    "'s responder \<Rightarrow> rd_event list \<Rightarrow> conn \<Rightarrow> bytes \<Rightarrow> 's \<Rightarrow> (conn \<times> bytes \<times> 's) res option" where
  "handle_readable respond evs c sock st =
     (if BUFFER_SIZE \<le> length (cn_in c) then Some (Inr (c\<lparr>cn_state := CONN_CLOSE\<rparr>, sock, st))
      else (case evs of
              [] \<Rightarrow> Some (Inr (c, sock, st))
            | Rd_again # es \<Rightarrow> Some (Inr (c, sock, st))
            | Rd_err # es \<Rightarrow> Some (Inr (c\<lparr>cn_state := CONN_CLOSE\<rparr>, sock, st))
            | Rd_eof # es \<Rightarrow> Some (Inr (c\<lparr>cn_state := CONN_CLOSE\<rparr>, sock, st))
            | Rd n # es \<Rightarrow>
                if sock = [] then Some (Inr (c, sock, st))
                else if \<not> cn_rbuf c then Some (Inr (c\<lparr>cn_state := CONN_CLOSE\<rparr>, sock, st))
                else
                  (let k = chunk_size n c sock in
                   case serve respond (c\<lparr>cn_in := cn_in c @ take k sock\<rparr>) st of
                     None \<Rightarrow> None
                   | Some (Inl e) \<Rightarrow> Some (Inl e)
                   | Some (Inr (answered, c', st')) \<Rightarrow>
                       if answered then Some (Inr (c', drop k sock, st'))
                       else handle_readable respond es c' (drop k sock) st')))"

declare handle_readable.simps [simp del]

text \<open>One \<open>send\<close> takes up to \<open>n\<close> bytes, at least one.\<close>

datatype wr_event = Snd nat | Snd_again | Snd_err | Snd_zero

definition write_done :: "conn \<Rightarrow> conn" where
  "write_done c =
     (if length (cn_out c) \<le> cn_pos c then c\<lparr>cn_out := [], cn_pos := 0, cn_state := CONN_READING\<rparr> else c)"

fun handle_writable :: "wr_event list \<Rightarrow> conn \<Rightarrow> bytes \<Rightarrow> conn \<times> bytes" where
  "handle_writable evs c sent =
     (if cn_pos c < length (cn_out c) then
        (case evs of
           [] \<Rightarrow> (write_done c, sent)
         | Snd_again # es \<Rightarrow> (write_done c, sent)
         | Snd_err # es \<Rightarrow> (c\<lparr>cn_state := CONN_CLOSE\<rparr>, sent)
         | Snd_zero # es \<Rightarrow> (c\<lparr>cn_state := CONN_CLOSE\<rparr>, sent)
         | Snd n # es \<Rightarrow>
             (let k = max 1 (min n (length (cn_out c) - cn_pos c)) in
              handle_writable es (c\<lparr>cn_pos := cn_pos c + k\<rparr>)
                (sent @ take k (drop (cn_pos c) (cn_out c)))))
      else (write_done c, sent))"

declare handle_writable.simps [simp del]

section \<open>The worker's dispatch\<close>

text \<open>
  The events of one connection: \<open>EPOLLIN\<close> and \<open>EPOLLOUT\<close> as flags, with what the socket does.
  A closed connection gets no more events.
\<close>

record conn_event =
  ev_in :: bool
  ev_out :: bool
  ev_data :: bytes
  ev_reads :: "rd_event list"
  ev_writes :: "wr_event list"

text \<open>The connection, the bytes waiting in the socket, the bytes sent so far, the server's state.\<close>

type_synonym 's conn_run = "conn \<times> bytes \<times> bytes \<times> 's"

definition worker_event :: "'s responder \<Rightarrow> conn_event \<Rightarrow> 's conn_run \<Rightarrow> 's conn_run res option" where
  "worker_event respond ev = (\<lambda>(c, sock, sent, st).
     if cn_state c = CONN_CLOSE then Some (Inr (c, sock, sent, st))
     else
       (case (if ev_in ev \<and> cn_state c = CONN_READING
              then handle_readable respond (ev_reads ev) c (sock @ ev_data ev) st
              else Some (Inr (c, sock @ ev_data ev, st))) of
          None \<Rightarrow> None
        | Some (Inl e) \<Rightarrow> Some (Inl e)
        | Some (Inr (c1, sock1, st1)) \<Rightarrow>
            if ev_out ev \<and> cn_state c1 = CONN_WRITING
            then (case handle_writable (ev_writes ev) c1 sent of (c2, sent2) \<Rightarrow> Some (Inr (c2, sock1, sent2, st1)))
            else Some (Inr (c1, sock1, sent, st1))))"

fun worker_events :: "'s responder \<Rightarrow> conn_event list \<Rightarrow> 's conn_run \<Rightarrow> 's conn_run res option" where
  "worker_events respond [] r = Some (Inr r)"
| "worker_events respond (ev # evs) r =
     (case worker_event respond ev r of
        None \<Rightarrow> None
      | Some (Inl e) \<Rightarrow> Some (Inl e)
      | Some (Inr r') \<Rightarrow> worker_events respond evs r')"

section \<open>Routes\<close>

text \<open>The route table over any type of handlers.\<close>

record 'h route =
  rt_method :: bytes
  rt_path :: bytes
  rt_handler :: 'h

definition add_route :: "'h route list \<Rightarrow> bytes \<Rightarrow> bytes \<Rightarrow> 'h \<Rightarrow> 'h route list" where
  "add_route routes meth path h =
     (if 128 \<le> length routes then routes
      else routes @ [\<lparr>rt_method = meth, rt_path = path, rt_handler = h\<rparr>])"

text \<open>The first entry whose method and path are those of the request.\<close>

fun find_route :: "'h route list \<Rightarrow> bytes \<Rightarrow> http_req \<Rightarrow> 'h option" where
  "find_route [] buf rq = None"
| "find_route (r # rs) buf rq =
     (if rq_method_len rq = length (rt_method r) \<and> in_buf buf (rq_method rq) (rq_method_len rq) = rt_method r
        \<and> rq_path_len rq = length (rt_path r) \<and> in_buf buf (rq_path rq) (rq_path_len rq) = rt_path r
      then Some (rt_handler r) else find_route rs buf rq)"

text \<open>The built-in handlers.\<close>

definition handle_404 :: http_resp where
  "handle_404 = \<lparr>rs_status = 404, rs_body = lit ''{\"error\":\"Not Found\"}''\<rparr>"

definition handle_ping :: http_resp where
  "handle_ping = \<lparr>rs_status = 200, rs_body = lit ''{\"status\":\"ok\"}''\<rparr>"

text \<open>The responses prepared in \<^verbatim>\<open>response.h\<close>, which nothing sends: their heads are written by hand.\<close>

definition static_head :: "bytes \<Rightarrow> nat \<Rightarrow> bytes" where
  "static_head status n =
     lit ''HTTP/1.1 '' @ status @ crlf @ lit ''Content-Type: application/json'' @ crlf
     @ lit ''Content-Length: '' @ dec n @ crlf @ lit ''Connection: keep-alive'' @ crlf"

definition RESP_PING :: bytes where
  "RESP_PING = static_head (lit ''200 OK'') 16 @ lit ''Cache-Control: no-cache'' @ crlf @ crlf @ lit ''{\"status\":\"ok\"}''"

definition RESP_PING_LEN :: nat where "RESP_PING_LEN = length RESP_PING"

definition RESP_404 :: bytes where
  "RESP_404 = static_head (lit ''404 Not Found'') 23 @ crlf @ lit ''{\"error\":\"Not Found\"}''"

definition RESP_404_LEN :: nat where "RESP_404_LEN = length RESP_404"

text \<open>Both announce a longer body than they have, where the built responses announce what they send.\<close>

lemma static_responses_announce_too_much:
  "resp_bytes handle_ping = static_head (lit ''200 OK'') 15 @ lit ''Cache-Control: no-cache'' @ crlf @ crlf @ rs_body handle_ping"
  "RESP_PING = static_head (lit ''200 OK'') 16 @ lit ''Cache-Control: no-cache'' @ crlf @ crlf @ rs_body handle_ping"
  "length (rs_body handle_ping) = 15"
  "RESP_404 = static_head (lit ''404 Not Found'') 23 @ crlf @ rs_body handle_404" "length (rs_body handle_404) = 21"
  by (simp_all add: resp_bytes_def resp_head_def static_head_def RESP_PING_def RESP_404_def handle_ping_def
      handle_404_def crlf_def status_text_def dec.simps)

text \<open>\<open>%.*s\<close> stops at a NUL.\<close>

definition fmt_str :: "bytes \<Rightarrow> bytes" where
  "fmt_str s = takeWhile (\<lambda>b. b \<noteq> 0) s"

fun echo_params :: "bytes \<Rightarrow> http_param list \<Rightarrow> bytes" where
  "echo_params buf [] = []"
| "echo_params buf (x # xs) =
     lit [CHR 0x22] @ fmt_str (param_key buf x) @ lit ''\":\"'' @ fmt_str (param_val buf x) @ lit [CHR 0x22]
     @ (if xs = [] then [] else lit '','' @ echo_params buf xs)"

definition handle_echo :: "bytes \<Rightarrow> http_req \<Rightarrow> http_resp" where
  "handle_echo buf rq =
     \<lparr>rs_status = 200, rs_body = lit ''{'' @ echo_params buf (rq_params rq) @ lit ''}''\<rparr>"

end
