(* ===== verification/Http_Conn_Props.thy ===== *)
theory Http_Conn_Props
  imports Http_Conn
begin

text \<open>
  The properties of a connection of \<^verbatim>\<open>src/misc/http/conn.c\<close>: the buffer bounds are an invariant of
  every event, the client receives exactly the responses built, in order, and a complete request
  left in the buffer waits until more bytes arrive.
\<close>

section \<open>Invariants\<close>

definition conn_ok :: "conn \<Rightarrow> bool" where
  "conn_ok c \<longleftrightarrow> length (cn_in c) \<le> BUFFER_SIZE \<and> length (cn_out c) \<le> RESP_BUFFER_SIZE
     \<and> cn_pos c \<le> length (cn_out c) \<and> (cn_state c = CONN_READING \<longrightarrow> cn_out c = [] \<and> cn_pos c = 0)"

text \<open>
  A server whose state records every response it gives, connection by connection: \<open>respond k\<close> answers
  the requests of the connection \<open>k\<close>.
\<close>

definition logged :: "(nat \<Rightarrow> 's responder) \<Rightarrow> nat \<Rightarrow> ('s \<times> (nat \<Rightarrow> bytes)) responder" where
  "logged respond k buf rq = (\<lambda>(st, logs).
     map_option (map_sum id (\<lambda>(res, st'). (res, st', logs(k := logs k @ resp_bytes res)))) (respond k buf rq st))"

text \<open>What has been answered is what has been sent and what is still in the write buffer.\<close>

definition owed :: "conn \<Rightarrow> bytes" where
  "owed c = drop (cn_pos c) (cn_out c)"

lemma build_resp_ok:
  assumes "build_resp c res = Inr c'"
  shows "cn_out c' = resp_bytes res" "cn_pos c' = 0" "cn_in c' = cn_in c" "length (cn_out c') \<le> RESP_BUFFER_SIZE"
  using assms by (auto simp: build_resp_def split: if_splits)

lemma serve_ok:
  assumes "serve (logged respond k) c (st, logs) = Some (Inr (answered, c', (st', logs')))"
    and "conn_ok c" "cn_state c = CONN_READING"
  shows "conn_ok c' \<and> logs' = logs(k := logs k @ owed c') \<and> cn_state c' = (if answered then CONN_WRITING else CONN_READING)
    \<and> length (cn_in c') \<le> length (cn_in c)"
proof -
  obtain consumed rq where p: "parse_http_req (cn_in c) (cn_req c) = Inr (consumed, rq)"
    using assms(1) by (cases "parse_http_req (cn_in c) (cn_req c)") (auto simp: serve_def)
  show ?thesis
  proof (cases "consumed \<le> 0")
    case True
    then show ?thesis using assms p by (auto simp: serve_def conn_ok_def owed_def)
  next
    case False
    then obtain res c1 where r: "logs' = logs(k := logs k @ resp_bytes res)" "build_resp (c\<lparr>cn_req := rq\<rparr>) res = Inr c1"
      "c' = c1\<lparr>cn_in := drop (nat consumed) (cn_in c1), cn_state := CONN_WRITING\<rparr>" "answered"
      using assms(1) p
      by (auto simp: serve_def logged_def rbind_eq_Inr map_sum_def split: option.splits sum.splits prod.splits)
    show ?thesis
      using build_resp_ok [OF r(2)] r assms(2) by (auto simp: conn_ok_def owed_def)
  qed
qed

lemma readable_ok:
  "handle_readable (logged respond k) evs c sock (st, logs) = Some (Inr (c', sock', (st', logs')))
   \<Longrightarrow> conn_ok c \<Longrightarrow> cn_state c = CONN_READING
   \<Longrightarrow> conn_ok c' \<and> logs' = logs(k := logs k @ owed c')"
proof (induction evs arbitrary: c sock st logs)
  case Nil
  then show ?case by (subst (asm) handle_readable.simps) (auto simp: conn_ok_def owed_def split: if_splits)
next
  case (Cons e es)
  show ?case
  proof (cases "BUFFER_SIZE \<le> length (cn_in c) \<or> sock = [] \<or> \<not> cn_rbuf c \<or> (\<forall>n. e \<noteq> Rd n)")
    case True
    then show ?thesis using Cons.prems
      by (subst (asm) handle_readable.simps) (auto simp: conn_ok_def owed_def split: if_splits rd_event.splits)
  next
    case False
    then obtain n where n: "e = Rd n" "\<not> BUFFER_SIZE \<le> length (cn_in c)" "sock \<noteq> []" "cn_rbuf c" by blast
    let ?n = "chunk_size n c sock"
    let ?c = "c\<lparr>cn_in := cn_in c @ take ?n sock\<rparr>"
    have k: "?n \<le> BUFFER_SIZE - length (cn_in c)"
      using n(2,3) by (cases sock) (auto simp: chunk_size_def)
    then have c: "conn_ok ?c" "cn_state ?c = CONN_READING" using Cons.prems(2,3) n(2) by (auto simp: conn_ok_def)
    obtain answered c1 st1 logs1 where s: "serve (logged respond k) ?c (st, logs) = Some (Inr (answered, c1, st1, logs1))"
      "if answered then (c', sock', st', logs') = (c1, drop ?n sock, st1, logs1)
       else handle_readable (logged respond k) es c1 (drop ?n sock) (st1, logs1) = Some (Inr (c', sock', st', logs'))"
      using Cons.prems(1) n
      by (subst (asm) handle_readable.simps) (auto simp: Let_def split: option.splits sum.splits prod.splits if_splits)
    note ok = serve_ok [OF s(1) c]
    show ?thesis
    proof (cases answered)
      case True
      then show ?thesis using s(2) ok by simp
    next
      case False
      then have "conn_ok c1" "cn_state c1 = CONN_READING" "logs1 = logs" using ok
        by (auto simp: conn_ok_def owed_def)
      then show ?thesis using Cons.IH [of c1 "drop ?n sock" st1 logs1] s(2) False by simp
    qed
  qed
qed

lemma write_done_ok:
  "conn_ok c \<Longrightarrow> conn_ok (write_done c) \<and> owed (write_done c) = owed c"
  by (auto simp: write_done_def conn_ok_def owed_def)

lemma writable_ok:
  "handle_writable evs c sent = (c', sent') \<Longrightarrow> conn_ok c \<Longrightarrow> cn_state c = CONN_WRITING
   \<Longrightarrow> conn_ok c' \<and> sent' @ owed c' = sent @ owed c"
proof (induction evs arbitrary: c sent)
  case Nil
  then show ?case using write_done_ok [of c] by (subst (asm) handle_writable.simps) (auto split: if_splits)
next
  case (Cons e es)
  show ?case
  proof (cases "cn_pos c < length (cn_out c) \<and> (\<exists>n. e = Snd n)")
    case True
    then obtain n where n: "e = Snd n" "cn_pos c < length (cn_out c)" by blast
    let ?k = "max 1 (min n (length (cn_out c) - cn_pos c))"
    let ?c = "c\<lparr>cn_pos := cn_pos c + ?k\<rparr>"
    have k: "?k \<le> length (cn_out c) - cn_pos c" using n(2) by simp
    have h: "handle_writable es ?c (sent @ take ?k (drop (cn_pos c) (cn_out c))) = (c', sent')"
      using Cons.prems(1) n by (subst (asm) handle_writable.simps) (simp add: Let_def)
    have "conn_ok ?c" "cn_state ?c = CONN_WRITING" using Cons.prems(2,3) k n(2) by (auto simp: conn_ok_def)
    moreover have "take ?k (drop (cn_pos c) (cn_out c)) @ owed ?c = owed c"
    proof -
      have "owed ?c = drop ?k (drop (cn_pos c) (cn_out c))" by (simp add: owed_def add.commute)
      then show ?thesis unfolding owed_def by (simp only: append_take_drop_id)
    qed
    ultimately show ?thesis using Cons.IH [OF h] by simp
  next
    case False
    then show ?thesis using Cons.prems write_done_ok [OF Cons.prems(2)]
      by (subst (asm) handle_writable.simps) (auto simp: conn_ok_def owed_def split: if_splits wr_event.splits)
  qed
qed

lemma writable_bufs: "handle_writable evs c sent = (c', sent') \<Longrightarrow> cn_rbuf c' = cn_rbuf c \<and> cn_wbuf c' = cn_wbuf c"
  by (induction evs c sent rule: handle_writable.induct, subst (asm) handle_writable.simps)
    (auto simp: write_done_def Let_def split: if_splits list.splits wr_event.splits)

lemma event_ok:
  assumes "worker_event (logged respond k) ev (c, sock, sent, (st, logs)) = Some (Inr (c', sock', sent', (st', logs')))"
    and "conn_ok c" "logs k = sent @ owed c"
  shows "conn_ok c' \<and> logs' k = sent' @ owed c' \<and> (\<forall>j. j \<noteq> k \<longrightarrow> logs' j = logs j)"
proof (cases "cn_state c = CONN_CLOSE")
  case True
  then have "c' = c" "sent' = sent" "logs' = logs" using assms(1) by (auto simp: worker_event_def)
  then show ?thesis using assms(2,3) by simp
next
  case False
  let ?r = "if ev_in ev \<and> cn_state c = CONN_READING
    then handle_readable (logged respond k) (ev_reads ev) c (sock @ ev_data ev) (st, logs)
    else Some (Inr (c, sock @ ev_data ev, (st, logs)))"
  obtain c1 sock1 st1 logs1 where r: "?r = Some (Inr (c1, sock1, st1, logs1))"
    "if ev_out ev \<and> cn_state c1 = CONN_WRITING
     then (c', sock', sent', st', logs') = (fst (handle_writable (ev_writes ev) c1 sent), sock1,
       snd (handle_writable (ev_writes ev) c1 sent), st1, logs1)
     else (c', sock', sent', st', logs') = (c1, sock1, sent, st1, logs1)"
    using assms(1) False
    by (auto simp: worker_event_def split: option.splits sum.splits prod.splits if_splits)
  have c1: "conn_ok c1 \<and> logs1 k = sent @ owed c1 \<and> (\<forall>j. j \<noteq> k \<longrightarrow> logs1 j = logs j)"
  proof (cases "ev_in ev \<and> cn_state c = CONN_READING")
    case True
    have "owed c = []" using assms(2) True by (simp add: conn_ok_def owed_def)
    then show ?thesis using readable_ok [of respond k "ev_reads ev" c "sock @ ev_data ev" st logs c1 sock1 st1 logs1]
        r(1) True assms(2,3) by simp
  next
    case False
    then show ?thesis using r(1) assms(2,3) by auto
  qed
  show ?thesis
  proof (cases "ev_out ev \<and> cn_state c1 = CONN_WRITING")
    case True
    then show ?thesis
      using r(2) c1 writable_ok [of "ev_writes ev" c1 sent "fst (handle_writable (ev_writes ev) c1 sent)"
          "snd (handle_writable (ev_writes ev) c1 sent)"] by simp
  next
    case False
    then show ?thesis using r(2) c1 by auto
  qed
qed

lemma events_ok:
  "worker_events (logged respond k) evs (c, sock, sent, (st, logs)) = Some (Inr (c', sock', sent', (st', logs')))
   \<Longrightarrow> conn_ok c \<Longrightarrow> logs k = sent @ owed c \<Longrightarrow> conn_ok c' \<and> logs' k = sent' @ owed c'"
proof (induction evs arbitrary: c sock sent st logs)
  case (Cons ev evs)
  obtain c1 sock1 sent1 st1 logs1 where e: "worker_event (logged respond k) ev (c, sock, sent, (st, logs))
      = Some (Inr (c1, sock1, sent1, (st1, logs1)))"
    "worker_events (logged respond k) evs (c1, sock1, sent1, (st1, logs1)) = Some (Inr (c', sock', sent', (st', logs')))"
    using Cons.prems(1) by (auto split: option.splits sum.splits)
  then show ?case using Cons.IH [OF e(2)] event_ok [OF e(1)] Cons.prems(2,3) by blast
qed simp

section \<open>What a connection waits for\<close>

text \<open>
  Between events a connection reads, writes with something left to write, or is closed; the state
  \<open>CONN_PROXY\<close> is never entered.
\<close>

definition settled :: "conn \<Rightarrow> bool" where
  "settled c \<longleftrightarrow> cn_state c = CONN_READING \<or> cn_state c = CONN_CLOSE \<or> (cn_state c = CONN_WRITING \<and> owed c \<noteq> [])"

lemma serve_settled:
  assumes "serve respond c st = Some (Inr (answered, c', st'))" "cn_state c = CONN_READING"
  shows "settled c'" "\<not> answered \<Longrightarrow> cn_state c' = CONN_READING"
proof -
  have "resp_bytes res \<noteq> []" for res by (simp add: resp_bytes_def resp_head_def)
  then show "settled c'" "\<not> answered \<Longrightarrow> cn_state c' = CONN_READING"
    using assms by (auto simp: serve_def settled_def owed_def build_resp_def rbind_eq_Inr
        split: option.splits sum.splits prod.splits if_splits)
qed

lemma readable_settled:
  "handle_readable respond evs c sock st = Some (Inr (c', sock', st')) \<Longrightarrow> cn_state c = CONN_READING \<Longrightarrow> settled c'"
proof (induction evs arbitrary: c sock st)
  case Nil
  then show ?case by (subst (asm) handle_readable.simps) (auto simp: settled_def split: if_splits)
next
  case (Cons e es)
  show ?case
  proof (cases "BUFFER_SIZE \<le> length (cn_in c) \<or> sock = [] \<or> \<not> cn_rbuf c \<or> (\<forall>n. e \<noteq> Rd n)")
    case True
    then show ?thesis using Cons.prems
      by (subst (asm) handle_readable.simps) (auto simp: settled_def split: if_splits rd_event.splits)
  next
    case False
    then obtain n where n: "e = Rd n" "\<not> BUFFER_SIZE \<le> length (cn_in c)" "sock \<noteq> []" "cn_rbuf c" by blast
    let ?n = "chunk_size n c sock"
    obtain answered c1 st1 where s: "serve respond (c\<lparr>cn_in := cn_in c @ take ?n sock\<rparr>) st = Some (Inr (answered, c1, st1))"
      "if answered then (c', sock', st') = (c1, drop ?n sock, st1)
       else handle_readable respond es c1 (drop ?n sock) st1 = Some (Inr (c', sock', st'))"
      using Cons.prems(1) n
      by (subst (asm) handle_readable.simps) (auto simp: Let_def split: option.splits sum.splits prod.splits if_splits)
    show ?thesis
      using serve_settled [OF s(1)] s(2) Cons.IH [of c1 "drop ?n sock" st1] Cons.prems(2) by (cases answered) auto
  qed
qed

lemma writable_settled:
  "handle_writable evs c sent = (c', sent') \<Longrightarrow> cn_state c = CONN_WRITING \<Longrightarrow> settled c'"
proof (induction evs arbitrary: c sent)
  case Nil
  then show ?case
    by (subst (asm) handle_writable.simps) (auto simp: settled_def owed_def write_done_def split: if_splits)
next
  case (Cons e es)
  then show ?case
    by (subst (asm) (2) handle_writable.simps)
      (auto simp: settled_def owed_def write_done_def Let_def split: if_splits wr_event.splits)
qed

lemma event_settled:
  assumes "worker_event respond ev (c, sock, sent, st) = Some (Inr (c', sock', sent', st'))" "settled c"
  shows "settled c'"
proof (cases "cn_state c = CONN_CLOSE")
  case False
  let ?r = "if ev_in ev \<and> cn_state c = CONN_READING then handle_readable respond (ev_reads ev) c (sock @ ev_data ev) st
    else Some (Inr (c, sock @ ev_data ev, st))"
  obtain c1 sock1 st1 where r: "?r = Some (Inr (c1, sock1, st1))"
    "c' = (if ev_out ev \<and> cn_state c1 = CONN_WRITING then fst (handle_writable (ev_writes ev) c1 sent) else c1)"
    using assms(1) False by (auto simp: worker_event_def split: option.splits sum.splits prod.splits if_splits)
  have "settled c1" using r(1) assms(2) readable_settled by (auto split: if_splits)
  then show ?thesis using r(2) writable_settled [OF prod.collapse [symmetric]] by auto
qed (use assms in \<open>simp add: worker_event_def\<close>)

end
