(* ===== verification/Server.thy ===== *)
theory Server
  imports Http_Conn_Props Storage_Props
begin

text \<open>
  \<^verbatim>\<open>src/misc/handler/server.handler.c\<close> and \<^verbatim>\<open>src/misc/server.c\<close>: the database behind HTTP. The
  globals \<open>db\<close> and \<open>global\<close> are a record with the memory they live in; the handlers run under
  \<open>pool_mutex\<close>, so one request is one step. The clock is a field the environment sets.
\<close>

section \<open>The state\<close>

record server =
  sv_mem :: mem
  sv_db :: "hashmap option"
  sv_aof :: "aof_t option"
  sv_now :: int

type_synonym handler = "server responder"

text \<open>The first parameter whose key is the name asked for.\<close>

definition req_get_param :: "bytes \<Rightarrow> http_req \<Rightarrow> bytes \<Rightarrow> http_param option" where
  "req_get_param buf rq key =
     find (\<lambda>x. pa_key_len x = length key \<and> in_buf buf (pa_key x) (length key) = key) (rq_params rq)"

definition answer :: "nat \<Rightarrow> bytes \<Rightarrow> http_resp" where
  "answer st body = \<lparr>rs_status = st, rs_body = body\<rparr>"

section \<open>The handlers\<close>

definition missing_key_or_value :: http_resp where
  "missing_key_or_value = answer 400 (lit ''{ \"error\": \"missing key or value\" }'')"

definition missing_key :: http_resp where
  "missing_key = answer 400 (lit ''{\"error\":\"missing key\"}'')"

definition key_not_found :: http_resp where
  "key_not_found = answer 404 (lit ''{\"error\":\"key not found\"}'')"

definition insert_successful :: http_resp where
  "insert_successful = answer 200 (lit ''{\"insert\": \"successful\"}'')"

definition key_deleted :: http_resp where
  "key_deleted = answer 200 (lit ''{key deleted}'')"

definition value_found :: "bytes \<Rightarrow> http_resp" where
  "value_found v = answer 200 (lit ''{\"value\":\"'' @ v @ lit ''\"}'')"

text \<open>
  The copies of key and value, the insertion, whose result is dropped, and the log entry, whose
  result is only printed.
\<close>

definition insert_copies :: "bytes \<Rightarrow> bytes \<Rightarrow> server \<Rightarrow> (http_resp \<times> server) res option" where
  "insert_copies key val st =
     (case rbind (dup_bytes (sv_mem st) key) (\<lambda>(k, m1). rbind (dup_bytes m1 val) (\<lambda>(v, m2). Inr (k, v, m2))) of
        Inl e \<Rightarrow> Some (Inl e)
      | Inr (k, v, m2) \<Rightarrow>
          (case hm_insert m2 (sv_db st) k v (of_nat (length val)) of
             None \<Rightarrow> None
           | Some (Inl e) \<Rightarrow> Some (Inl e)
           | Some (Inr (rc, db')) \<Rightarrow>
               Some (rbind (aof_append_set m2 (sv_aof st) k v (of_nat (length val)) (sv_now st))
                 (\<lambda>(ret, aof'). Inr (insert_successful, st\<lparr>sv_mem := m2, sv_db := db', sv_aof := aof'\<rparr>)))))"

definition insert_handler :: handler where
  "insert_handler buf rq st =
     (case (req_get_param buf rq (lit ''key''), req_get_param buf rq (lit ''value'')) of
        (Some k, Some v) \<Rightarrow>
          if pa_val_len k = 0 then Some (Inr (missing_key_or_value, st))
          else insert_copies (param_val buf k) (param_val buf v) st
      | _ \<Rightarrow> Some (Inr (missing_key_or_value, st)))"

text \<open>
  The copy of the key on the stack: a block that lives while the handler runs, so that the memory
  after it is the memory before it.
\<close>

definition stack_copy :: "mem \<Rightarrow> bytes \<Rightarrow> ptr \<times> mem" where
  "stack_copy m bs =
     (Ptr (next_block m) 0,
      m\<lparr>blocks := (blocks m)(next_block m \<mapsto> bs @ [0]), next_block := Suc (next_block m)\<rparr>)"

text \<open>
  The look-up, under \<open>pool_mutex\<close>, and the copy of the value found, which \<open>get_handler\<close> makes after it has
  unlocked; \<open>get_key\<close> has nothing in between.
\<close>

definition get_lookup :: "bytes \<Rightarrow> server \<Rightarrow> ptr res option" where
  "get_lookup key st = (case stack_copy (sv_mem st) key of (k, m) \<Rightarrow> hm_get m (sv_db st) k)"

definition get_copy :: "bytes \<Rightarrow> ptr \<Rightarrow> server \<Rightarrow> http_resp res" where
  "get_copy key v st =
     (if v = NULL then Inr key_not_found
      else rbind (c_string (snd (stack_copy (sv_mem st) key)) v) (\<lambda>s. Inr (value_found s)))"

definition get_key :: "bytes \<Rightarrow> server \<Rightarrow> (http_resp \<times> server) res option" where
  "get_key key st =
     (case get_lookup key st of
        None \<Rightarrow> None
      | Some (Inl e) \<Rightarrow> Some (Inl e)
      | Some (Inr v) \<Rightarrow> Some (rbind (get_copy key v st) (\<lambda>res. Inr (res, st))))"

lemma get_key_eq:
  "get_key key st =
     (case stack_copy (sv_mem st) key of
        (k, m) \<Rightarrow>
          (case hm_get m (sv_db st) k of
             None \<Rightarrow> None
           | Some (Inl e) \<Rightarrow> Some (Inl e)
           | Some (Inr v) \<Rightarrow>
               Some (if v = NULL then Inr (key_not_found, st)
                     else rbind (c_string m v) (\<lambda>s. Inr (value_found s, st)))))"
  by (auto simp: get_key_def get_lookup_def get_copy_def rbind_def split: prod.split option.split sum.split)

definition get_handler :: handler where
  "get_handler buf rq st =
     (case req_get_param buf rq (lit ''key'') of
        Some k \<Rightarrow> if pa_val_len k = 0 then Some (Inr (missing_key, st)) else get_key (param_val buf k) st
      | None \<Rightarrow> Some (Inr (missing_key, st)))"

definition delete_key :: "bytes \<Rightarrow> server \<Rightarrow> (http_resp \<times> server) res option" where
  "delete_key key st =
     (case stack_copy (sv_mem st) key of
        (k, m) \<Rightarrow>
          (case hm_delete m (sv_db st) k 1 of
             None \<Rightarrow> None
           | Some (Inl e) \<Rightarrow> Some (Inl e)
           | Some (Inr (rc, db')) \<Rightarrow>
               Some (rbind (aof_append_del m (sv_aof st) k (sv_now st))
                 (\<lambda>(ret, aof').
                   Inr (if rc \<noteq> 0 then key_not_found else key_deleted, st\<lparr>sv_db := db', sv_aof := aof'\<rparr>)))))"

definition delete_handler :: handler where
  "delete_handler buf rq st =
     (case req_get_param buf rq (lit ''key'') of
        Some k \<Rightarrow> if pa_val_len k = 0 then Some (Inr (missing_key, st)) else delete_key (param_val buf k) st
      | None \<Rightarrow> Some (Inr (missing_key, st)))"

section \<open>Routing\<close>

definition route_req :: "handler route list \<Rightarrow> handler" where
  "route_req routes buf rq st =
     (case find_route routes buf rq of
        Some h \<Rightarrow> h buf rq st
      | None \<Rightarrow> Some (Inr (handle_404, st)))"

definition path_of :: "bytes \<Rightarrow> bytes" where
  "path_of meth = lit ''/api/v1/'' @ meth"

definition server_routes :: "handler route list" where
  "server_routes =
     add_route (add_route (add_route []
         (lit ''PUT'') (path_of (lit ''PUT'')) insert_handler)
         (lit ''GET'') (path_of (lit ''GET'')) get_handler)
         (lit ''DELETE'') (path_of (lit ''DELETE'')) delete_handler"

text \<open>
  One request as the bytes a connection received: no answer while it is incomplete or refused.
\<close>

definition http_call :: "bytes \<Rightarrow> server \<Rightarrow> (http_resp option \<times> server) res option" where
  "http_call input st =
     (case parse_http_req input req_zero of
        Inl e \<Rightarrow> Some (Inl e)
      | Inr (consumed, rq) \<Rightarrow>
          if consumed \<le> 0 then Some (Inr (None, st))
          else map_option (map_sum id (apfst Some)) (route_req server_routes input rq st))"

section \<open>Startup and snapshots\<close>

definition AOF_FILE :: bytes where "AOF_FILE = lit ''append_log.aof''"
definition DB_FILE :: bytes where "DB_FILE = lit ''data.orca''"

text \<open>A file is \<open>None\<close> when it does not exist; one that exists can be opened.\<close>

definition file_exists :: "bytes option \<Rightarrow> bool" where
  "file_exists file \<longleftrightarrow> file \<noteq> None"

text \<open>
  \<open>server()\<close> up to its endless sleep: \<open>logfile\<close> and \<open>snapshot\<close> are the two files, \<open>stack\<close> and \<open>line\<close> the
  uninitialised arrays of \<open>db_load\<close> and \<open>aof_replay\<close>.
\<close>

definition start_db :: "mem \<Rightarrow> bytes option \<Rightarrow> (nat \<Rightarrow> nat \<Rightarrow> byte) \<Rightarrow> (hashmap option \<times> mem) res option" where
  "start_db m snapshot stack =
     (if file_exists snapshot
      then map_option (map_sum id (\<lambda>(hmp, m', same). (hmp, m'))) (db_load m (Some DB_FILE) snapshot stack)
      else Some (Inr (hm_create m (4096 * 16 * 16))))"

definition server_start ::
    "mem \<Rightarrow> bytes option \<Rightarrow> bytes option \<Rightarrow> (nat \<Rightarrow> nat \<Rightarrow> byte) \<Rightarrow> bytes \<Rightarrow> int \<Rightarrow> server res option" where
  "server_start m logfile snapshot stack line now =
     (case aof_open m (Some AOF_FILE) AOF_SYNC_EVERYSEC logfile now of
        (aofp, m1) \<Rightarrow>
          (case start_db m1 snapshot stack of
             None \<Rightarrow> None
           | Some (Inl e) \<Rightarrow> Some (Inl e)
           | Some (Inr (hmp, m2)) \<Rightarrow>
               if aofp = None
               then Some (Inr \<lparr>sv_mem = m2, sv_db = hmp, sv_aof = None, sv_now = now\<rparr>)
               else map_option (map_sum id (\<lambda>(rc, m3, hmp', n).
                        \<lparr>sv_mem = m3, sv_db = hmp', sv_aof = aofp, sv_now = now\<rparr>))
                      (aof_replay line m2 aofp hmp)))"

text \<open>
  One round of the snapshot thread (whose start is commented out): the new snapshot file, if one
  was written, and the state. Its first four parameters are the outcomes of the file operations
  and the time of \<open>db_save\<close>, the others those of \<open>aof_rewrite\<close>.
\<close>

definition snapshot_round ::
    "bool \<Rightarrow> bool \<Rightarrow> u64 \<Rightarrow> bool \<Rightarrow> bool \<Rightarrow> bool \<Rightarrow> server \<Rightarrow> (bytes option \<times> server) res option" where
  "snapshot_round opens renamed timestamp tmp log_renamed reopen st =
     (case db_save (sv_mem st) (sv_db st) (Some DB_FILE) opens renamed timestamp of
        None \<Rightarrow> None
      | Some (Inl e) \<Rightarrow> Some (Inl e)
      | Some (Inr (rc, file)) \<Rightarrow>
          map_option (map_sum id (\<lambda>(rc', aof'). (file, st\<lparr>sv_aof := aof'\<rparr>)))
            (aof_rewrite (sv_mem st) (sv_aof st) (sv_db st) tmp log_renamed reopen))"

text \<open>
  The loop of \<open>snapshot_worker\<close>, round by round, with what the file calls of each round do. A round
  holds \<open>pool_mutex\<close>: when it does not end no request is answered any more.
\<close>

record snapshot_io =
  si_opens :: bool
  si_renamed :: bool
  si_time :: u64
  si_tmp :: bool
  si_log_renamed :: bool
  si_reopen :: bool

fun snapshot_worker :: "snapshot_io list \<Rightarrow> server \<Rightarrow> (bytes option list \<times> server) res option" where
  "snapshot_worker [] st = Some (Inr ([], st))"
| "snapshot_worker (io # ios) st =
     (case snapshot_round (si_opens io) (si_renamed io) (si_time io) (si_tmp io) (si_log_renamed io) (si_reopen io) st of
        None \<Rightarrow> None
      | Some (Inl e) \<Rightarrow> Some (Inl e)
      | Some (Inr (file, st')) \<Rightarrow> map_option (map_sum id (apfst ((#) file))) (snapshot_worker ios st'))"

end
