(* ===== verification/Server_Props.thy ===== *)
theory Server_Props
  imports Server
begin

text \<open>
  The properties of the database behind HTTP (\<^verbatim>\<open>server.c\<close>, \<^verbatim>\<open>server.handler.c\<close>): requests as bytes,
  through the parser, the routes, the handlers, the table and the log, and back as a response.
\<close>

section \<open>From bytes to handlers\<close>

lemma param_key_iff:
  assumes "param_in buf x"
  shows "(pa_key_len x = length key \<and> in_buf buf (pa_key x) (length key) = key) \<longleftrightarrow> param_key buf x = key"
  using assms by (auto simp: param_in_def param_key_def in_buf_def)

lemma param_val_length: "param_in buf x \<Longrightarrow> length (param_val buf x) = pa_val_len x"
  by (auto simp: param_in_def param_val_def in_buf_def split: val_ptr.splits)

lemma req_get_param_eq:
  assumes "\<forall>x \<in> set (rq_params rq). param_in buf x"
  shows "req_get_param buf rq key = find (\<lambda>x. param_key buf x = key) (rq_params rq)"
  unfolding req_get_param_def by (rule find_cong) (use assms param_key_iff in auto)

lemma map_of_params:
  "map_of (map (param_pair buf) xs) key = map_option (param_val buf) (find (\<lambda>x. param_key buf x = key) xs)"
  by (induction xs) (auto simp: param_pair_def)

lemma req_get_param_Some:
  assumes "map (param_pair buf) (rq_params rq) = ps" "\<forall>x \<in> set (rq_params rq). param_in buf x"
    "map_of ps key = Some v"
  obtains x where "req_get_param buf rq key = Some x" "param_val buf x = v" "pa_val_len x = length v"
proof -
  obtain x where x: "find (\<lambda>x. param_key buf x = key) (rq_params rq) = Some x" "param_val buf x = v"
    using map_of_params [of buf "rq_params rq" key] assms(1,3)
    by (cases "find (\<lambda>x. param_key buf x = key) (rq_params rq)") auto
  then have "x \<in> set (rq_params rq)" by (auto simp: find_Some_iff)
  then have "pa_val_len x = length v" using param_val_length assms(2) x(2) by metis
  moreover have "req_get_param buf rq key = Some x" unfolding req_get_param_eq [OF assms(2)] by (rule x(1))
  ultimately show ?thesis using that [of x] x(2) by blast
qed

definition put_request :: "bytes \<Rightarrow> bytes \<Rightarrow> bytes" where
  "put_request key val =
     render_req (lit ''PUT'') (path_of (lit ''PUT'')) [(lit ''key'', key), (lit ''value'', val)]"

definition get_request :: "bytes \<Rightarrow> bytes" where
  "get_request key = render_req (lit ''GET'') (path_of (lit ''GET'')) [(lit ''key'', key)]"

definition delete_request :: "bytes \<Rightarrow> bytes" where
  "delete_request key = render_req (lit ''DELETE'') (path_of (lit ''DELETE'')) [(lit ''key'', key)]"

lemma plain_names:
  "plain_word (lit ''PUT'')" "plain_word (lit ''GET'')" "plain_word (lit ''DELETE'')"
  "plain_word (path_of (lit ''PUT''))" "plain_word (path_of (lit ''GET''))" "plain_word (path_of (lit ''DELETE''))"
  "plain_key (lit ''key'')" "plain_key (lit ''value'')"
  by (simp_all add: plain_word_def plain_key_def path_of_def)

lemma request_rendered:
  fixes rest :: bytes
  assumes "plain_word meth" "plain_word path" "\<forall>(k, v) \<in> set ps. plain_key k \<and> plain_val v" "ps \<noteq> []" "length ps \<le> 8"
    and "buf = render_req meth path ps @ rest"
  obtains rq where "parse_http_req buf req = Inr (int (length (render_req meth path ps)), rq)"
    "in_buf buf (rq_method rq) (length meth) = meth" "rq_method_len rq = length meth"
    "in_buf buf (rq_path rq) (length path) = path" "rq_path_len rq = length path"
    "map (param_pair buf) (rq_params rq) = ps" "\<forall>x \<in> set (rq_params rq). param_in buf x"
  using parse_rendered_lemma [OF assms(1-5), of rest req] assms(6) by auto

lemma routes_list:
  "server_routes =
     [\<lparr>rt_method = lit ''PUT'', rt_path = path_of (lit ''PUT''), rt_handler = insert_handler\<rparr>,
      \<lparr>rt_method = lit ''GET'', rt_path = path_of (lit ''GET''), rt_handler = get_handler\<rparr>,
      \<lparr>rt_method = lit ''DELETE'', rt_path = path_of (lit ''DELETE''), rt_handler = delete_handler\<rparr>]"
  by (simp add: server_routes_def add_route_def)

lemma find_route_hit:
  assumes "rq_method_len rq = length (rt_method r)" "in_buf buf (rq_method rq) (length (rt_method r)) = rt_method r"
    "rq_path_len rq = length (rt_path r)" "in_buf buf (rq_path rq) (length (rt_path r)) = rt_path r"
  shows "find_route (r # rs) buf rq = Some (rt_handler r)"
  using assms by simp

lemma find_route_miss: "rq_method_len rq \<noteq> length (rt_method r) \<or> in_buf buf (rq_method rq) (rq_method_len rq) \<noteq> rt_method r
  \<Longrightarrow> find_route (r # rs) buf rq = find_route rs buf rq"
  by auto

definition lift_answer :: "(http_resp \<times> server) res option \<Rightarrow> (http_resp option \<times> server) res option" where
  "lift_answer = map_option (map_sum id (apfst Some))"

lemma lift_answer_simps [simp]:
  "lift_answer None = None"
  "lift_answer (Some (Inl e)) = Some (Inl e)"
  "lift_answer (Some (Inr (res, st))) = Some (Inr (Some res, st))"
  by (simp_all add: lift_answer_def)

text \<open>
  A request \<open>input\<close> that the server hands to \<open>f\<close>, whatever bytes follow it in the buffer and whatever the
  request struct held before.
\<close>

definition handled_by :: "bytes \<Rightarrow> (server \<Rightarrow> (http_resp \<times> server) res option) \<Rightarrow> bool" where
  "handled_by input f \<longleftrightarrow> input \<noteq> [] \<and>
     (\<forall>req rest. \<exists>rq. parse_http_req (input @ rest) req = Inr (int (length input), rq)
        \<and> route_req server_routes (input @ rest) rq = f)"

lemma handledD:
  assumes "handled_by input f"
  obtains rq where "parse_http_req (input @ rest) req = Inr (int (length input), rq)"
    "route_req server_routes (input @ rest) rq = f"
  using assms unfolding handled_by_def by blast

lemma handled_call:
  assumes "handled_by input f"
  shows "http_call input st = lift_answer (f st)"
proof -
  have "input \<noteq> []" using assms by (simp add: handled_by_def)
  moreover obtain rq where "parse_http_req (input @ []) req_zero = Inr (int (length input), rq)"
    "route_req server_routes (input @ []) rq = f"
    using handledD [OF assms] by blast
  ultimately show ?thesis by (simp add: http_call_def lift_answer_def)
qed

lemma render_nonempty [simp]: "render_req meth path ps \<noteq> []"
  by (simp add: render_req_def)

lemma put_handled:
  assumes "plain_val key" "plain_val val" "key \<noteq> []"
  shows "handled_by (put_request key val) (insert_copies key val)"
  unfolding handled_by_def
proof (intro conjI allI)
  fix req rest
  let ?ps = "[(lit ''key'', key), (lit ''value'', val)]"
  let ?buf = "put_request key val @ rest"
  have pl: "\<forall>(k, v) \<in> set ?ps. plain_key k \<and> plain_val v" using assms plain_names by simp
  obtain rq where r: "parse_http_req ?buf req = Inr (int (length (put_request key val)), rq)"
    "in_buf ?buf (rq_method rq) (length (lit ''PUT'')) = lit ''PUT''" "rq_method_len rq = length (lit ''PUT'')"
    "in_buf ?buf (rq_path rq) (length (path_of (lit ''PUT''))) = path_of (lit ''PUT'')"
    "rq_path_len rq = length (path_of (lit ''PUT''))"
    "map (param_pair ?buf) (rq_params rq) = ?ps" "\<forall>x \<in> set (rq_params rq). param_in ?buf x"
    by (rule request_rendered [OF plain_names(1,4) pl, where buf = ?buf and req = req and rest = rest, folded put_request_def])
      simp_all
  have f: "find_route server_routes ?buf rq = Some insert_handler"
    unfolding routes_list using r(2-5) by (subst find_route_hit) simp_all
  obtain x where x: "req_get_param ?buf rq (lit ''key'') = Some x" "param_val ?buf x = key" "pa_val_len x = length key"
    by (rule req_get_param_Some [OF r(6,7), of "lit ''key''" key]) simp_all
  obtain y where y: "req_get_param ?buf rq (lit ''value'') = Some y" "param_val ?buf y = val"
    by (rule req_get_param_Some [OF r(6,7), of "lit ''value''" val]) simp_all
  have "route_req server_routes ?buf rq = insert_copies key val"
    using x y assms(3) by (simp add: fun_eq_iff route_req_def f insert_handler_def)
  then show "\<exists>rq. parse_http_req ?buf req = Inr (int (length (put_request key val)), rq)
      \<and> route_req server_routes ?buf rq = insert_copies key val"
    using r(1) by blast
qed (simp add: put_request_def)

text \<open>The two requests with a key only.\<close>

lemma key_handled:
  assumes "plain_val key" "key \<noteq> []" "meth = lit ''GET'' \<or> meth = lit ''DELETE''"
  shows "handled_by (render_req meth (path_of meth) [(lit ''key'', key)])
    (if meth = lit ''GET'' then get_key key else delete_key key)"
  unfolding handled_by_def
proof (intro conjI allI)
  fix req rest
  let ?ps = "[(lit ''key'', key)]"
  let ?input = "render_req meth (path_of meth) ?ps"
  let ?buf = "?input @ rest"
  have pl: "\<forall>(k, v) \<in> set ?ps. plain_key k \<and> plain_val v" using assms plain_names by simp
  have pm: "plain_word meth" "plain_word (path_of meth)" using assms(3) plain_names by auto
  obtain rq where r: "parse_http_req ?buf req = Inr (int (length ?input), rq)"
    "in_buf ?buf (rq_method rq) (length meth) = meth" "rq_method_len rq = length meth"
    "in_buf ?buf (rq_path rq) (length (path_of meth)) = path_of meth" "rq_path_len rq = length (path_of meth)"
    "map (param_pair ?buf) (rq_params rq) = ?ps" "\<forall>x \<in> set (rq_params rq). param_in ?buf x"
    by (rule request_rendered [OF pm pl, where buf = ?buf and req = req and rest = rest]) simp_all
  have f: "find_route server_routes ?buf rq = Some (if meth = lit ''GET'' then get_handler else delete_handler)"
    unfolding routes_list using assms(3) r(2-5) by auto
  obtain x where x: "req_get_param ?buf rq (lit ''key'') = Some x" "param_val ?buf x = key" "pa_val_len x = length key"
    by (rule req_get_param_Some [OF r(6,7), of "lit ''key''" key]) simp_all
  have g: "get_handler ?buf rq = get_key key" "delete_handler ?buf rq = delete_key key"
    using x assms(2) by (simp_all add: fun_eq_iff get_handler_def delete_handler_def del: lit_simps)
  have "route_req server_routes ?buf rq
      = (if meth = lit ''GET'' then get_handler ?buf rq else delete_handler ?buf rq)"
    unfolding fun_eq_iff route_req_def f by (simp split: if_split del: lit_simps)
  then have "route_req server_routes ?buf rq = (if meth = lit ''GET'' then get_key key else delete_key key)"
    unfolding g .
  then show "\<exists>rq. parse_http_req ?buf req = Inr (int (length ?input), rq)
      \<and> route_req server_routes ?buf rq = (if meth = lit ''GET'' then get_key key else delete_key key)"
    using r(1) by blast
qed simp

lemma get_handled: "plain_val key \<Longrightarrow> key \<noteq> [] \<Longrightarrow> handled_by (get_request key) (get_key key)"
  using key_handled [of key "lit ''GET''"] by (simp add: get_request_def)

lemma delete_handled: "plain_val key \<Longrightarrow> key \<noteq> [] \<Longrightarrow> handled_by (delete_request key) (delete_key key)"
  using key_handled [of key "lit ''DELETE''"] by (simp add: delete_request_def)

lemmas put_call = handled_call [OF put_handled]
lemmas get_call = handled_call [OF get_handled]
lemmas delete_call = handled_call [OF delete_handled]

section \<open>The server as a table\<close>

definition server_ok :: "server \<Rightarrow> bool" where
  "server_ok st \<longleftrightarrow> mem_ok (sv_mem st) \<and>
     (case sv_db st of
        None \<Rightarrow> False
      | Some hm \<Rightarrow> hm_ok (sv_mem st) hm
          \<and> (\<forall>k p. hm_view (sv_mem st) hm k = Some p \<longrightarrow> (\<exists>s. c_string (sv_mem st) p = Inr s)))"

definition server_view :: "server \<Rightarrow> bytes \<Rightarrow> bytes option" where
  "server_view st k =
     (case sv_db st of
        None \<Rightarrow> None
      | Some hm \<Rightarrow> map_option (key_at (sv_mem st)) (hm_view (sv_mem st) hm k))"

definition server_count :: "server \<Rightarrow> nat" where
  "server_count st = (case sv_db st of None \<Rightarrow> 0 | Some hm \<Rightarrow> unat (hm_count hm))"

definition server_bound :: "server \<Rightarrow> nat" where
  "server_bound st = (case sv_db st of None \<Rightarrow> 0 | Some hm \<Rightarrow> hm_bound hm)"

text \<open>
  The load is the number of keys or, when that is more, the number of stores the bound allows and
  the memory no longer does; 16400 bytes are enough for the copies of one request.
\<close>

definition server_load :: "server \<Rightarrow> nat" where
  "server_load st = max (server_count st) (server_bound st - avail (sv_mem st) div 16400)"

lemma two_copies:
  assumes "mem_ok m" "length key + length val + 2 \<le> avail m"
  shows "\<exists>k v m2. rbind (dup_bytes m key) (\<lambda>(k, m1). rbind (dup_bytes m1 val) (\<lambda>(v, m2). Inr (k, v, m2))) = Inr (k, v, m2)
    \<and> mem_grows m m2 \<and> mem_ok m2 \<and> avail m2 + length key + length val + 2 = avail m
    \<and> (0 \<notin> set key \<longrightarrow> c_string m2 k = Inr key) \<and> (0 \<notin> set val \<longrightarrow> c_string m2 v = Inr val)
    \<and> mem_block m2 k = Inr (key @ [0]) \<and> mem_block m2 v = Inr (val @ [0])"
proof -
  let ?b = "next_block m"
  obtain m1 where m1: "dup_bytes m key = Inr (Ptr ?b 0, m1)" "m1 = snd (mem_alloc m (key @ [0]))"
    "blocks m1 = (blocks m)(?b \<mapsto> key @ [0])" "next_block m1 = Suc ?b" "avail m1 = avail m - (length key + 1)"
    using dup_bytes_ok [of key m] assms(2) by auto
  have a1: "length val + 1 \<le> avail m1" using m1(5) assms(2) by simp
  obtain m2 where m2: "dup_bytes m1 val = Inr (Ptr (Suc ?b) 0, m2)" "m2 = snd (mem_alloc m1 (val @ [0]))"
    "blocks m2 = (blocks m1)(Suc ?b \<mapsto> val @ [0])" "avail m2 = avail m1 - (length val + 1)"
    using dup_bytes_ok [OF a1] m1(4) by auto
  have "mem_ok m2" using mem_ok_alloc [OF mem_ok_alloc [OF assms(1)]] m1(2) m2(2) by simp
  moreover have "mem_grows m m2" using m1(3) m2(3) by (simp add: mem_grows_def)
  moreover have "mem_block m2 (Ptr ?b 0) = Inr (key @ [0])" "mem_block m2 (Ptr (Suc ?b) 0) = Inr (val @ [0])"
    using m1(3) m2(3) by (simp_all add: mem_block_def)
  moreover have "avail m2 + length key + length val + 2 = avail m" using m1(5) m2(4) assms(2) a1 by simp
  ultimately show ?thesis
    using m1(1) m2(1) by (simp add: c_string_def takeWhile_nul_append)
qed

lemma aof_open_memory:
  assumes "aof_open m (Some name) policy logfile now = (aofp, m')"
  shows "blocks m' = blocks m" "next_block m' = next_block m" "avail m \<le> avail m' + 41 + length name"
    "aofp = None \<Longrightarrow> avail m' = avail m"
  using assms
  by (auto simp: aof_open_def mem_reserve_def mem_release_def Let_def split: option.splits if_splits prod.splits)

lemma append_set_total:
  assumes "c_string m k = Inr key" "mem_read m v (unat len) = Inr data"
  shows "\<exists>r. aof_append_set m aofp k v len now = Inr r"
  using assms by (auto simp: aof_append_set_def Let_def split: option.splits)

lemma append_del_total:
  assumes "c_string m k = Inr key"
  shows "\<exists>r. aof_append_del m aofp k now = Inr r"
  using assms by (auto simp: aof_append_del_def split: option.splits)

lemma key_at_string: "c_string m p = Inr s \<Longrightarrow> key_at m p = s"
  by (simp add: key_at_def)

text \<open>The log of \<open>st'\<close> is that of \<open>st\<close> with the commands \<open>cs\<close> appended, and nothing of it is left in a buffer.\<close>

definition log_grows :: "server \<Rightarrow> server \<Rightarrow> replay_cmd list \<Rightarrow> bool" where
  "log_grows st st' cs \<longleftrightarrow> (\<forall>aof. sv_aof st = Some aof \<longrightarrow> aof_good aof \<longrightarrow>
     (\<exists>aof'. sv_aof st' = Some aof' \<and> aof_good aof' \<and> aof_log_bytes aof' = aof_log_bytes aof @ concat (map record_of cs)
        \<and> (aof_visible aof = aof_log_bytes aof \<longrightarrow> aof_visible aof' = aof_log_bytes aof')))"

lemma log_grows_refl: "log_grows st st []"
  by (simp add: log_grows_def)

lemma log_grows_trans: "log_grows st st1 cs \<Longrightarrow> log_grows st1 st2 ds \<Longrightarrow> log_grows st st2 (cs @ ds)"
  by (fastforce simp: log_grows_def)

lemma append_set_grows:
  assumes "c_string m k = Inr key" "v \<noteq> NULL" "mem_read m v (unat len) = Inr val"
    and "aof_append_set m (sv_aof st) k v len (sv_now st) = Inr (ret, aof')" "sv_aof st' = aof'"
  shows "log_grows st st' [RSet key val]"
  unfolding log_grows_def
proof (intro allI impI)
  fix aof
  assume "sv_aof st = Some aof" "aof_good aof"
  then show "\<exists>aof2. sv_aof st' = Some aof2 \<and> aof_good aof2
      \<and> aof_log_bytes aof2 = aof_log_bytes aof @ concat (map record_of [RSet key val])
      \<and> (aof_visible aof = aof_log_bytes aof \<longrightarrow> aof_visible aof2 = aof_log_bytes aof2)"
    using aof_apply_ok [of aof m "AppSet k v len" "RSet key val" "sv_now st"] assms by auto
qed

lemma stored_view:
  assumes "hm_view m2 hm' = (hm_view m hm)(key \<mapsto> v)" "c_string m2 v = Inr val"
    and "\<And>q p. hm_view m hm q = Some p \<Longrightarrow> \<exists>s. c_string m p = Inr s \<and> c_string m2 p = Inr s"
  shows "map_option (key_at m2) (hm_view m2 hm' q) = (if q = key then Some val else map_option (key_at m) (hm_view m hm q))"
  using assms(1,2) assms(3) [of q] by (cases "hm_view m hm q") (auto simp: key_at_def)

lemma insert_copies_ok:
  assumes "server_ok st" "server_count st < server_bound st" "storable_key key" "0 \<notin> set key" "0 \<notin> set val"
    and "length val < 2 ^ 64" "length key + length val + 2 \<le> avail (sv_mem st)"
  shows "\<exists>st'. insert_copies key val st = Some (Inr (insert_successful, st')) \<and> server_ok st'
    \<and> server_view st' = (server_view st)(key \<mapsto> val)
    \<and> server_count st' \<le> server_count st + 1 \<and> server_bound st' = server_bound st
    \<and> avail (sv_mem st') + length key + length val + 2 = avail (sv_mem st)
    \<and> log_grows st st' [RSet key val]"
proof -
  let ?m = "sv_mem st"
  obtain hm where hm: "sv_db st = Some hm" "mem_ok ?m" "hm_ok ?m hm"
    "\<And>k p. hm_view ?m hm k = Some p \<Longrightarrow> \<exists>s. c_string ?m p = Inr s"
    using assms(1) by (auto simp: server_ok_def split: option.splits)
  have room: "unat (hm_count hm) < hm_bound hm"
    using assms(2) hm(1) by (simp add: server_count_def server_bound_def)
  obtain k v m2 where c: "rbind (dup_bytes ?m key) (\<lambda>(k, m1). rbind (dup_bytes m1 val) (\<lambda>(v, m2). Inr (k, v, m2))) = Inr (k, v, m2)"
    "mem_grows ?m m2" "mem_ok m2" "avail m2 + length key + length val + 2 = avail ?m"
    "c_string m2 k = Inr key" "c_string m2 v = Inr val" "mem_block m2 v = Inr (val @ [0])"
    using two_copies [OF hm(2) assms(7)] assms(4,5) by blast
  have ok2: "hm_ok m2 hm" "hm_view m2 hm = hm_view ?m hm" using hm_ok_ext [OF hm(2) c(2) hm(3)] by blast+
  obtain hm' where h: "hm_insert m2 (Some hm) k v (of_nat (length val)) = Some (Inr (0, Some hm'))"
    "hm_ok m2 hm'" "hm_view m2 hm' = (hm_view m2 hm)(key \<mapsto> v)" "hm_capacity hm' = hm_capacity hm"
    "unat (hm_count hm') = unat (hm_count hm) + (if hm_view m2 hm key = None then 1 else 0)"
    using hm_insert_view [OF ok2(1) room c(5) assms(3)] by blast
  have rd: "mem_read m2 v (unat (of_nat (length val) :: u64)) = Inr val"
    using c(7) assms(6) by (simp add: mem_read_def unat_of_nat_u64)
  then obtain ret aof' where a: "aof_append_set m2 (sv_aof st) k v (of_nat (length val)) (sv_now st) = Inr (ret, aof')"
    using append_set_total [OF c(5) rd] by fastforce
  let ?st = "st\<lparr>sv_mem := m2, sv_db := Some hm', sv_aof := aof'\<rparr>"
  have keep: "\<exists>s. c_string ?m p = Inr s \<and> c_string m2 p = Inr s" if "hm_view ?m hm q = Some p" for p q
    using hm(4) [OF that] mem_grows_string [OF hm(2) c(2)] by blast
  have "insert_copies key val st = Some (Inr (insert_successful, ?st))"
    using c(1) hm(1) h(1) a by (simp add: insert_copies_def)
  moreover have "server_ok ?st"
    using c(3,6) h(2,3) ok2(2) keep by (auto simp: server_ok_def)
  moreover have "server_view ?st = (server_view st)(key \<mapsto> val)"
    using stored_view [of m2 hm' ?m hm key v val] h(3) ok2(2) c(6) keep hm(1) by (auto simp: server_view_def fun_eq_iff)
  moreover have "log_grows st ?st [RSet key val]"
    by (rule append_set_grows [OF c(5) c_string_not_null [OF c(6)] rd a]) simp
  ultimately show ?thesis
    using h(4,5) hm(1) c(4) by (auto simp: server_count_def server_bound_def hm_bound_def)
qed

lemma stack_copy_facts:
  assumes "0 \<notin> set key" "stack_copy m key = (k, m1)"
  shows "mem_grows m m1" "c_string m1 k = Inr key"
  using assms by (auto simp: stack_copy_def mem_grows_def c_string_def mem_block_def takeWhile_nul_append)

definition server_room :: "server \<Rightarrow> bool" where
  "server_room st \<longleftrightarrow> (case sv_db st of None \<Rightarrow> False | Some hm \<Rightarrow> hm_count hm < hm_capacity hm)"

definition get_answer :: "bytes option \<Rightarrow> http_resp" where
  "get_answer r = (case r of None \<Rightarrow> key_not_found | Some v \<Rightarrow> value_found v)"

lemma server_okD:
  assumes "server_ok st"
  obtains hm where "sv_db st = Some hm" "mem_ok (sv_mem st)" "hm_ok (sv_mem st) hm"
    "\<And>k p. hm_view (sv_mem st) hm k = Some p \<Longrightarrow> \<exists>s. c_string (sv_mem st) p = Inr s"
  using assms by (auto simp: server_ok_def split: option.splits)

lemma get_key_ok:
  assumes "server_ok st" "server_room st" "0 \<notin> set key" "length key < 2 ^ 64"
  shows "get_key key st = Some (Inr (get_answer (server_view st key), st))"
proof -
  let ?m = "sv_mem st"
  obtain hm where hm: "sv_db st = Some hm" "mem_ok ?m" "hm_ok ?m hm"
    "\<And>k p. hm_view ?m hm k = Some p \<Longrightarrow> \<exists>s. c_string ?m p = Inr s"
    using server_okD [OF assms(1)] by blast
  obtain k m1 where k: "stack_copy ?m key = (k, m1)" by fastforce
  note s = stack_copy_facts [OF assms(3) k]
  have ok: "hm_ok m1 hm" "hm_view m1 hm = hm_view ?m hm" using hm_ok_ext [OF hm(2) s(1) hm(3)] by blast+
  have c: "hm_count hm < hm_capacity hm" using assms(2) hm(1) by (simp add: server_room_def)
  note g = hm_lookup [OF ok(1) c s(2) assms(4)]
  show ?thesis
  proof (cases "hm_view ?m hm key")
    case None
    then show ?thesis using g ok(2) k hm(1) by (simp add: get_key_eq server_view_def get_answer_def)
  next
    case (Some p)
    then obtain v where v: "c_string ?m p = Inr v" using hm(4) by blast
    then have v1: "c_string m1 p = Inr v" by (rule mem_grows_string [OF hm(2) s(1)])
    have "p \<noteq> NULL" using c_string_not_null [OF v] .
    then show ?thesis
      using g ok(2) k hm(1) Some v v1 by (simp add: get_key_eq server_view_def get_answer_def key_at_string)
  qed
qed

lemma get_key_same_nodes:
  assumes "sv_db st = Some hm" "sv_db st' = Some hm'" "sv_mem st' = sv_mem st" "same_nodes hm hm'"
  shows "get_key key st' = map_option (map_sum id (\<lambda>(res, _). (res, st'))) (get_key key st)"
  using assms hm_get_same_nodes [OF assms(4)]
  by (auto simp: get_key_eq map_sum_def rbind_def split: option.splits sum.splits prod.splits)

lemma delete_key_ok:
  assumes "server_ok st" "server_room st" "0 \<notin> set key" "length key < 2 ^ 64"
  shows "\<exists>st' hm hm'. delete_key key st
      = Some (Inr (if server_view st key = None then key_not_found else key_deleted, st'))
    \<and> sv_mem st' = sv_mem st \<and> sv_db st = Some hm \<and> sv_db st' = Some hm' \<and> same_nodes hm hm'"
proof -
  let ?m = "sv_mem st"
  obtain hm where hm: "sv_db st = Some hm" "mem_ok ?m" "hm_ok ?m hm" using server_okD [OF assms(1)] by blast
  obtain k m1 where k: "stack_copy ?m key = (k, m1)" by fastforce
  note s = stack_copy_facts [OF assms(3) k]
  have ok: "hm_ok m1 hm" "hm_view m1 hm = hm_view ?m hm" using hm_ok_ext [OF hm(2) s(1) hm(3)] by blast+
  have "room (hm_buckets hm)" using room_count [OF ok(1)] assms(2) hm(1) by (simp add: server_room_def)
  then obtain hm' where d: "hm_delete m1 (Some hm) k 1
      = Some (Inr (if hm_view m1 hm key = None then - 1 else 0, Some hm'))" "same_nodes hm hm'"
    using hm_delete_view [OF ok(1) _ s(2) assms(4)] by blast
  obtain ret aof' where a: "aof_append_del m1 (sv_aof st) k (sv_now st) = Inr (ret, aof')"
    using append_del_total [OF s(2)] by fastforce
  show ?thesis
    using k d a hm(1) ok(2)
    by (intro exI [of _ "st\<lparr>sv_db := Some hm', sv_aof := aof'\<rparr>"]) (auto simp: delete_key_def server_view_def)
qed

section \<open>The contract\<close>

text \<open>What a request can store: it must pass the parser and the string functions unchanged.\<close>

definition storable_pair :: "bytes \<Rightarrow> bytes \<Rightarrow> bool" where
  "storable_pair key val \<longleftrightarrow> key \<noteq> [] \<and> storable_key key \<and> 0 \<notin> set key \<and> 0 \<notin> set val
     \<and> plain_val key \<and> plain_val val \<and> length key + length val \<le> 16384"

definition server_put :: "server \<Rightarrow> bytes \<Rightarrow> bytes \<Rightarrow> server option" where
  "server_put st key val =
     (case http_call (put_request key val) st of
        Some (Inr (Some res, st')) \<Rightarrow> if rs_status res = 200 then Some st' else None
      | _ \<Rightarrow> None)"

lemma load_step:
  assumes "max c (b - a div 16400) < b" "c' \<le> c + 1" "a' + n = a" "n \<le> (16400 :: nat)"
  shows "max c' (b - a' div 16400) \<le> max c (b - a div 16400) + 1"
proof -
  have "a div 16400 \<le> (a' + 16400) div 16400" using assms(3,4) by (intro div_le_mono) linarith
  then have "a div 16400 \<le> a' div 16400 + 1" by simp
  then show ?thesis using assms(2) by linarith
qed

lemma put_request_ok:
  assumes "server_ok st" "server_load st < server_bound st" "storable_pair key val"
  shows "\<exists>st'. http_call (put_request key val) st = Some (Inr (Some insert_successful, st')) \<and> server_ok st'
    \<and> server_view st' = (server_view st)(key \<mapsto> val)
    \<and> server_load st' \<le> server_load st + 1 \<and> server_bound st' = server_bound st
    \<and> log_grows st st' [RSet key val]"
proof -
  have s: "key \<noteq> []" "storable_key key" "0 \<notin> set key" "0 \<notin> set val" "plain_val key" "plain_val val"
    "length key + length val \<le> 16384"
    using assms(3) by (auto simp: storable_pair_def)
  have "0 < avail (sv_mem st) div 16400" using assms(2) by (auto simp: server_load_def intro: gr0I)
  then have a: "length key + length val + 2 \<le> avail (sv_mem st)" using s(7) by (simp add: div_greater_zero_iff)
  have c: "server_count st < server_bound st" using assms(2) by (simp add: server_load_def)
  have l: "length val < 2 ^ 64" using s(7) by simp
  obtain st' where st': "insert_copies key val st = Some (Inr (insert_successful, st'))" "server_ok st'"
    "server_view st' = (server_view st)(key \<mapsto> val)" "server_count st' \<le> server_count st + 1"
    "server_bound st' = server_bound st" "avail (sv_mem st') + length key + length val + 2 = avail (sv_mem st)"
    "log_grows st st' [RSet key val]"
    using insert_copies_ok [OF assms(1) c s(2-4) l a] by blast
  have "server_load st' \<le> server_load st + 1"
    using load_step [of "server_count st" "server_bound st" "avail (sv_mem st)" "server_count st'"
        "avail (sv_mem st')" "length key + length val + 2"] assms(2) st'(4-6) s(7)
    by (simp add: server_load_def)
  then show ?thesis using st' put_call [OF s(5,6,1), of st] by auto
qed

lemma server_put_ok:
  assumes "server_ok st" "server_load st < server_bound st" "storable_pair key val"
  shows "\<exists>st'. server_put st key val = Some st' \<and> server_ok st'
    \<and> server_view st' = (server_view st)(key \<mapsto> val)
    \<and> server_load st' \<le> server_load st + 1 \<and> server_bound st' = server_bound st"
  using put_request_ok [OF assms] by (auto simp: server_put_def insert_successful_def answer_def)

interpretation http_table: kv_table server_ok server_view server_load server_bound storable_pair "\<lambda>key. key" server_put
  by unfold_locales (rule server_put_ok)

end
