(* ===== verification/Server_Service.thy ===== *)
theory Server_Service
  imports Server_Props
begin

text \<open>
  What a client of the HTTP server sees (\<^verbatim>\<open>server.c\<close>, \<^verbatim>\<open>server.handler.c\<close>): stores and loads as a
  map, a deletion that deletes nothing, and a server without a table that reports success.
\<close>

definition demo_server :: server where
  "demo_server = \<lparr>sv_mem = mem_init 100000, sv_db = Some (demo_table 4), sv_aof = Some (aof_empty AOF_SYNC_NO), sv_now = 0\<rparr>"

lemma demo_server_facts:
  "server_ok demo_server" "server_load demo_server = 0" "server_bound demo_server = 4"
  "server_view demo_server = (\<lambda>_. None)"
  using demo_table_ok(1,2) [where b = 2 and n = 4 and m = "mem_init 100000"] demo_table_ok(3,4) [where b = 2 and n = 4]
  by (simp_all add: demo_server_def server_ok_def server_load_def server_count_def server_bound_def
      hm_bound_def mem_init_def mem_ok_def server_view_def fun_eq_iff)

lemma demo_pair: "storable_pair [107] [118]" "storable_pair [107] [119]"
  by (simp_all add: storable_pair_def storable_key_def FNV_1a_def fnv_step_def plain_val_def)

lemma room_of_load: "server_load st < server_bound st \<Longrightarrow> server_room st"
  by (auto simp: server_load_def server_count_def server_bound_def server_room_def hm_bound_def
      word_less_nat_alt split: option.splits)

text \<open>
  C5. The server is a map: any run of PUT requests, rendered as HTTP, that table and memory have
  room for is answered 200 throughout, and a GET then answers 200 with the last value stored under
  the key, or the value from before, or 404 when there is none, and changes nothing.
\<close>

theorem server_put_then_get:
  assumes "server_ok st" "server_load st + length xs < server_bound st" "list_all (\<lambda>(k, v). storable_pair k v) xs"
    and "plain_val key" "key \<noteq> []" "0 \<notin> set key" "length key < 2 ^ 64"
  shows "\<exists>st'. put_all server_put st xs = Some st' \<and> server_ok st'
    \<and> http_call (get_request key) st'
        = Some (Inr (Some (get_answer ((server_view st ++ map_of (rev xs)) key)), st'))"
proof -
  have "\<And>h v. (h, v) \<in> set xs \<Longrightarrow> storable_pair h v" using assms(3) by (auto simp: list_all_iff)
  moreover have "server_load st + length xs \<le> server_bound st" using assms(2) by simp
  ultimately obtain st' where st': "put_all server_put st xs = Some st'" "server_ok st'"
    "server_load st' \<le> server_load st + length xs" "server_bound st' = server_bound st"
    "server_view st' = server_view st ++ map_of (rev xs)"
    using http_table.put_all_view [OF assms(1), of xs] by auto
  have "server_room st'" using room_of_load st'(3,4) assms(2) by simp
  then show ?thesis
    using st' get_call [OF assms(4,5)] get_key_ok [OF st'(2) _ assms(6,7)] by simp
qed

theorem server_put_then_get_witness:
  "\<exists>st'. put_all server_put demo_server [([107], [118]), ([107], [119])] = Some st'
    \<and> http_call (get_request [107]) st' = Some (Inr (Some (value_found [119]), st'))"
  using server_put_then_get [OF demo_server_facts(1), of "[([107], [118]), ([107], [119])]" "[107]"]
    demo_server_facts demo_pair by (auto simp: plain_val_def get_answer_def)

section \<open>Deletions\<close>

text \<open>
  The requests that only name a key, and the answer each gets from a server whose map is \<open>v\<close>. A run
  of requests, one after the other, with the answers.
\<close>

datatype key_cmd = GetKey bytes | DeleteKey bytes

fun key_of_cmd :: "key_cmd \<Rightarrow> bytes" where
  "key_of_cmd (GetKey key) = key"
| "key_of_cmd (DeleteKey key) = key"

fun cmd_request :: "key_cmd \<Rightarrow> bytes" where
  "cmd_request (GetKey key) = get_request key"
| "cmd_request (DeleteKey key) = delete_request key"

fun cmd_answer :: "(bytes \<Rightarrow> bytes option) \<Rightarrow> key_cmd \<Rightarrow> http_resp" where
  "cmd_answer v (GetKey key) = get_answer (v key)"
| "cmd_answer v (DeleteKey key) = (if v key = None then key_not_found else key_deleted)"

fun http_calls :: "bytes list \<Rightarrow> server \<Rightarrow> (http_resp option list \<times> server) res option" where
  "http_calls [] st = Some (Inr ([], st))"
| "http_calls (input # inputs) st =
     (case http_call input st of
        None \<Rightarrow> None
      | Some (Inl e) \<Rightarrow> Some (Inl e)
      | Some (Inr (res, st')) \<Rightarrow> map_option (map_sum id (apfst ((#) res))) (http_calls inputs st'))"

definition sendable :: "bytes \<Rightarrow> bool" where
  "sendable key \<longleftrightarrow> plain_val key \<and> key \<noteq> [] \<and> 0 \<notin> set key \<and> length key < 2 ^ 64"

text \<open>\<open>st\<close> differs from \<open>st0\<close> only in the flags and the count of its table, and in its log.\<close>

definition reads_as :: "server \<Rightarrow> server \<Rightarrow> bool" where
  "reads_as st0 st \<longleftrightarrow> sv_mem st = sv_mem st0
     \<and> (\<exists>hm0 hm. sv_db st0 = Some hm0 \<and> sv_db st = Some hm \<and> same_nodes hm0 hm)"

lemma delete_key_reads_as:
  assumes "reads_as st0 st" "delete_key key st0 = Some (Inr (res, st1))" "0 \<notin> set key"
  shows "\<exists>st'. delete_key key st = Some (Inr (res, st')) \<and> reads_as st0 st'"
proof -
  obtain hm0 hm where h: "sv_mem st = sv_mem st0" "sv_db st0 = Some hm0" "sv_db st = Some hm" "same_nodes hm0 hm"
    using assms(1) by (auto simp: reads_as_def)
  obtain k m where k: "stack_copy (sv_mem st0) key = (k, m)" by fastforce
  note s = stack_copy_facts [OF assms(3) k]
  obtain rc db' where "hm_delete m (Some hm0) k 1 = Some (Inr (rc, db'))"
    and res: "res = (if rc \<noteq> 0 then key_not_found else key_deleted)"
    using assms(2) k h(2) by (auto simp: delete_key_def rbind_eq_Inr split: option.splits sum.splits)
  moreover then obtain hm1 where "db' = Some hm1" using hm_delete_cases by blast
  ultimately obtain hm2 where d: "hm_delete m (Some hm) k 1 = Some (Inr (rc, Some hm2))" "same_nodes hm hm2"
    using hm_delete_same_nodes h(4) by blast
  obtain ret aof' where "aof_append_del m (sv_aof st) k (sv_now st) = Inr (ret, aof')"
    using append_del_total [OF s(2)] by fastforce
  then show ?thesis
    using k d h res by (auto simp: delete_key_def reads_as_def same_nodes_def)
qed

lemma key_cmds_run:
  assumes "server_ok st0" "server_room st0"
  shows "reads_as st0 st \<Longrightarrow> list_all (\<lambda>c. sendable (key_of_cmd c)) cs \<Longrightarrow>
    \<exists>st'. http_calls (map cmd_request cs) st = Some (Inr (map (\<lambda>c. Some (cmd_answer (server_view st0) c)) cs, st'))
      \<and> reads_as st0 st'"
proof (induction cs arbitrary: st)
  case (Cons c cs)
  let ?k = "key_of_cmd c"
  have k: "plain_val ?k" "?k \<noteq> []" "0 \<notin> set ?k" "length ?k < 2 ^ 64"
    using Cons.prems(2) by (simp_all add: sendable_def)
  have "\<exists>st1. http_call (cmd_request c) st = Some (Inr (Some (cmd_answer (server_view st0) c), st1)) \<and> reads_as st0 st1"
  proof (cases c)
    case (GetKey key)
    obtain hm0 hm where h: "sv_mem st = sv_mem st0" "sv_db st0 = Some hm0" "sv_db st = Some hm" "same_nodes hm0 hm"
      using Cons.prems(1) by (auto simp: reads_as_def)
    have "get_key key st = Some (Inr (get_answer (server_view st0 key), st))"
      using get_key_same_nodes [OF h(2,3,1,4), of key] get_key_ok [OF assms, of key] k GetKey by simp
    then show ?thesis using get_call [of key st] k GetKey Cons.prems(1) by simp
  next
    case (DeleteKey key)
    obtain st1 where "delete_key key st0
        = Some (Inr (if server_view st0 key = None then key_not_found else key_deleted, st1))"
      using delete_key_ok [OF assms, of key] k DeleteKey by auto
    then obtain st' where "delete_key key st
        = Some (Inr (if server_view st0 key = None then key_not_found else key_deleted, st'))" "reads_as st0 st'"
      using delete_key_reads_as [OF Cons.prems(1)] k(3) DeleteKey by fastforce
    then show ?thesis using delete_call [of key st] k DeleteKey by simp
  qed
  then obtain st1 where "http_call (cmd_request c) st = Some (Inr (Some (cmd_answer (server_view st0) c), st1))"
    "reads_as st0 st1"
    by blast
  then show ?case using Cons.IH [of st1] Cons.prems(2) by fastforce
qed simp

text \<open>
  C28. DELETE is never observed: the answers to any run of GET and DELETE requests are the ones the map
  gives before the run. For a stored key every DELETE answers 200 with \<open>{key deleted}\<close>, also the second
  one, and every GET answers 200 with the value; for another key every answer is 404.
\<close>

theorem server_delete_keeps_key:
  assumes "server_ok st" "server_room st" "list_all (\<lambda>c. sendable (key_of_cmd c)) cs"
  shows "\<exists>st'. http_calls (map cmd_request cs) st
    = Some (Inr (map (\<lambda>c. Some (cmd_answer (server_view st) c)) cs, st'))"
proof -
  have "reads_as st st" using assms(1) by (auto simp: reads_as_def same_nodes_def elim: server_okD)
  then show ?thesis using key_cmds_run [OF assms(1,2) _ assms(3)] by blast
qed

theorem server_delete_keeps_key_witness:
  "\<exists>st st'. server_put demo_server [107] [118] = Some st
    \<and> http_calls [delete_request [107], get_request [107], delete_request [107], get_request [98]] st
      = Some (Inr ([Some key_deleted, Some (value_found [118]), Some key_deleted, Some key_not_found], st'))"
proof -
  obtain st where st: "server_put demo_server [107] [118] = Some st" "server_ok st"
    "server_view st = (server_view demo_server)([107] \<mapsto> [118])" "server_load st \<le> 1" "server_bound st = 4"
    using server_put_ok [OF demo_server_facts(1) _ demo_pair(1)] demo_server_facts by auto
  have "server_room st" using st(4,5) by (intro room_of_load) simp
  from server_delete_keeps_key [OF st(2) this, of "[DeleteKey [107], GetKey [107], DeleteKey [107], GetKey [98]]"]
  show ?thesis using st(1,3) demo_server_facts(4) by (auto simp: sendable_def plain_val_def get_answer_def)
qed

text \<open>
  C39. A server that finds a snapshot file starting as \<open>db_save\<close> writes it starts without a table,
  and does not notice: it answers 200 to PUT requests, stores nothing, and answers 404 to the GET.
\<close>

lemma start_without_table:
  "\<exists>st. server_start m logfile (Some (save_header ts cnt @ rest)) stack line now = Some (Inr st)
    \<and> sv_db st = None \<and> (\<exists>aofp. aof_open m (Some AOF_FILE) AOF_SYNC_EVERYSEC logfile now = (aofp, sv_mem st))"
proof -
  obtain aofp m1 where a: "aof_open m (Some AOF_FILE) AOF_SYNC_EVERYSEC logfile now = (aofp, m1)" by fastforce
  have d: "start_db m1 (Some (save_header ts cnt @ rest)) stack = Some (Inr (None, m1))"
    using load_saved_header by (simp add: start_db_def file_exists_def)
  show ?thesis using a d by (auto simp: server_start_def aof_replay_def split: option.splits)
qed

lemma no_table_put:
  assumes "sv_db st = None" "mem_ok (sv_mem st)" "length key + length val + 2 \<le> avail (sv_mem st)"
    and "0 \<notin> set key" "length val < 2 ^ 64"
  shows "\<exists>st'. insert_copies key val st = Some (Inr (insert_successful, st')) \<and> sv_db st' = None"
proof -
  obtain k v m2 where c: "rbind (dup_bytes (sv_mem st) key) (\<lambda>(k, m1). rbind (dup_bytes m1 val) (\<lambda>(v, m2). Inr (k, v, m2))) = Inr (k, v, m2)"
    "c_string m2 k = Inr key" "mem_block m2 v = Inr (val @ [0])"
    using two_copies [OF assms(2,3)] assms(4) by blast
  have "mem_read m2 v (unat (of_nat (length val) :: u64)) = Inr val"
    using c(3) assms(5) by (simp add: mem_read_def unat_of_nat_u64)
  then obtain ret aof' where "aof_append_set m2 (sv_aof st) k v (of_nat (length val)) (sv_now st) = Inr (ret, aof')"
    using append_set_total [OF c(2)] by fastforce
  then show ?thesis using c(1) assms(1) by (simp add: insert_copies_def hm_insert_def)
qed

theorem server_without_table_reports_success:
  assumes "mem_ok m" "length key + length val + 100 \<le> avail m" "key \<noteq> []" "0 \<notin> set key"
    and "plain_val key" "plain_val val" "length val < 2 ^ 64"
  shows "\<exists>st st'. server_start m logfile (Some (save_header ts cnt @ rest)) stack line now = Some (Inr st)
    \<and> http_call (put_request key val) st = Some (Inr (Some insert_successful, st'))
    \<and> http_call (get_request key) st' = Some (Inr (Some key_not_found, st'))"
proof -
  obtain st aofp where st: "server_start m logfile (Some (save_header ts cnt @ rest)) stack line now = Some (Inr st)"
    "sv_db st = None" "aof_open m (Some AOF_FILE) AOF_SYNC_EVERYSEC logfile now = (aofp, sv_mem st)"
    using start_without_table by blast
  note o = aof_open_memory [OF st(3)]
  obtain st' where st': "insert_copies key val st = Some (Inr (insert_successful, st'))" "sv_db st' = None"
    using no_table_put [OF st(2), of key val] o assms by (auto simp: mem_ok_def AOF_FILE_def)
  have "get_key key st' = Some (Inr (key_not_found, st'))"
    using st'(2) by (simp add: get_key_eq hm_get_def split: prod.split)
  then show ?thesis using st(1) st'(1) put_call [OF assms(5,6,3)] get_call [OF assms(5,3)] by auto
qed

theorem server_without_table_reports_success_witness:
  "\<exists>st st'. server_start (mem_init 1000) None (Some (save_header 0 1 @ [])) (\<lambda>_ _. 0) [] 0 = Some (Inr st)
    \<and> http_call (put_request [107] [118]) st = Some (Inr (Some insert_successful, st'))
    \<and> http_call (get_request [107]) st' = Some (Inr (Some key_not_found, st'))"
  by (rule server_without_table_reports_success) (simp_all add: mem_init_def mem_ok_def plain_val_def)

end
