(* ===== verification/Server_Map.thy ===== *)
theory Server_Map
  imports Server_Service
begin

text \<open>
  What the server promises its clients: a map. The requests of \<^verbatim>\<open>server.handler.c\<close> that store and load,
  as commands; the answer the map gives to each; and the handlers of the model as an implementation
  of one step of the map, from the bytes of the request on.
\<close>

section \<open>The abstract map\<close>

datatype client_cmd = Put bytes bytes | Get bytes

fun cmd_bytes :: "client_cmd \<Rightarrow> bytes" where
  "cmd_bytes (Put key val) = put_request key val"
| "cmd_bytes (Get key) = get_request key"

fun cmd_ok :: "client_cmd \<Rightarrow> bool" where
  "cmd_ok (Put key val) \<longleftrightarrow> storable_pair key val"
| "cmd_ok (Get key) \<longleftrightarrow> sendable key"

text \<open>What the command is answered by the map \<open>v\<close>, and the map after it.\<close>

fun map_step :: "client_cmd \<Rightarrow> (bytes \<Rightarrow> bytes option) \<Rightarrow> http_resp \<times> (bytes \<Rightarrow> bytes option)" where
  "map_step (Put key val) v = (insert_successful, v(key \<mapsto> val))"
| "map_step (Get key) v = (get_answer (v key), v)"

fun cmd_log :: "client_cmd \<Rightarrow> replay_cmd list" where
  "cmd_log (Put key val) = [RSet key val]"
| "cmd_log (Get key) = []"

text \<open>A sequential run: the commands of all clients in one order, each with the client it came from.\<close>

type_synonym seq_run = "(nat \<times> client_cmd) list"

fun map_after :: "seq_run \<Rightarrow> (bytes \<Rightarrow> bytes option) \<Rightarrow> bytes \<Rightarrow> bytes option" where
  "map_after [] v = v"
| "map_after (kc # run) v = map_after run (snd (map_step (snd kc) v))"

fun answers_to :: "nat \<Rightarrow> seq_run \<Rightarrow> (bytes \<Rightarrow> bytes option) \<Rightarrow> bytes" where
  "answers_to k [] v = []"
| "answers_to k (kc # run) v =
     (if fst kc = k then resp_bytes (fst (map_step (snd kc) v)) else []) @ answers_to k run (snd (map_step (snd kc) v))"

definition cmds_of :: "nat \<Rightarrow> seq_run \<Rightarrow> client_cmd list" where
  "cmds_of k run = map snd (filter (\<lambda>kc. fst kc = k) run)"

definition log_of :: "seq_run \<Rightarrow> replay_cmd list" where
  "log_of run = concat (map (\<lambda>kc. cmd_log (snd kc)) run)"

lemma map_after_snoc: "map_after (run @ [kc]) v = snd (map_step (snd kc) (map_after run v))"
  by (induction run arbitrary: v) auto

lemma answers_to_snoc: "answers_to k (run @ [kc]) v
    = answers_to k run v @ (if fst kc = k then resp_bytes (fst (map_step (snd kc) (map_after run v))) else [])"
  by (induction run arbitrary: v) auto

lemma cmds_of_simps [simp]:
  "cmds_of k [] = []" "cmds_of k (run @ [kc]) = cmds_of k run @ (if fst kc = k then [snd kc] else [])"
  by (simp_all add: cmds_of_def)

lemma log_of_simps [simp]: "log_of [] = []" "log_of (run @ [kc]) = log_of run @ cmd_log (snd kc)"
  by (simp_all add: log_of_def)

section \<open>One command\<close>

fun exec_cmd :: "client_cmd \<Rightarrow> server \<Rightarrow> (http_resp \<times> server) res option" where
  "exec_cmd (Put key val) = insert_copies key val"
| "exec_cmd (Get key) = get_key key"

lemma cmd_handled: "cmd_ok c \<Longrightarrow> handled_by (cmd_bytes c) (exec_cmd c)"
  by (cases c) (auto simp: storable_pair_def sendable_def intro: put_handled get_handled)

lemma cmd_waits:
  assumes "cmd_ok c" "cmd_bytes c = buf @ missing" "missing \<noteq> []"
  shows "\<exists>rq. parse_http_req buf req = Inr (- 1, rq)"
proof (cases c)
  case (Put key val)
  then show ?thesis
    using assms plain_names by (intro parse_rendered_prefix [where missing = missing])
      (auto simp: put_request_def storable_pair_def)
next
  case (Get key)
  then show ?thesis
    using assms plain_names by (intro parse_rendered_prefix [where missing = missing])
      (auto simp: get_request_def sendable_def)
qed

lemma lift_answer_eq: "lift_answer r = Some (Inr (Some res, st)) \<longleftrightarrow> r = Some (Inr (res, st))"
  by (cases r; cases "the r") (auto simp: lift_answer_def)

lemma exec_spec:
  assumes "server_ok st" "server_load st < server_bound st" "cmd_ok c"
  shows "\<exists>st'. exec_cmd c st = Some (Inr (fst (map_step c (server_view st)), st')) \<and> server_ok st'
    \<and> server_view st' = snd (map_step c (server_view st)) \<and> server_load st' \<le> server_load st + 1
    \<and> server_bound st' = server_bound st \<and> log_grows st st' (cmd_log c)"
proof (cases c)
  case (Put key val)
  obtain st' where st': "http_call (put_request key val) st = Some (Inr (Some insert_successful, st'))" "server_ok st'"
    "server_view st' = (server_view st)(key \<mapsto> val)" "server_load st' \<le> server_load st + 1"
    "server_bound st' = server_bound st" "log_grows st st' [RSet key val]"
    using put_request_ok [OF assms(1,2), of key val] assms(3) Put by auto
  have "lift_answer (exec_cmd c st) = Some (Inr (Some insert_successful, st'))"
    using st'(1) handled_call [OF cmd_handled [OF assms(3)], of st] Put by simp
  then have "exec_cmd c st = Some (Inr (insert_successful, st'))" unfolding lift_answer_eq .
  then show ?thesis using st' Put by auto
next
  case (Get key)
  then show ?thesis
    using get_key_ok [OF assms(1) room_of_load [OF assms(2)], of key] assms(1,3)
    by (auto simp: sendable_def log_grows_refl)
qed

end
