(* ===== verification/Http_Serving.thy ===== *)
theory Http_Serving
  imports Http_Conn_Props
begin

text \<open>
  A connection of \<^verbatim>\<open>conn.c\<close> and \<^verbatim>\<open>worker.c\<close> serving a request that arrives whole: it is answered in
  one round of the worker and the answer is sent. What follows the request in the same read stays
  in the buffer.
\<close>

section \<open>Progress\<close>

lemma length_dec: "n < 10 ^ Suc k \<Longrightarrow> length (dec n) \<le> Suc k"
proof (induction k arbitrary: n)
  case 0
  then show ?case by (subst dec.simps) simp
next
  case (Suc k)
  have "n div 10 < 10 ^ Suc k" using Suc.prems by (simp add: less_mult_imp_div_less)
  then show ?case using Suc.IH [of "n div 10"] by (subst dec.simps) simp
qed

lemma resp_length:
  assumes "rs_status res < 1000" "length (rs_body res) \<le> 32000"
  shows "length (resp_bytes res) \<le> RESP_BUFFER_SIZE"
proof -
  have "length (dec (rs_status res)) \<le> 3" "length (dec (length (rs_body res))) \<le> 5"
    using length_dec [of "rs_status res" 2] length_dec [of "length (rs_body res)" 4] assms by simp_all
  moreover have "length (status_text (rs_status res)) \<le> 9" by (simp add: status_text_def)
  ultimately show ?thesis
    using assms(2) by (simp add: resp_bytes_def resp_head_def crlf_def RESP_BUFFER_SIZE_def)
qed

text \<open>The client takes at least one byte at every \<open>send\<close>, so that many calls send everything.\<close>

lemma writable_finishes:
  "conn_ok c \<Longrightarrow> length (owed c) \<le> length ks \<Longrightarrow>
   handle_writable (map Snd ks) c sent = (c\<lparr>cn_out := [], cn_pos := 0, cn_state := CONN_READING\<rparr>, sent @ owed c)"
proof (induction ks arbitrary: c sent)
  case Nil
  then show ?case by (subst handle_writable.simps) (auto simp: owed_def write_done_def conn_ok_def)
next
  case (Cons k ks)
  show ?case
  proof (cases "cn_pos c < length (cn_out c)")
    case False
    then show ?thesis using Cons.prems
      by (subst handle_writable.simps) (auto simp: owed_def write_done_def conn_ok_def)
  next
    case True
    let ?k = "max 1 (min k (length (cn_out c) - cn_pos c))"
    let ?c = "c\<lparr>cn_pos := cn_pos c + ?k\<rparr>"
    have k: "1 \<le> ?k" "?k \<le> length (cn_out c) - cn_pos c" using True by simp_all
    have ok: "length (cn_in ?c) \<le> BUFFER_SIZE \<and> length (cn_out ?c) \<le> RESP_BUFFER_SIZE \<and> cn_pos ?c \<le> length (cn_out ?c)"
      using Cons.prems(1) k by (auto simp: conn_ok_def)
    have st: "cn_state c \<noteq> CONN_READING" using Cons.prems(1) True by (auto simp: conn_ok_def)
    have "owed ?c = drop ?k (owed c)" by (simp add: owed_def add.commute)
    moreover have "take ?k (drop (cn_pos c) (cn_out c)) = take ?k (owed c)" by (simp add: owed_def)
    moreover have "length (owed ?c) \<le> length ks" using Cons.prems(2) k by (simp add: owed_def)
    ultimately show ?thesis
      using Cons.IH [of ?c "sent @ take ?k (owed c)"] ok st True
      by (subst handle_writable.simps) (simp add: Let_def conn_ok_def)
  qed
qed

text \<open>The event: the bytes arrive, one \<open>read\<close> takes them, and the client takes the answer.\<close>

definition deliver :: "bytes \<Rightarrow> nat list \<Rightarrow> conn_event" where
  "deliver input ks = \<lparr>ev_in = True, ev_out = True, ev_data = input, ev_reads = [Rd (length input)], ev_writes = map Snd ks\<rparr>"

definition conn_idle :: "conn \<Rightarrow> bool" where
  "conn_idle c \<longleftrightarrow> cn_state c = CONN_READING \<and> cn_rbuf c \<and> cn_wbuf c \<and> cn_in c = [] \<and> cn_out c = [] \<and> cn_pos c = 0"

definition answering :: "conn \<Rightarrow> bytes \<Rightarrow> http_req \<Rightarrow> http_resp \<Rightarrow> conn" where
  "answering c rest rq res =
     c\<lparr>cn_in := rest, cn_req := rq, cn_out := resp_bytes res, cn_pos := 0, cn_state := CONN_WRITING\<rparr>"

lemma request_read:
  assumes "conn_idle c" "parse_http_req (input @ rest) (cn_req c) = Inr (int (length input), rq)"
    and "input \<noteq> []" "length (input @ rest) \<le> BUFFER_SIZE" "respond (input @ rest) rq st = Some (Inr (res, st'))"
    and "length (resp_bytes res) \<le> RESP_BUFFER_SIZE"
  shows "handle_readable respond [Rd (length (input @ rest))] c (input @ rest) st
    = Some (Inr (answering c rest rq res, [], st'))"
proof -
  let ?all = "input @ rest"
  have c: "cn_rbuf c" "cn_wbuf c" "cn_in c = []" using assms(1) by (simp_all add: conn_idle_def)
  have k: "chunk_size (length ?all) c ?all = length ?all"
    using assms(3,4) c(3) by (cases input) (auto simp: chunk_size_def)
  have b: "build_resp (c\<lparr>cn_in := ?all, cn_req := rq\<rparr>) res
      = Inr (c\<lparr>cn_in := ?all, cn_req := rq, cn_out := resp_bytes res, cn_pos := 0\<rparr>)"
    using assms(6) c(2) by (simp add: build_resp_def)
  have p: "0 < length input" using assms(3) by simp
  have "serve respond (c\<lparr>cn_in := ?all\<rparr>) st = Some (Inr (True, answering c rest rq res, st'))"
    using assms(2,5) b p by (simp add: serve_def answering_def)
  then show ?thesis
    using c(1,3) assms(3) k by (subst handle_readable.simps) (simp add: BUFFER_SIZE_def Let_def)
qed

lemma served_round:
  assumes "conn_idle c" "parse_http_req (input @ rest) (cn_req c) = Inr (int (length input), rq)"
    and "input \<noteq> []" "length (input @ rest) \<le> BUFFER_SIZE" "respond (input @ rest) rq st = Some (Inr (res, st'))"
    and "length (resp_bytes res) \<le> RESP_BUFFER_SIZE" "RESP_BUFFER_SIZE \<le> length ks"
  shows "worker_event respond (deliver (input @ rest) ks) (c, [], sent, st)
    = Some (Inr (c\<lparr>cn_in := rest, cn_req := rq\<rparr>, [], sent @ resp_bytes res, st'))"
proof -
  let ?c1 = "answering c rest rq res"
  have c: "cn_state c = CONN_READING" "cn_out c = []" "cn_pos c = 0"
    using assms(1) by (simp_all add: conn_idle_def)
  note r = request_read [where respond = respond, OF assms(1-6)]
  have "conn_ok ?c1" using assms(4,6) by (simp add: conn_ok_def answering_def)
  moreover have "length (owed ?c1) \<le> length ks" using assms(6,7) by (simp add: owed_def answering_def)
  ultimately have w: "handle_writable (map Snd ks) ?c1 sent
      = (?c1\<lparr>cn_out := [], cn_pos := 0, cn_state := CONN_READING\<rparr>, sent @ resp_bytes res)"
    using writable_finishes [of ?c1 ks sent] by (simp add: owed_def answering_def)
  have e: "?c1\<lparr>cn_out := [], cn_pos := 0, cn_state := CONN_READING\<rparr> = c\<lparr>cn_in := rest, cn_req := rq\<rparr>"
    "cn_state ?c1 = CONN_WRITING"
    using c by (simp_all add: answering_def)
  show ?thesis
    unfolding worker_event_def deliver_def using c(1) r w e by simp
qed

text \<open>No data, no progress: only bytes that arrive make the worker look at its buffer.\<close>

lemma readable_no_data:
  assumes "cn_state c = CONN_READING"
  shows "\<exists>c'. handle_readable respond evs c [] st = Some (Inr (c', [], st)) \<and> cn_in c' = cn_in c
    \<and> (cn_state c' = CONN_READING \<or> cn_state c' = CONN_CLOSE)"
  using assms by (subst handle_readable.simps) (auto split: list.splits rd_event.splits)

lemma quiet_round:
  assumes "cn_state c = CONN_READING \<or> cn_state c = CONN_CLOSE" "ev_data ev = []"
  shows "\<exists>c'. worker_event respond ev (c, [], sent, st) = Some (Inr (c', [], sent, st)) \<and> cn_in c' = cn_in c
    \<and> (cn_state c' = CONN_READING \<or> cn_state c' = CONN_CLOSE)"
proof (cases "cn_state c = CONN_READING \<and> ev_in ev")
  case True
  then obtain c' where "handle_readable respond (ev_reads ev) c [] st = Some (Inr (c', [], st))" "cn_in c' = cn_in c"
    "cn_state c' = CONN_READING \<or> cn_state c' = CONN_CLOSE"
    using readable_no_data [of c respond "ev_reads ev" st] True by blast
  then show ?thesis using True assms(2) by (auto simp: worker_event_def)
next
  case False
  then show ?thesis using assms by (auto simp: worker_event_def)
qed

lemma quiet_rounds:
  "cn_state c = CONN_READING \<or> cn_state c = CONN_CLOSE \<Longrightarrow> (\<forall>ev \<in> set evs. ev_data ev = []) \<Longrightarrow>
   \<exists>c'. worker_events respond evs (c, [], sent, st) = Some (Inr (c', [], sent, st)) \<and> cn_in c' = cn_in c"
proof (induction evs arbitrary: c)
  case (Cons ev evs)
  obtain c1 where "worker_event respond ev (c, [], sent, st) = Some (Inr (c1, [], sent, st))" "cn_in c1 = cn_in c"
    "cn_state c1 = CONN_READING \<or> cn_state c1 = CONN_CLOSE"
    using quiet_round [OF Cons.prems(1), of ev respond sent st] Cons.prems(2) by auto
  then show ?case using Cons.IH [of c1] Cons.prems(2) by simp
qed simp

text \<open>A server that answers every request with the ping, for the examples.\<close>

definition demo_conn :: conn where
  "demo_conn = conn_zero\<lparr>cn_rbuf := True, cn_wbuf := True, cn_fd := 7\<rparr>"

definition demo_request :: bytes where
  "demo_request = render_req (lit ''GET'') (lit ''/'') [(lit ''a'', lit ''b'')]"

definition pinging :: "unit responder" where
  "pinging buf rq st = Some (Inr (handle_ping, st))"

lemma demo_conn_facts: "conn_idle demo_conn" "accept_conn 0 True True True 7 = Inr (demo_conn, 1)"
  by (simp_all add: conn_idle_def demo_conn_def conn_zero_def accept_conn_def alloc_conn_def CONN_POOL_SIZE_def)

lemma demo_request_parses:
  "\<exists>rq. parse_http_req (demo_request @ rest) req = Inr (int (length demo_request), rq)"
  using parse_rendered_lemma [of "lit ''GET''" "lit ''/''" "[(lit ''a'', lit ''b'')]" rest req]
  by (auto simp: demo_request_def plain_word_def plain_key_def plain_val_def)

lemma length_demo_request: "length demo_request = 22" "demo_request \<noteq> []"
  by (simp_all add: demo_request_def render_req_def render_param_def)

lemma ping_length: "length (resp_bytes handle_ping) \<le> RESP_BUFFER_SIZE"
  by (rule resp_length) (simp_all add: handle_ping_def)

section \<open>Properties\<close>

text \<open>
  The client gets what was answered: on a connection just accepted, after any events, the bytes
  sent followed by those still in the write buffer are the responses the handlers gave, in order,
  none lost, repeated or torn, and both buffers are within their sizes.
\<close>

theorem conn_sends_responses:
  assumes "accept_conn next_slot calloc_ok rbuf_ok wbuf_ok cfd = Inr (c, n)"
    and "worker_events (logged respond k) evs (c, [], [], (st, \<lambda>_. [])) = Some (Inr (c', sock, sent, (st', logs)))"
  shows "conn_ok c' \<and> logs k = sent @ owed c'"
proof -
  have "conn_ok c" "owed c = []"
    using assms(1)
    by (auto simp: accept_conn_def alloc_conn_def conn_zero_def conn_ok_def owed_def split: if_splits option.splits)
  then show ?thesis using events_ok [OF assms(2)] by simp
qed

text \<open>
  A request that arrives whole is answered: in one round of the worker the response is built, sent
  in full however few bytes each \<open>send\<close> takes, and the connection reads again.
\<close>

theorem conn_answers_request:
  assumes "conn_idle c" "parse_http_req input (cn_req c) = Inr (int (length input), rq)"
    and "input \<noteq> []" "length input \<le> BUFFER_SIZE" "respond input rq st = Some (Inr (res, st'))"
    and "length (resp_bytes res) \<le> RESP_BUFFER_SIZE" "RESP_BUFFER_SIZE \<le> length ks"
  shows "\<exists>c'. worker_event respond (deliver input ks) (c, [], sent, st)
    = Some (Inr (c', [], sent @ resp_bytes res, st')) \<and> conn_idle c'"
proof -
  have "parse_http_req (input @ []) (cn_req c) = Inr (int (length input), rq)" "length (input @ []) \<le> BUFFER_SIZE"
    "respond (input @ []) rq st = Some (Inr (res, st'))"
    using assms(2,4,5) by simp_all
  note r = served_round [where respond = respond and rest = "[]" and sent = sent,
      OF assms(1) this(1) assms(3) this(2,3) assms(6,7)]
  show ?thesis using r assms(1) by (simp add: conn_idle_def)
qed

theorem conn_answers_request_witness:
  "\<exists>c'. worker_event pinging (deliver demo_request (replicate 32768 1)) (demo_conn, [], [], ())
    = Some (Inr (c', [], resp_bytes handle_ping, ())) \<and> conn_idle c'"
proof -
  obtain rq where p: "parse_http_req demo_request (cn_req demo_conn) = Inr (int (length demo_request), rq)"
    using demo_request_parses [of "[]"] by auto
  have g: "pinging demo_request rq () = Some (Inr (handle_ping, ()))" by (simp add: pinging_def)
  show ?thesis
    using conn_answers_request [where respond = pinging and sent = "[]" and ks = "replicate 32768 1", OF demo_conn_facts(1) p _ _ g ping_length]
      length_demo_request by (auto simp: BUFFER_SIZE_def RESP_BUFFER_SIZE_def)
qed

text \<open>
  C38. A pipelined request stalls: of two requests that arrive in one read the first is answered; the
  second, complete in the buffer, is not, whatever events follow, until more bytes arrive.
\<close>

theorem conn_pipelined_request_stalls:
  assumes "conn_idle c" "parse_http_req (r1 @ r2) (cn_req c) = Inr (int (length r1), rq)"
    and "r1 \<noteq> []" "length (r1 @ r2) \<le> BUFFER_SIZE" "respond (r1 @ r2) rq st = Some (Inr (res, st'))"
    and "length (resp_bytes res) \<le> RESP_BUFFER_SIZE" "RESP_BUFFER_SIZE \<le> length ks"
    and "\<forall>ev \<in> set evs. ev_data ev = []"
  shows "\<exists>c'. worker_events respond (deliver (r1 @ r2) ks # evs) (c, [], [], st)
    = Some (Inr (c', [], resp_bytes res, st')) \<and> cn_in c' = r2"
proof -
  have "cn_state (c\<lparr>cn_in := r2, cn_req := rq\<rparr>) = CONN_READING" using assms(1) by (simp add: conn_idle_def)
  then show ?thesis
    using served_round [where respond = respond and rest = r2 and sent = "[]", OF assms(1-7)] quiet_rounds [OF _ assms(8)] by fastforce
qed

theorem conn_pipelined_request_stalls_witness:
  "\<exists>c'. worker_events pinging [deliver (demo_request @ demo_request) (replicate 32768 1), deliver [] [], deliver [] []]
      (demo_conn, [], [], ()) = Some (Inr (c', [], resp_bytes handle_ping, ())) \<and> cn_in c' = demo_request"
proof -
  obtain rq where p: "parse_http_req (demo_request @ demo_request) (cn_req demo_conn) = Inr (int (length demo_request), rq)"
    using demo_request_parses by blast
  have g: "pinging (demo_request @ demo_request) rq () = Some (Inr (handle_ping, ()))" by (simp add: pinging_def)
  show ?thesis
    using conn_pipelined_request_stalls [where respond = pinging and ks = "replicate 32768 1" and evs = "[deliver [] [], deliver [] []]",
        OF demo_conn_facts(1) p _ _ g ping_length]
      length_demo_request by (auto simp: BUFFER_SIZE_def RESP_BUFFER_SIZE_def deliver_def)
qed

end
