(* ===== verification/Http_Pieces.thy ===== *)
theory Http_Pieces
  imports Http_Serving
begin

text \<open>
  A request that arrives in pieces, each in an event of its own and each read in any portions: the
  read handler of \<^verbatim>\<open>conn.c\<close> keeps what has come, parses again after every \<open>read\<close>, and answers when
  the last byte is there.
\<close>

section \<open>One read handler call\<close>

text \<open>
  Whatever the request struct held, \<open>input\<close> is parsed whole and answered with \<open>res\<close>, and no beginning of
  it is taken for a request.
\<close>

definition answers_whole :: "'s responder \<Rightarrow> bytes \<Rightarrow> 's \<Rightarrow> http_resp \<Rightarrow> 's \<Rightarrow> bool" where
  "answers_whole respond input st res st' \<longleftrightarrow>
     input \<noteq> [] \<and> length input \<le> BUFFER_SIZE \<and> length (resp_bytes res) \<le> RESP_BUFFER_SIZE
     \<and> (\<forall>req. \<exists>rq. parse_http_req input req = Inr (int (length input), rq) \<and> respond input rq st = Some (Inr (res, st')))
     \<and> (\<forall>buf missing req. input = buf @ missing \<longrightarrow> missing \<noteq> [] \<longrightarrow> (\<exists>rq. parse_http_req buf req = Inr (- 1, rq)))"

text \<open>A connection with nothing to write that holds the bytes \<open>buf\<close> of a request.\<close>

definition conn_holds :: "bytes \<Rightarrow> conn \<Rightarrow> bool" where
  "conn_holds buf c \<longleftrightarrow> cn_state c = CONN_READING \<and> cn_rbuf c \<and> cn_wbuf c \<and> cn_in c = buf \<and> cn_out c = [] \<and> cn_pos c = 0"

lemma conn_idle_holds: "conn_idle c \<longleftrightarrow> conn_holds [] c"
  by (auto simp: conn_idle_def conn_holds_def)

lemma serve_piece:
  assumes "answers_whole respond input st res st'" "conn_holds buf c" "input = buf @ missing"
  shows "\<exists>rq. serve respond c st = (if missing = [] then Some (Inr (True, answering c [] rq res, st'))
                                   else Some (Inr (False, c\<lparr>cn_req := rq\<rparr>, st)))"
proof (cases "missing = []")
  case True
  then have i: "cn_in c = input" "cn_wbuf c" using assms(2,3) by (simp_all add: conn_holds_def)
  obtain rq where "parse_http_req input (cn_req c) = Inr (int (length input), rq)" "respond input rq st = Some (Inr (res, st'))"
    using assms(1) unfolding answers_whole_def by blast
  moreover have "0 < length input" "length (resp_bytes res) \<le> RESP_BUFFER_SIZE" using assms(1) by (simp_all add: answers_whole_def)
  ultimately show ?thesis using i True
    by (intro exI [of _ rq]) (simp add: serve_def build_resp_def answering_def)
next
  case False
  then obtain rq where "parse_http_req buf (cn_req c) = Inr (- 1, rq)"
    using assms(1,3) unfolding answers_whole_def by blast
  then show ?thesis using False assms(2) by (intro exI [of _ rq]) (simp add: serve_def conn_holds_def)
qed

text \<open>A \<open>read\<close> that is offered \<open>n\<close> bytes takes at least one, so these reads take \<open>reads_take ns\<close> bytes if they wait.\<close>

definition reads_take :: "nat list \<Rightarrow> nat" where
  "reads_take ns = (\<Sum>n\<leftarrow>ns. max 1 n)"

lemma reads_take_simps [simp]: "reads_take [] = 0" "reads_take (n # ns) = max 1 n + reads_take ns"
  by (simp_all add: reads_take_def)

lemma reads_take_replicate [simp]: "reads_take (replicate k n) = k * max 1 n"
  by (simp add: reads_take_def sum_list_replicate)

lemma readable_read:
  assumes "cn_rbuf c" "\<not> BUFFER_SIZE \<le> length (cn_in c)" "sock \<noteq> []"
  shows "handle_readable respond (map Rd (n # ns)) c sock st =
    (let k = chunk_size n c sock in
     case serve respond (c\<lparr>cn_in := cn_in c @ take k sock\<rparr>) st of None \<Rightarrow> None | Some (Inl e) \<Rightarrow> Some (Inl e)
     | Some (Inr (answered, c', st')) \<Rightarrow>
         if answered then Some (Inr (c', drop k sock, st')) else handle_readable respond (map Rd ns) c' (drop k sock) st')"
  using assms by (subst handle_readable.simps) (simp add: Let_def)

lemma readable_dry:
  assumes "\<not> BUFFER_SIZE \<le> length (cn_in c)"
  shows "handle_readable respond (map Rd ns) c [] st = Some (Inr (c, [], st))"
  using assms by (subst handle_readable.simps) (auto split: list.split)

lemma readable_piece:
  assumes "answers_whole respond input st res st'"
  shows "conn_holds buf c \<Longrightarrow> input = buf @ sock @ missing \<Longrightarrow> sock \<noteq> [] \<Longrightarrow> length sock \<le> reads_take ns \<Longrightarrow>
    \<exists>rq. handle_readable respond (map Rd ns) c sock st
      = (if missing = [] then Some (Inr (answering c [] rq res, [], st'))
         else Some (Inr (c\<lparr>cn_in := buf @ sock, cn_req := rq\<rparr>, [], st)))"
proof (induction ns arbitrary: buf c sock)
  case (Cons n ns)
  have c: "cn_rbuf c" "cn_in c = buf" using Cons.prems(1) by (simp_all add: conn_holds_def)
  have len: "length buf + length sock + length missing \<le> BUFFER_SIZE"
    using assms Cons.prems(2) by (simp add: answers_whole_def)
  then have nf: "\<not> BUFFER_SIZE \<le> length (cn_in c)" using Cons.prems(3) c(2) by (cases sock) auto
  let ?k = "chunk_size n c sock"
  have k: "?k = max 1 (min n (length sock))" using len c(2) by (simp add: chunk_size_def)
  let ?c = "c\<lparr>cn_in := buf @ take ?k sock\<rparr>"
  have holds: "conn_holds (buf @ take ?k sock) ?c" using Cons.prems(1) by (simp add: conn_holds_def)
  have i: "input = (buf @ take ?k sock) @ (drop ?k sock @ missing)" using Cons.prems(2) by simp
  obtain rq where s: "serve respond ?c st = (if drop ?k sock @ missing = [] then Some (Inr (True, answering ?c [] rq res, st'))
      else Some (Inr (False, ?c\<lparr>cn_req := rq\<rparr>, st)))"
    using serve_piece [OF assms holds i] by blast
  note h = readable_read [OF c(1) nf Cons.prems(3), of respond n ns st, unfolded Let_def c(2)]
  show ?case
  proof (cases "drop ?k sock = []")
    case True
    then have t: "take ?k sock = sock" by simp
    show ?thesis
    proof (cases "missing = []")
      case False
      then have "\<not> BUFFER_SIZE \<le> length (buf @ sock)" using len by (cases missing) auto
      then show ?thesis using h s t True False readable_dry [of "?c\<lparr>cn_req := rq\<rparr>" respond ns st]
        by (intro exI [of _ rq]) auto
    qed (use h s t True in \<open>auto intro!: exI [of _ rq] simp: answering_def\<close>)
  next
    case False
    let ?c1 = "?c\<lparr>cn_req := rq\<rparr>"
    have "conn_holds (buf @ take ?k sock) ?c1" using holds by (simp add: conn_holds_def)
    moreover have "length (drop ?k sock) \<le> reads_take ns" using Cons.prems(4) k by (simp split: split_max split_min)
    moreover have "input = (buf @ take ?k sock) @ drop ?k sock @ missing" using i by simp
    ultimately obtain rq1 where "handle_readable respond (map Rd ns) ?c1 (drop ?k sock) st
      = (if missing = [] then Some (Inr (answering ?c1 [] rq1 res, [], st'))
         else Some (Inr (?c1\<lparr>cn_in := (buf @ take ?k sock) @ drop ?k sock, cn_req := rq1\<rparr>, [], st)))"
      using Cons.IH [of "buf @ take ?k sock" ?c1 "drop ?k sock"] False by blast
    then show ?thesis using h s False by (intro exI [of _ rq1]) (simp add: answering_def)
  qed
qed simp

section \<open>The events\<close>

text \<open>
  The pieces of \<open>input\<close>, none empty: in each event there are reads enough to take the piece, however few
  bytes each takes, and the client takes what it is sent.
\<close>

definition piece :: "bytes \<Rightarrow> nat list \<Rightarrow> nat list \<Rightarrow> conn_event" where
  "piece bs ns ks = \<lparr>ev_in = True, ev_out = True, ev_data = bs, ev_reads = map Rd ns, ev_writes = map Snd ks\<rparr>"

definition in_pieces :: "bytes \<Rightarrow> conn_event list \<Rightarrow> bool" where
  "in_pieces input evs \<longleftrightarrow> concat (map ev_data evs) = input
     \<and> (\<forall>ev \<in> set evs. \<exists>bs ns ks. ev = piece bs ns ks \<and> bs \<noteq> [] \<and> length bs \<le> reads_take ns \<and> RESP_BUFFER_SIZE \<le> length ks)"

lemma worker_events_append:
  "worker_events respond (xs @ ys) r =
     (case worker_events respond xs r of
        None \<Rightarrow> None
      | Some (Inl e) \<Rightarrow> Some (Inl e)
      | Some (Inr r') \<Rightarrow> worker_events respond ys r')"
  by (induction xs arbitrary: r) (auto split: option.split sum.split)

lemma in_pieces_cut:
  assumes "0 < n" "n < length input" "n \<le> reads_take ns" "length input - n \<le> reads_take ms" "RESP_BUFFER_SIZE \<le> length ks"
  shows "in_pieces input [piece (take n input) ns ks, piece (drop n input) ms ks]"
proof -
  have "\<exists>bs ns' ks'. piece (take n input) ns ks = piece bs ns' ks' \<and> bs \<noteq> [] \<and> length bs \<le> reads_take ns' \<and> RESP_BUFFER_SIZE \<le> length ks'"
    using assms by (intro exI [of _ "take n input"] exI [of _ ns] exI [of _ ks]) auto
  moreover have "\<exists>bs ns' ks'. piece (drop n input) ms ks = piece bs ns' ks' \<and> bs \<noteq> [] \<and> length bs \<le> reads_take ns' \<and> RESP_BUFFER_SIZE \<le> length ks'"
    using assms by (intro exI [of _ "drop n input"] exI [of _ ms] exI [of _ ks]) auto
  ultimately show ?thesis by (simp add: in_pieces_def) (simp add: piece_def)
qed

lemma event_piece:
  assumes "answers_whole respond input st res st'" "conn_holds buf c" "input = buf @ bs @ missing"
    and "bs \<noteq> []" "length bs \<le> reads_take ns" "RESP_BUFFER_SIZE \<le> length ks"
  shows "\<exists>c'. worker_event respond (piece bs ns ks) (c, [], sent, st)
      = Some (Inr (c', [], if missing = [] then sent @ resp_bytes res else sent, if missing = [] then st' else st))
    \<and> conn_holds (if missing = [] then [] else buf @ bs) c'"
proof -
  obtain rq where r: "handle_readable respond (map Rd ns) c bs st
      = (if missing = [] then Some (Inr (answering c [] rq res, [], st'))
         else Some (Inr (c\<lparr>cn_in := buf @ bs, cn_req := rq\<rparr>, [], st)))"
    using readable_piece [OF assms(1-5)] by blast
  have c: "cn_state c = CONN_READING" using assms(2) by (simp add: conn_holds_def)
  show ?thesis
  proof (cases "missing = []")
    case False
    then show ?thesis using r c assms(2) by (simp add: worker_event_def piece_def conn_holds_def)
  next
    case True
    let ?c1 = "answering c [] rq res"
    have l: "length (resp_bytes res) \<le> RESP_BUFFER_SIZE" using assms(1) by (simp add: answers_whole_def)
    then have "conn_ok ?c1" "length (owed ?c1) \<le> length ks"
      using assms(6) by (simp_all add: conn_ok_def answering_def owed_def)
    from writable_finishes [OF this, of sent]
    have "handle_writable (map Snd ks) ?c1 sent
        = (?c1\<lparr>cn_out := [], cn_pos := 0, cn_state := CONN_READING\<rparr>, sent @ resp_bytes res)"
      by (simp add: owed_def answering_def)
    then show ?thesis using True r c assms(2) by (simp add: worker_event_def piece_def conn_holds_def answering_def)
  qed
qed

lemma pieces_answered:
  assumes "answers_whole respond input st res st'"
  shows "conn_holds buf c \<Longrightarrow> input = buf @ concat (map ev_data evs) \<Longrightarrow> evs \<noteq> [] \<Longrightarrow>
    (\<forall>ev \<in> set evs. \<exists>bs ns ks. ev = piece bs ns ks \<and> bs \<noteq> [] \<and> length bs \<le> reads_take ns \<and> RESP_BUFFER_SIZE \<le> length ks) \<Longrightarrow>
    \<exists>c'. worker_events respond evs (c, [], sent, st) = Some (Inr (c', [], sent @ resp_bytes res, st')) \<and> conn_idle c'"
proof (induction evs arbitrary: buf c)
  case (Cons ev evs)
  obtain bs ns ks where ev: "ev = piece bs ns ks" "bs \<noteq> []" "length bs \<le> reads_take ns" "RESP_BUFFER_SIZE \<le> length ks"
    using Cons.prems(4) by auto
  let ?missing = "concat (map ev_data evs)"
  have i: "input = buf @ bs @ ?missing" using Cons.prems(2) ev(1) by (simp add: piece_def)
  obtain c1 where c1: "worker_event respond ev (c, [], sent, st)
      = Some (Inr (c1, [], if ?missing = [] then sent @ resp_bytes res else sent, if ?missing = [] then st' else st))"
    "conn_holds (if ?missing = [] then [] else buf @ bs) c1"
    unfolding ev(1) using event_piece [OF assms Cons.prems(1) i ev(2-4)] by blast
  show ?case
  proof (cases "evs = []")
    case True
    then show ?thesis using c1 by (simp add: conn_idle_holds)
  next
    case False
    then have ne: "?missing \<noteq> []" using Cons.prems(4) by (cases evs) (auto simp: piece_def)
    have e: "worker_event respond ev (c, [], sent, st) = Some (Inr (c1, [], sent, st))" and h: "conn_holds (buf @ bs) c1"
      using c1 by (simp_all only: ne if_False)
    have "input = (buf @ bs) @ ?missing" using i by simp
    from Cons.IH [OF h this False] show ?thesis using Cons.prems(4) e by simp
  qed
qed simp

lemma request_in_pieces:
  assumes "answers_whole respond input st res st'" "conn_idle c" "in_pieces input evs"
  shows "\<exists>c'. worker_events respond evs (c, [], sent, st) = Some (Inr (c', [], sent @ resp_bytes res, st')) \<and> conn_idle c'"
proof (rule pieces_answered [OF assms(1)])
  show "evs \<noteq> []" using assms(1,3) by (auto simp: in_pieces_def answers_whole_def)
qed (use assms(2,3) in \<open>auto simp: conn_idle_holds in_pieces_def\<close>)

end
