(* ===== verification/Server_Session.thy ===== *)
theory Server_Session
  imports Server_Map Http_Pieces
begin

text \<open>
  All parts together for one client: a session of requests on one connection of the server, from the
  bytes it sends, in pieces of any size, to the bytes it receives, through \<^verbatim>\<open>worker.c\<close>, \<^verbatim>\<open>conn.c\<close>,
  \<^verbatim>\<open>parse.c\<close>, \<^verbatim>\<open>route.c\<close>, \<^verbatim>\<open>server.handler.c\<close>, the table and the log.
\<close>

lemma request_lengths:
  "length (put_request key val) = length key + length val + 40"
  "length (get_request key) = length key + 33"
  by (simp_all add: put_request_def get_request_def render_req_def render_param_def path_of_def)

definition short_values :: "(bytes \<Rightarrow> bytes option) \<Rightarrow> bool" where
  "short_values v \<longleftrightarrow> (\<forall>key val. v key = Some val \<longrightarrow> length val \<le> 31000)"

lemma short_values_step: "short_values v \<Longrightarrow> cmd_ok d \<Longrightarrow> short_values (snd (map_step d v))"
  by (cases d) (auto simp: short_values_def storable_pair_def)

lemma cmd_answer_length:
  assumes "short_values v"
  shows "length (resp_bytes (fst (map_step d v))) \<le> RESP_BUFFER_SIZE"
proof (rule resp_length)
  show "rs_status (fst (map_step d v)) < 1000" "length (rs_body (fst (map_step d v))) \<le> 32000"
    using assms
    by (cases d; force simp: short_values_def get_answer_def insert_successful_def key_not_found_def value_found_def
        answer_def split: option.splits)+
qed

lemma cmd_answers_whole:
  assumes "server_ok st" "server_load st < server_bound st" "cmd_ok d" "length (cmd_bytes d) \<le> BUFFER_SIZE"
    and "short_values (server_view st)"
  shows "\<exists>st'. answers_whole (route_req server_routes) (cmd_bytes d) st (fst (map_step d (server_view st))) st' \<and> server_ok st'
    \<and> server_view st' = snd (map_step d (server_view st)) \<and> server_load st' \<le> server_load st + 1
    \<and> server_bound st' = server_bound st"
proof -
  obtain st' where st': "exec_cmd d st = Some (Inr (fst (map_step d (server_view st)), st'))" "server_ok st'"
    "server_view st' = snd (map_step d (server_view st))" "server_load st' \<le> server_load st + 1"
    "server_bound st' = server_bound st"
    using exec_spec [OF assms(1-3)] by blast
  have "\<exists>rq. parse_http_req (cmd_bytes d) req = Inr (int (length (cmd_bytes d)), rq)
      \<and> route_req server_routes (cmd_bytes d) rq st = Some (Inr (fst (map_step d (server_view st)), st'))" for req
    using handledD [OF cmd_handled [OF assms(3)], of "[]" req] st'(1) by (metis append_Nil2)
  moreover have "cmd_bytes d \<noteq> []" using cmd_handled [OF assms(3)] by (simp add: handled_by_def)
  ultimately have "answers_whole (route_req server_routes) (cmd_bytes d) st (fst (map_step d (server_view st))) st'"
    using assms(4) cmd_answer_length [OF assms(5)] cmd_waits [OF assms(3)] unfolding answers_whole_def by blast
  then show ?thesis using st' by blast
qed

text \<open>
  C3. A session is a run of the map: a client that sends any PUT and GET requests on one connection, one
  after the other, each cut into pieces of any size that are read in any portions, receives the answers
  the map gives to that run, byte for byte and nothing else; at the end the table is the map after the
  run and the connection is ready for the next request.
\<close>

theorem session_answered:
  assumes "conn_idle c" "server_ok st" "server_load st + length xs < server_bound st" "short_values (server_view st)"
    and "\<forall>(d, evs) \<in> set xs. cmd_ok d \<and> length (cmd_bytes d) \<le> BUFFER_SIZE \<and> in_pieces (cmd_bytes d) evs"
  shows "\<exists>c' st'. worker_events (route_req server_routes) (concat (map snd xs)) (c, [], [], st)
      = Some (Inr (c', [], answers_to 0 (map (\<lambda>x. (0, fst x)) xs) (server_view st), st'))
    \<and> conn_idle c' \<and> server_ok st' \<and> server_view st' = map_after (map (\<lambda>x. (0, fst x)) xs) (server_view st)"
proof -
  have "\<exists>c' st'. worker_events (route_req server_routes) (concat (map snd xs)) (c, [], sent, st)
      = Some (Inr (c', [], sent @ answers_to 0 (map (\<lambda>x. (0, fst x)) xs) (server_view st), st'))
    \<and> conn_idle c' \<and> server_ok st' \<and> server_view st' = map_after (map (\<lambda>x. (0, fst x)) xs) (server_view st)" for sent
    using assms
  proof (induction xs arbitrary: c st sent)
    case (Cons x xs)
    obtain d evs where x: "x = (d, evs)" by (cases x)
    have d: "cmd_ok d" "length (cmd_bytes d) \<le> BUFFER_SIZE" "in_pieces (cmd_bytes d) evs" using Cons.prems(5) x by auto
    have room: "server_load st < server_bound st" using Cons.prems(3) by simp
    obtain st1 where st1: "answers_whole (route_req server_routes) (cmd_bytes d) st (fst (map_step d (server_view st))) st1"
      "server_ok st1" "server_view st1 = snd (map_step d (server_view st))" "server_load st1 \<le> server_load st + 1"
      "server_bound st1 = server_bound st"
      using cmd_answers_whole [OF Cons.prems(2) room d(1,2) Cons.prems(4)] by blast
    let ?sent = "sent @ resp_bytes (fst (map_step d (server_view st)))"
    obtain c1 where c1: "worker_events (route_req server_routes) evs (c, [], sent, st) = Some (Inr (c1, [], ?sent, st1))"
      "conn_idle c1"
      using request_in_pieces [OF st1(1) Cons.prems(1) d(3)] by blast
    have "server_load st1 + length xs < server_bound st1" using Cons.prems(3) st1(4,5) by simp
    moreover have "short_values (server_view st1)" using st1(3) short_values_step [OF Cons.prems(4) d(1)] by simp
    ultimately show ?case
      using Cons.IH [OF c1(2) st1(2), of ?sent] Cons.prems(5) c1(1) st1(3) x by (auto simp: worker_events_append)
  qed simp
  from this [of "[]"] show ?thesis by simp
qed

theorem session_answered_witness:
  "\<exists>c' st'. worker_events (route_req server_routes)
      [piece (take 10 (put_request [107] [118])) (replicate 10 1) (replicate 32768 1),
       piece (drop 10 (put_request [107] [118])) [7, 25] (replicate 32768 1),
       piece (take 20 (get_request [107])) (replicate 20 1) (replicate 32768 1000),
       piece (drop 20 (get_request [107])) [1000] (replicate 32768 1000)]
      (demo_conn, [], [], demo_server)
    = Some (Inr (c', [], resp_bytes insert_successful @ resp_bytes (value_found [118]), st')) \<and> conn_idle c'"
proof -
  let ?xs = "[(Put [107] [118], [piece (take 10 (put_request [107] [118])) (replicate 10 1) (replicate 32768 1),
       piece (drop 10 (put_request [107] [118])) [7, 25] (replicate 32768 1)]),
     (Get [107], [piece (take 20 (get_request [107])) (replicate 20 1) (replicate 32768 1000),
       piece (drop 20 (get_request [107])) [1000] (replicate 32768 1000)])]"
  have p: "in_pieces (put_request [107] [118]) (snd (?xs ! 0))"
    using in_pieces_cut [of 10 "put_request [107] [118]" "replicate 10 1" "[7, 25]" "replicate 32768 1"]
    by (simp add: request_lengths RESP_BUFFER_SIZE_def)
  have g: "in_pieces (get_request [107]) (snd (?xs ! 1))"
    using in_pieces_cut [of 20 "get_request [107]" "replicate 20 1" "[1000]" "replicate 32768 1000"]
    by (simp add: request_lengths RESP_BUFFER_SIZE_def)
  have r: "server_load demo_server + length ?xs < server_bound demo_server" using demo_server_facts by simp
  have s: "short_values (server_view demo_server)" using demo_server_facts by (simp add: short_values_def)
  have "\<forall>(d, evs) \<in> set ?xs. cmd_ok d \<and> length (cmd_bytes d) \<le> BUFFER_SIZE \<and> in_pieces (cmd_bytes d) evs"
    using p g demo_pair(1) by (simp add: request_lengths BUFFER_SIZE_def sendable_def plain_val_def)
  from session_answered [OF demo_conn_facts(1) demo_server_facts(1) r s this]
  show ?thesis using demo_server_facts by (auto simp: get_answer_def)
qed

section \<open>A store and a load that arrive whole\<close>

lemma handled_round:
  assumes "handled_by input f" "conn_idle c" "length input \<le> BUFFER_SIZE" "f st = Some (Inr (res, st'))"
    and "rs_status res < 1000" "length (rs_body res) \<le> 32000" "RESP_BUFFER_SIZE \<le> length ks"
  shows "\<exists>c'. worker_event (route_req server_routes) (deliver input ks) (c, [], sent, st)
    = Some (Inr (c', [], sent @ resp_bytes res, st')) \<and> conn_idle c'"
proof -
  obtain rq where rq: "parse_http_req (input @ []) (cn_req c) = Inr (int (length input), rq)"
    "route_req server_routes (input @ []) rq st = Some (Inr (res, st'))" "input \<noteq> []"
    using handledD [OF assms(1)] assms(1,4) by (metis handled_by_def)
  have l: "length (input @ []) \<le> BUFFER_SIZE" using assms(3) by simp
  have "worker_event (route_req server_routes) (deliver (input @ []) ks) (c, [], sent, st)
    = Some (Inr (c\<lparr>cn_in := [], cn_req := rq\<rparr>, [], sent @ resp_bytes res, st'))"
    by (rule served_round [where respond = "route_req server_routes" and rest = "[]", OF assms(2) rq(1,3) l rq(2) resp_length [OF assms(5,6)] assms(7)])
  then show ?thesis using assms(2) by (simp add: conn_idle_def)
qed

text \<open>
  A client that sends a PUT and then a GET of the same key on one connection receives the answer
  200 and then the answer 200 with the value it sent, byte for byte, and the connection is ready
  for the next request.
\<close>

theorem conn_put_then_get:
  assumes "conn_idle c" "server_ok st" "server_load st + 1 < server_bound st" "storable_pair key val"
    and "length key + length val \<le> 16000" "RESP_BUFFER_SIZE \<le> length ks1" "RESP_BUFFER_SIZE \<le> length ks2"
  shows "\<exists>c' st'. worker_events (route_req server_routes)
        [deliver (put_request key val) ks1, deliver (get_request key) ks2] (c, [], [], st)
      = Some (Inr (c', [], resp_bytes insert_successful @ resp_bytes (value_found val), st')) \<and> conn_idle c'"
proof -
  have s: "key \<noteq> []" "0 \<notin> set key" "plain_val key" "plain_val val"
    using assms(4) by (auto simp: storable_pair_def)
  have ld: "server_load st < server_bound st" using assms(3) by simp
  obtain st1 where st1: "http_call (put_request key val) st = Some (Inr (Some insert_successful, st1))" "server_ok st1"
    "server_view st1 = (server_view st)(key \<mapsto> val)" "server_load st1 \<le> server_load st + 1" "server_bound st1 = server_bound st"
    using put_request_ok [OF assms(2) ld assms(4)] by blast
  have i: "insert_copies key val st = Some (Inr (insert_successful, st1))"
    using st1(1) put_call [OF s(3,4,1), of st] by (simp add: lift_answer_eq)
  have "server_room st1" using st1(4,5) assms(3) by (intro room_of_load) simp
  moreover have "length key < 2 ^ 64" using assms(5) by simp
  ultimately have g: "get_key key st1 = Some (Inr (value_found val, st1))"
    using get_key_ok [OF st1(2) _ s(2)] st1(3) by (simp add: get_answer_def)
  have l: "length (put_request key val) \<le> BUFFER_SIZE" "length (get_request key) \<le> BUFFER_SIZE"
    using assms(5) by (simp_all add: request_lengths BUFFER_SIZE_def)
  obtain c1 where c1: "worker_event (route_req server_routes) (deliver (put_request key val) ks1) (c, [], [], st)
      = Some (Inr (c1, [], [] @ resp_bytes insert_successful, st1))" "conn_idle c1"
    using handled_round [OF put_handled [OF s(3,4,1)] assms(1) l(1) i _ _ assms(6), of "[]"]
    by (auto simp: insert_successful_def answer_def)
  obtain c2 where c2: "worker_event (route_req server_routes) (deliver (get_request key) ks2)
      (c1, [], resp_bytes insert_successful, st1)
      = Some (Inr (c2, [], resp_bytes insert_successful @ resp_bytes (value_found val), st1))" "conn_idle c2"
    using handled_round [OF get_handled [OF s(3,1)] c1(2) l(2) g _ _ assms(7), of "resp_bytes insert_successful"] assms(5)
    by (auto simp: value_found_def answer_def)
  show ?thesis using c1(1) c2 by simp
qed

theorem conn_put_then_get_witness:
  "\<exists>c' st'. worker_events (route_req server_routes)
      [deliver (put_request [107] [118]) (replicate 32768 1), deliver (get_request [107]) (replicate 32768 1000)]
      (demo_conn, [], [], demo_server)
    = Some (Inr (c', [], resp_bytes insert_successful @ resp_bytes (value_found [118]), st')) \<and> conn_idle c'"
  by (rule conn_put_then_get [OF demo_conn_facts(1) demo_server_facts(1) _ demo_pair(1)])
    (simp_all add: demo_server_facts RESP_BUFFER_SIZE_def)

end
