(* ===== verification/Http_Service.thy ===== *)
theory Http_Service
  imports Http_Serving
begin

text \<open>
  The interface between the connections of \<^verbatim>\<open>conn.c\<close> and the handlers behind the routes: what a handler
  must promise so that a connection never faults, whatever bytes arrive and however they are cut,
  and its first provider, the echo handler of \<^verbatim>\<open>route.c\<close>.
\<close>

section \<open>Requests the parser delivers\<close>

definition params_total :: "http_param list \<Rightarrow> nat" where
  "params_total xs = (\<Sum>x\<leftarrow>xs. pa_key_len x + pa_val_len x)"

definition req_sound :: "bytes \<Rightarrow> http_req \<Rightarrow> bool" where
  "req_sound buf rq \<longleftrightarrow> req_in buf rq \<and> params_total (rq_params rq) \<le> length buf"

lemma param_total:
  assumes "p \<le> length buf"
  shows "p + pa_key_len (fst (parse_param buf p)) + pa_val_len (fst (parse_param buf p)) \<le> snd (parse_param buf p)"
proof -
  let ?p1 = "skip_while (\<lambda>b. b \<noteq> 61 \<and> b \<noteq> 38 \<and> b \<noteq> 32) buf p"
  have p1: "p \<le> ?p1" "?p1 \<le> length buf" using skip_while_bounds [OF assms] by blast+
  show ?thesis
  proof (cases "at_char buf ?p1 61")
    case True
    then have "?p1 + 1 \<le> length buf" by (simp add: at_char_def)
    from skip_while_bounds [OF this, of "\<lambda>b. b \<noteq> 38 \<and> b \<noteq> 32"]
    show ?thesis using True p1 by (auto simp: parse_param_def Let_def)
  qed (use p1 in \<open>auto simp: parse_param_def Let_def\<close>)
qed

lemma params_total_bound:
  "p \<le> length buf \<Longrightarrow> p + params_total (fst (parse_params n buf p)) \<le> snd (parse_params n buf p)"
proof (induction n arbitrary: p)
  case 0
  then show ?case by (simp add: params_total_def)
next
  case (Suc n)
  obtain x p1 where x: "parse_param buf p = (x, p1)" by (cases "parse_param buf p")
  obtain xs p2 where xs: "parse_params n buf p1 = (xs, p2)" by (cases "parse_params n buf p1")
  have "p1 \<le> length buf" using param_bounds [OF Suc.prems] x by simp
  then show ?case
    using Suc.IH [of p1] param_total [OF Suc.prems] x xs by (auto simp: params_total_def)
qed

lemma req_line_total_params:
  assumes "parse_req_line buf req = Inr (n, rq)" "0 \<le> n"
  shows "params_total (rq_params rq) \<le> length buf"
proof -
  let ?p1 = "skip_while (\<lambda>b. b \<noteq> 32) buf 0"
  let ?p2 = "skip_while (\<lambda>b. b \<noteq> 32 \<and> b \<noteq> 63) buf (?p1 + 1)"
  have p1: "?p1 \<noteq> length buf" using assms by (auto simp: parse_req_line_def Let_def)
  have p2: "?p2 \<noteq> length buf" using assms p1 by (auto simp: parse_req_line_def Let_def)
  have "?p1 + 1 \<le> length buf" using p1 skip_while_bounds [of 0 buf] by (simp add: Suc_le_eq le_neq_implies_less)
  then have "?p2 + 1 \<le> length buf"
    using p2 skip_while_bounds [of "?p1 + 1" buf "\<lambda>b. b \<noteq> 32 \<and> b \<noteq> 63"] by (simp add: Suc_le_eq le_neq_implies_less)
  then have t: "params_total (fst (parse_params 8 buf (?p2 + 1))) \<le> length buf"
    using params_total_bound [of "?p2 + 1" buf 8] params_bounds [of "?p2 + 1" buf 8] by linarith
  have "params_total [] = 0" by (simp add: params_total_def)
  then show ?thesis
    using assms(1) p1 p2 t
    by (auto simp: parse_req_line_def Let_def byte_at_def rbind_def split: prod.splits if_splits sum.splits)
qed

lemma headers_keep_params: "parse_headers buf rq = Inr (n, rq') \<Longrightarrow> rq_params rq' = rq_params rq"
  by (auto simp: parse_headers_def rbind_eq_Inr)

lemma parsed_sound:
  assumes "parse_http_req buf req = Inr (n, rq)" "0 < n"
  shows "req_sound buf rq \<and> n \<le> int (length buf)"
proof -
  have b: "n \<le> int (length buf) \<and> req_in buf rq" using parse_in_bounds [of buf req] assms by auto
  let ?line = "take (length (takeWhile (\<lambda>b. b \<noteq> 10) buf) + 1) buf"
  obtain c rq1 where l: "parse_req_line ?line req = Inr (c, rq1)"
    using req_line_total by blast
  have "10 \<in> set buf" using assms by (auto simp: parse_http_req_def split: if_splits)
  moreover have "0 \<le> c" using assms l by (auto simp: parse_http_req_def Let_def split: if_splits)
  moreover from this have "params_total (rq_params rq1) \<le> length buf"
    using req_line_total_params [OF l] by (simp add: le_trans)
  moreover have "rq_params rq = rq_params rq1"
    using assms l \<open>0 \<le> c\<close>
    by (auto simp: parse_http_req_def Let_def rbind_eq_Inr dest!: headers_keep_params split: if_splits)
  ultimately show ?thesis using b by (simp add: req_sound_def)
qed

section \<open>The interface\<close>

text \<open>
  \<open>able n st\<close>: in state \<open>st\<close> the handlers can answer \<open>n\<close> more requests, whatever they are, each with a
  response that fits the write buffer.
\<close>

locale service =
  fixes respond :: "'s responder" and able :: "nat \<Rightarrow> 's \<Rightarrow> bool"
  assumes serves: "able (Suc n) st \<Longrightarrow> length buf \<le> BUFFER_SIZE \<Longrightarrow> req_sound buf rq \<Longrightarrow>
      \<exists>res st'. respond buf rq st = Some (Inr (res, st')) \<and> able n st' \<and> length (resp_bytes res) \<le> RESP_BUFFER_SIZE"
    and able_less: "able (Suc n) st \<Longrightarrow> able n st"
begin

text \<open>A result is good when it is a value with \<open>Q\<close>, or the one fault the parser can raise.\<close>

definition good :: "('a \<Rightarrow> bool) \<Rightarrow> 'a res option \<Rightarrow> bool" where
  "good Q r \<longleftrightarrow> r = Some (Inl SignedOverflow) \<or> (\<exists>x. r = Some (Inr x) \<and> Q x)"

lemma goodE:
  assumes "good Q r"
  obtains (fault) "r = Some (Inl SignedOverflow)" | (result) x where "r = Some (Inr x)" "Q x"
  using assms by (auto simp: good_def)

text \<open>A connection with a read buffer has a write buffer; without a read buffer it is closed at the first read.\<close>

definition served :: "conn \<Rightarrow> bool" where
  "served c \<longleftrightarrow> conn_ok c \<and> (cn_rbuf c \<longrightarrow> cn_wbuf c)"

lemma serve_good:
  assumes "served c" "cn_wbuf c" "cn_state c = CONN_READING" "able (Suc n) st"
  shows "good (\<lambda>(answered, c', st'). served c' \<and> able n st'
      \<and> (\<not> answered \<longrightarrow> cn_state c' = CONN_READING \<and> st' = st)) (serve respond c st)"
proof (cases "parse_http_req (cn_in c) (cn_req c)")
  case (Inl e)
  then have "e = SignedOverflow" using parse_in_bounds [of "cn_in c" "cn_req c"] by simp
  then show ?thesis using Inl by (simp add: good_def serve_def)
next
  case (Inr x)
  obtain consumed rq where x: "x = (consumed, rq)" by (cases x)
  show ?thesis
  proof (cases "consumed \<le> 0")
    case True
    then show ?thesis using Inr x assms able_less [OF assms(4)]
      by (simp add: good_def serve_def served_def conn_ok_def)
  next
    case False
    have l: "length (cn_in c) \<le> BUFFER_SIZE" using assms(1) by (simp add: served_def conn_ok_def)
    have s: "req_sound (cn_in c) rq" using parsed_sound [of "cn_in c" "cn_req c" consumed rq] Inr x False by simp
    obtain res st' where r: "respond (cn_in c) rq st = Some (Inr (res, st'))" "able n st'"
      "length (resp_bytes res) \<le> RESP_BUFFER_SIZE"
      using serves [OF assms(4) l s] by blast
    then show ?thesis using Inr x False assms(1,2) l
      by (auto simp: good_def serve_def build_resp_def served_def conn_ok_def)
  qed
qed

lemma readable_good:
  "served c \<Longrightarrow> cn_state c = CONN_READING \<Longrightarrow> able (Suc n) st \<Longrightarrow>
   good (\<lambda>(c', sock', st'). served c' \<and> able n st') (handle_readable respond evs c sock st)"
proof (induction evs arbitrary: c sock)
  case Nil
  then show ?case using able_less [OF Nil(3)]
    by (subst handle_readable.simps) (simp add: good_def served_def conn_ok_def)
next
  case (Cons e es)
  have stay: "served (c\<lparr>cn_state := CONN_CLOSE\<rparr>)" "able n st"
    using Cons.prems able_less by (auto simp: served_def conn_ok_def)
  show ?case
  proof (cases "BUFFER_SIZE \<le> length (cn_in c) \<or> sock = [] \<or> \<not> cn_rbuf c \<or> (\<forall>k. e \<noteq> Rd k)")
    case True
    then show ?thesis using stay Cons.prems
      by (subst handle_readable.simps) (auto simp: good_def split: rd_event.splits)
  next
    case False
    then obtain k where k: "e = Rd k" "\<not> BUFFER_SIZE \<le> length (cn_in c)" "sock \<noteq> []" "cn_rbuf c" by blast
    let ?k = "chunk_size k c sock"
    let ?c = "c\<lparr>cn_in := cn_in c @ take ?k sock\<rparr>"
    have "?k \<le> BUFFER_SIZE - length (cn_in c)" using k(2,3) by (cases sock) (auto simp: chunk_size_def)
    then have c: "served ?c" "cn_wbuf ?c" "cn_state ?c = CONN_READING"
      using Cons.prems(1,2) k(2,4) by (auto simp: served_def conn_ok_def)
    have h: "handle_readable respond (e # es) c sock st =
      (case serve respond ?c st of None \<Rightarrow> None | Some (Inl e) \<Rightarrow> Some (Inl e)
        | Some (Inr (answered, c', st')) \<Rightarrow>
            if answered then Some (Inr (c', drop ?k sock, st'))
            else handle_readable respond es c' (drop ?k sock) st')"
      using k by (subst handle_readable.simps) (simp add: Let_def)
    from serve_good [OF c Cons.prems(3)] show ?thesis
    proof (cases rule: goodE)
      case fault
      then show ?thesis unfolding h by (simp add: good_def)
    next
      case (result x)
      obtain answered c' st' where x: "x = (answered, c', st')" by (cases x)
      show ?thesis
      proof (cases answered)
        case True
        then show ?thesis using result x unfolding h by (simp add: good_def)
      next
        case False
        then show ?thesis using result x Cons.IH [of c' "drop ?k sock"] Cons.prems(3) unfolding h by simp
      qed
    qed
  qed
qed

lemma event_good:
  assumes "served c" "able (Suc n) st"
  shows "good (\<lambda>(c', sock', sent', st'). served c' \<and> able n st') (worker_event respond ev (c, sock, sent, st))"
proof (cases "cn_state c = CONN_CLOSE")
  case True
  then show ?thesis using assms able_less by (auto simp: good_def worker_event_def)
next
  case False
  let ?r = "if ev_in ev \<and> cn_state c = CONN_READING
    then handle_readable respond (ev_reads ev) c (sock @ ev_data ev) st else Some (Inr (c, sock @ ev_data ev, st))"
  have "good (\<lambda>(c', sock', st'). served c' \<and> able n st') ?r"
    using readable_good [OF assms(1) _ assms(2)] assms able_less by (auto simp: good_def)
  then show ?thesis
  proof (cases rule: goodE)
    case fault
    then show ?thesis using False by (simp add: good_def worker_event_def)
  next
    case (result x)
    obtain c1 sock1 st1 where "x = (c1, sock1, st1)" by (cases x)
    then have r: "?r = Some (Inr (c1, sock1, st1))" "served c1" "able n st1" using result by simp_all
    obtain c2 sent2 where w: "handle_writable (ev_writes ev) c1 sent = (c2, sent2)" by fastforce
    have "served c2" if "cn_state c1 = CONN_WRITING"
      using writable_ok [OF w _ that] writable_bufs [OF w] r(2) by (simp add: served_def)
    moreover have "worker_event respond ev (c, sock, sent, st)
      = (if ev_out ev \<and> cn_state c1 = CONN_WRITING then Some (Inr (c2, sock1, sent2, st1)) else Some (Inr (c1, sock1, sent, st1)))"
      using False r(1) w by (simp add: worker_event_def)
    ultimately show ?thesis using r(2,3) by (simp add: good_def)
  qed
qed

lemma events_good:
  "served c \<Longrightarrow> able (length evs) st \<Longrightarrow>
   good (\<lambda>(c', sock', sent', st'). served c') (worker_events respond evs (c, sock, sent, st))"
proof (induction evs arbitrary: c sock sent st)
  case (Cons ev evs)
  have a: "able (Suc (length evs)) st" using Cons.prems(2) by simp
  from event_good [OF Cons.prems(1) a, of ev sock sent] show ?case
  proof (cases rule: goodE)
    case fault
    then show ?thesis by (simp add: good_def)
  next
    case (result x)
    obtain c1 sock1 sent1 st1 where x: "x = (c1, sock1, sent1, st1)" by (cases x)
    then show ?thesis using result Cons.IH [of c1 st1 sock1 sent1] by simp
  qed
qed (simp add: good_def)

end

section \<open>The echo handler as a service\<close>

definition echoing :: "unit responder" where
  "echoing buf rq st = Some (Inr (handle_echo buf rq, st))"

lemma fmt_length: "length (fmt_str s) \<le> length s"
  by (simp add: fmt_str_def length_takeWhile_le)

lemma echo_params_length:
  "(\<forall>x \<in> set xs. param_in buf x) \<Longrightarrow> length (echo_params buf xs) \<le> params_total xs + 6 * length xs"
proof (induction xs)
  case (Cons x xs)
  have "length (param_key buf x) \<le> pa_key_len x" "length (param_val buf x) \<le> pa_val_len x"
    using Cons.prems by (auto simp: param_key_def param_val_def in_buf_def param_in_def split: val_ptr.splits)
  then have "length (fmt_str (param_key buf x)) \<le> pa_key_len x" "length (fmt_str (param_val buf x)) \<le> pa_val_len x"
    using fmt_length le_trans by blast+
  moreover have "length (echo_params buf xs) \<le> params_total xs + 6 * length xs" using Cons by simp
  ultimately show ?case by (simp add: params_total_def)
qed (simp add: params_total_def)

lemma echo_fits:
  assumes "req_sound buf rq" "length buf \<le> BUFFER_SIZE"
  shows "length (resp_bytes (handle_echo buf rq)) \<le> RESP_BUFFER_SIZE"
proof (rule resp_length)
  have "length (echo_params buf (rq_params rq)) \<le> length buf + 48"
    using echo_params_length [of "rq_params rq" buf] assms(1) by (auto simp: req_sound_def req_in_def)
  then show "length (rs_body (handle_echo buf rq)) \<le> 32000"
    using assms(2) by (simp add: handle_echo_def BUFFER_SIZE_def)
qed (simp add: handle_echo_def)

interpretation echo: service echoing "\<lambda>n st. True"
  by unfold_locales (auto simp: echoing_def echo_fits)

end
