(* ===== verification/Http_Worker.thy ===== *)
theory Http_Worker
  imports Http_Service
begin

text \<open>
  The event loop of \<^verbatim>\<open>worker.c\<close> over all its connections: accepting, what \<open>epoll\<close> reports, the
  re-arming of the one-shot events, closing. The handlers of all connections share one state; since
  they hold \<open>pool_mutex\<close>, one round of the loop body is one step, and the worker threads of a
  server are one schedule of such steps.
\<close>

section \<open>Contexts and steps\<close>

text \<open>
  A context with the bytes waiting in its socket, those sent so far, and the events it is armed for.
  Slots of the pool are never given back, so the contexts are a list that only grows.
\<close>

record client =
  cl_conn :: conn
  cl_sock :: bytes
  cl_sent :: bytes
  cl_in :: bool
  cl_out :: bool

record 's worker =
  wk_clients :: "client list"
  wk_next :: nat
  wk_state :: 's

definition worker_start :: "'s \<Rightarrow> 's worker" where
  "worker_start st = \<lparr>wk_clients = [], wk_next = 0, wk_state = st\<rparr>"

text \<open>
  What happens next: a connection is accepted (with the outcomes of \<open>calloc\<close> and the two \<open>malloc\<close>s),
  bytes arrive, or \<open>epoll_wait\<close> reports \<open>EPOLLIN\<close> or \<open>EPOLLOUT\<close> for a context.
\<close>

datatype wk_action =
  Accept int bool bool bool
| Arrive nat bytes
| Ready nat bool bool "rd_event list" "wr_event list"

text \<open>The accept branch: the new context is armed for both directions.\<close>

definition accept_client :: "bool \<Rightarrow> bool \<Rightarrow> bool \<Rightarrow> int \<Rightarrow> 's worker \<Rightarrow> 's worker res" where
  "accept_client calloc_ok rbuf_ok wbuf_ok cfd w =
     rbind (accept_conn (wk_next w) calloc_ok rbuf_ok wbuf_ok cfd)
       (\<lambda>(c, n). Inr (w\<lparr>wk_clients := wk_clients w @
          [\<lparr>cl_conn = c, cl_sock = [], cl_sent = [], cl_in = True, cl_out = True\<rparr>], wk_next := n\<rparr>))"

text \<open>A closed context is taken out of the \<open>epoll\<close> set, any other re-armed for what it does next.\<close>

definition rearm :: "client \<Rightarrow> client" where
  "rearm cl =
     (if cn_state (cl_conn cl) = CONN_CLOSE then cl\<lparr>cl_in := False, cl_out := False\<rparr>
      else if cn_state (cl_conn cl) = CONN_READING then cl\<lparr>cl_in := True, cl_out := False\<rparr>
      else cl\<lparr>cl_in := False, cl_out := True\<rparr>)"

definition client_ready ::
    "'s responder \<Rightarrow> bool \<Rightarrow> bool \<Rightarrow> rd_event list \<Rightarrow> wr_event list \<Rightarrow> client \<Rightarrow> 's \<Rightarrow> (client \<times> 's) res option" where
  "client_ready respond i out reads writes cl st =
     map_option (map_sum id (\<lambda>(c, sock, sent, st').
         (rearm (cl\<lparr>cl_conn := c, cl_sock := sock, cl_sent := sent\<rparr>), st')))
       (worker_event respond \<lparr>ev_in = i, ev_out = out, ev_data = [], ev_reads = reads, ev_writes = writes\<rparr>
         (cl_conn cl, cl_sock cl, cl_sent cl, st))"

fun worker_act :: "(nat \<Rightarrow> 's responder) \<Rightarrow> wk_action \<Rightarrow> 's worker \<Rightarrow> 's worker res option" where
  "worker_act respond (Accept cfd calloc_ok rbuf_ok wbuf_ok) w = Some (accept_client calloc_ok rbuf_ok wbuf_ok cfd w)"
| "worker_act respond (Arrive k data) w =
     Some (Inr (w\<lparr>wk_clients := (wk_clients w)[k := (wk_clients w ! k)\<lparr>cl_sock := cl_sock (wk_clients w ! k) @ data\<rparr>]\<rparr>))"
| "worker_act respond (Ready k i out reads writes) w =
     map_option (map_sum id (\<lambda>(cl, st'). w\<lparr>wk_clients := (wk_clients w)[k := cl], wk_state := st'\<rparr>))
       (client_ready (respond k) i out reads writes (wk_clients w ! k) (wk_state w))"

text \<open>What can happen: \<open>epoll\<close> reports events of contexts armed for them.\<close>

fun enabled :: "wk_action \<Rightarrow> 's worker \<Rightarrow> bool" where
  "enabled (Accept cfd calloc_ok rbuf_ok wbuf_ok) w = True"
| "enabled (Arrive k data) w = (k < length (wk_clients w))"
| "enabled (Ready k i out reads writes) w =
     (k < length (wk_clients w) \<and> (i \<or> out) \<and> (i \<longrightarrow> cl_in (wk_clients w ! k)) \<and> (out \<longrightarrow> cl_out (wk_clients w ! k)))"

inductive worker_step :: "(nat \<Rightarrow> 's responder) \<Rightarrow> wk_action \<Rightarrow> 's worker \<Rightarrow> 's worker \<Rightarrow> bool" for respond where
  step: "enabled a w \<Longrightarrow> worker_act respond a w = Some (Inr w') \<Longrightarrow> worker_step respond a w w'"

text \<open>The schedules from the start of a worker, the last action first.\<close>

inductive worker_run :: "(nat \<Rightarrow> 's responder) \<Rightarrow> 's \<Rightarrow> wk_action list \<Rightarrow> 's worker \<Rightarrow> bool" for respond st where
  start: "worker_run respond st [] (worker_start st)"
| more: "worker_run respond st as w \<Longrightarrow> worker_step respond a w w' \<Longrightarrow> worker_run respond st (a # as) w'"

inductive_simps worker_step_simps: "worker_step respond a w w'"

inductive_cases accept_stepE: "worker_step respond (Accept cfd calloc_ok rbuf_ok wbuf_ok) w w'"
inductive_cases arrive_stepE: "worker_step respond (Arrive k data) w w'"
inductive_cases ready_stepE: "worker_step respond (Ready k i out reads writes) w w'"

section \<open>The invariant\<close>

text \<open>A context waits for exactly what its state needs; a new one also for \<open>EPOLLOUT\<close>.\<close>

definition waits_right :: "client \<Rightarrow> bool" where
  "waits_right cl \<longleftrightarrow>
     (case cn_state (cl_conn cl) of
        CONN_READING \<Rightarrow> cl_in cl
      | CONN_WRITING \<Rightarrow> cl_out cl \<and> \<not> cl_in cl \<and> owed (cl_conn cl) \<noteq> []
      | CONN_CLOSE \<Rightarrow> \<not> cl_in cl \<and> \<not> cl_out cl
      | CONN_PROXY \<Rightarrow> False)"

definition client_ok :: "client \<Rightarrow> bytes \<Rightarrow> bool" where
  "client_ok cl log \<longleftrightarrow> conn_ok (cl_conn cl) \<and> waits_right cl \<and> log = cl_sent cl @ owed (cl_conn cl)"

definition worker_ok :: "('s \<times> (nat \<Rightarrow> bytes)) worker \<Rightarrow> bool" where
  "worker_ok w \<longleftrightarrow>
     (\<forall>k < length (wk_clients w). client_ok (wk_clients w ! k) (snd (wk_state w) k))
     \<and> (\<forall>k \<ge> length (wk_clients w). snd (wk_state w) k = [])"

lemma waits_settled: "waits_right cl \<Longrightarrow> settled (cl_conn cl)"
  by (auto simp: waits_right_def settled_def split: conn_state.splits)

lemma rearm_simps [simp]: "cl_conn (rearm cl) = cl_conn cl" "cl_sent (rearm cl) = cl_sent cl" "cl_sock (rearm cl) = cl_sock cl"
  by (simp_all add: rearm_def)

lemma rearm_waits: "settled (cl_conn cl) \<Longrightarrow> waits_right (rearm cl)"
  by (auto simp: rearm_def waits_right_def settled_def split: conn_state.splits)

lemma client_ready_Inr:
  "client_ready respond i out reads writes cl st = Some (Inr (cl', st')) \<longleftrightarrow>
   (\<exists>c sock sent. worker_event respond \<lparr>ev_in = i, ev_out = out, ev_data = [], ev_reads = reads, ev_writes = writes\<rparr>
        (cl_conn cl, cl_sock cl, cl_sent cl, st) = Some (Inr (c, sock, sent, st'))
      \<and> cl' = rearm (cl\<lparr>cl_conn := c, cl_sock := sock, cl_sent := sent\<rparr>))"
  by (auto simp: client_ready_def map_sum_eq_Inr)

lemma client_ok_sock [simp]: "client_ok (cl\<lparr>cl_sock := sock\<rparr>) log = client_ok cl log"
  by (simp add: client_ok_def waits_right_def split: conn_state.split)

lemma accepted_client:
  assumes "accept_conn n0 calloc_ok rbuf_ok wbuf_ok cfd = Inr (c, n)"
  shows "conn_ok c" "owed c = []" "cn_state c = CONN_READING" "wbuf_ok \<or> \<not> rbuf_ok \<Longrightarrow> cn_rbuf c \<Longrightarrow> cn_wbuf c"
  using assms
  by (auto simp: accept_conn_def alloc_conn_def conn_zero_def conn_ok_def owed_def split: if_splits option.splits)

lemma ready_client_ok:
  assumes "client_ready (logged respond k) i out reads writes cl (st, logs) = Some (Inr (cl', st', logs'))"
    and "client_ok cl (logs k)"
  shows "client_ok cl' (logs' k) \<and> (\<forall>j. j \<noteq> k \<longrightarrow> logs' j = logs j)"
proof -
  let ?ev = "\<lparr>ev_in = i, ev_out = out, ev_data = [], ev_reads = reads, ev_writes = writes\<rparr>"
  obtain c sock sent where e: "worker_event (logged respond k) ?ev (cl_conn cl, cl_sock cl, cl_sent cl, (st, logs))
      = Some (Inr (c, sock, sent, (st', logs')))" "cl' = rearm (cl\<lparr>cl_conn := c, cl_sock := sock, cl_sent := sent\<rparr>)"
    using assms(1) by (auto simp: client_ready_Inr)
  have "settled c" using event_settled [OF e(1)] waits_settled assms(2) by (simp add: client_ok_def)
  then have "waits_right cl'" using rearm_waits e(2) by simp
  then show ?thesis using event_ok [OF e(1)] assms(2) e(2) by (simp add: client_ok_def)
qed

lemma worker_step_ok:
  assumes "worker_step (logged respond) a w w'" "worker_ok w"
  shows "worker_ok w'"
proof (cases a)
  case (Accept cfd calloc_ok rbuf_ok wbuf_ok)
  then obtain c n where a: "accept_conn (wk_next w) calloc_ok rbuf_ok wbuf_ok cfd = Inr (c, n)"
    "w' = w\<lparr>wk_clients := wk_clients w @
       [\<lparr>cl_conn = c, cl_sock = [], cl_sent = [], cl_in = True, cl_out = True\<rparr>], wk_next := n\<rparr>"
    using assms(1) by (auto simp: accept_client_def rbind_eq_Inr elim!: accept_stepE)
  have "client_ok \<lparr>cl_conn = c, cl_sock = [], cl_sent = [], cl_in = True, cl_out = True\<rparr> []"
    using accepted_client [OF a(1)] by (simp add: client_ok_def waits_right_def)
  then show ?thesis using assms(2) a(2) by (auto simp: worker_ok_def nth_append less_Suc_eq)
next
  case (Arrive k data)
  then have "k < length (wk_clients w)"
    "w' = w\<lparr>wk_clients := (wk_clients w)[k := (wk_clients w ! k)\<lparr>cl_sock := cl_sock (wk_clients w ! k) @ data\<rparr>]\<rparr>"
    using assms(1) by (auto elim!: arrive_stepE)
  then show ?thesis using assms(2) by (auto simp: worker_ok_def nth_list_update)
next
  case (Ready k i out reads writes)
  obtain st logs where w: "wk_state w = (st, logs)" by fastforce
  obtain cl st' logs' where r: "client_ready (logged respond k) i out reads writes (wk_clients w ! k) (st, logs) = Some (Inr (cl, st', logs'))"
    "w' = w\<lparr>wk_clients := (wk_clients w)[k := cl], wk_state := (st', logs')\<rparr>" "k < length (wk_clients w)"
    using assms(1) w unfolding Ready by (auto simp: map_sum_eq_Inr elim!: ready_stepE)
  show ?thesis
    using ready_client_ok [OF r(1)] assms(2) r(2,3) w by (auto simp: worker_ok_def nth_list_update)
qed

lemma worker_run_ok:
  assumes "worker_run (logged respond) (st, \<lambda>_. []) as w"
  shows "worker_ok w"
  using assms
proof (induction rule: worker_run.induct)
  case start
  then show ?case by (simp add: worker_ok_def worker_start_def)
next
  case (more as w a w')
  then show ?case using worker_step_ok by blast
qed

section \<open>Progress\<close>

text \<open>
  Contexts can be allocated: \<open>calloc\<close> succeeds once the pool is used up, and a read buffer comes with a
  write buffer.
\<close>

fun has_memory :: "wk_action \<Rightarrow> bool" where
  "has_memory (Accept cfd calloc_ok rbuf_ok wbuf_ok) \<longleftrightarrow> calloc_ok \<and> (rbuf_ok \<longrightarrow> wbuf_ok)"
| "has_memory _ \<longleftrightarrow> True"

fun is_ready :: "wk_action \<Rightarrow> bool" where
  "is_ready (Ready k i out reads writes) = True"
| "is_ready _ = False"

lemma accept_total:
  assumes "calloc_ok"
  shows "\<exists>c n. accept_conn next_slot calloc_ok rbuf_ok wbuf_ok cfd = Inr (c, n)"
  using assms by (auto simp: accept_conn_def alloc_conn_def)

context service
begin

definition all_served :: "'s worker \<Rightarrow> bool" where
  "all_served w \<longleftrightarrow> (\<forall>cl \<in> set (wk_clients w). served (cl_conn cl))"

lemma all_served_update:
  assumes "all_served w" "served (cl_conn cl)"
  shows "all_served (w\<lparr>wk_clients := (wk_clients w)[k := cl], wk_state := st\<rparr>)"
  using assms set_update_subset_insert [of "wk_clients w" k cl] by (auto simp: all_served_def)

text \<open>Every enabled action is taken and keeps the invariant; only a request costs the handlers something.\<close>

lemma act_good:
  assumes "enabled a w" "has_memory a" "all_served w" "able (n + (if is_ready a then 1 else 0)) (wk_state w)"
  shows "good (\<lambda>w'. all_served w' \<and> able n (wk_state w')) (worker_act (\<lambda>_. respond) a w)"
proof (cases a)
  case (Accept cfd calloc_ok rbuf_ok wbuf_ok)
  then obtain c m where c: "accept_conn (wk_next w) calloc_ok rbuf_ok wbuf_ok cfd = Inr (c, m)"
    using accept_total assms(2) by fastforce
  have "served c" using accepted_client [OF c] assms(2) Accept by (auto simp: served_def)
  then show ?thesis using Accept c assms(3,4) by (auto simp: good_def accept_client_def all_served_def)
next
  case (Arrive k data)
  then have "k < length (wk_clients w)" using assms(1) by simp
  then have "served (cl_conn (wk_clients w ! k))" using assms(3) by (simp add: all_served_def)
  then show ?thesis
    using Arrive assms(3,4) all_served_update [where w = w and k = k and st = "wk_state w"
      and cl = "(wk_clients w ! k)\<lparr>cl_sock := cl_sock (wk_clients w ! k) @ data\<rparr>"]
    by (simp add: good_def)
next
  case (Ready k i out reads writes)
  let ?cl = "wk_clients w ! k"
  let ?ev = "\<lparr>ev_in = i, ev_out = out, ev_data = [], ev_reads = reads, ev_writes = writes\<rparr>"
  have s: "served (cl_conn ?cl)" using assms(1,3) Ready by (simp add: all_served_def)
  have a: "able (Suc n) (wk_state w)" using assms(4) Ready by simp
  from event_good [OF s a, of ?ev "cl_sock ?cl" "cl_sent ?cl"] show ?thesis
  proof (cases rule: goodE)
    case fault
    then show ?thesis using Ready by (simp add: good_def client_ready_def)
  next
    case (result x)
    obtain c sock sent st' where x: "x = (c, sock, sent, st')" by (cases x)
    let ?cl' = "rearm (?cl\<lparr>cl_conn := c, cl_sock := sock, cl_sent := sent\<rparr>)"
    have "all_served (w\<lparr>wk_clients := (wk_clients w)[k := ?cl'], wk_state := st'\<rparr>)"
      using result(2) x by (intro all_served_update [OF assms(3)]) simp
    then show ?thesis using Ready result x by (simp add: good_def client_ready_def)
  qed
qed

lemma run_good:
  "worker_run (\<lambda>_. respond) st as w \<Longrightarrow> list_all has_memory as \<Longrightarrow> able (n + length (filter is_ready as)) st
   \<Longrightarrow> all_served w \<and> able n (wk_state w)"
proof (induction arbitrary: n rule: worker_run.induct)
  case start
  then show ?case by (simp add: all_served_def worker_start_def)
next
  case (more as w a w')
  let ?n = "n + (if is_ready a then 1 else 0)"
  have "all_served w \<and> able ?n (wk_state w)"
    using more.IH [of ?n] more.prems by (simp add: add.assoc split: if_splits)
  moreover have "enabled a w" "worker_act (\<lambda>_. respond) a w = Some (Inr w')" using more.hyps(2) by (simp_all add: worker_step_simps)
  ultimately show ?case using act_good [of a w n] more.prems(1) by (simp add: good_def)
qed

lemma run_progress:
  assumes "worker_run (\<lambda>_. respond) st as w" "list_all has_memory (a # as)"
    and "able (length (filter is_ready (a # as))) st" "enabled a w"
  shows "worker_act (\<lambda>_. respond) a w = Some (Inl SignedOverflow) \<or> (\<exists>w'. worker_step (\<lambda>_. respond) a w w')"
proof -
  let ?n = "0 + (if is_ready a then 1 else 0 :: nat)"
  have "?n + length (filter is_ready as) = length (filter is_ready (a # as))" by simp
  then have "all_served w \<and> able ?n (wk_state w)"
    using run_good [OF assms(1), of ?n] assms(2,3) by simp
  then have "good (\<lambda>w'. all_served w' \<and> able 0 (wk_state w')) (worker_act (\<lambda>_. respond) a w)"
    using act_good [OF assms(4)] assms(2) by simp
  then show ?thesis using assms(4) by (auto simp: good_def worker_step_simps)
qed

end

section \<open>Properties\<close>

text \<open>
  C8. Every client gets what was answered to it: in any schedule of accepts, arriving bytes and socket
  events over any number of connections, the bytes sent to a client, followed by those still in its
  write buffer, are the responses the handlers gave to its own requests, in order, none lost,
  repeated, torn or sent to another; its buffers are within their sizes; and it is armed for exactly
  what it does next: for reading, or for writing while something is left to write, or it is closed.
\<close>

theorem worker_sends_responses:
  assumes "worker_run (logged respond) (st, \<lambda>_. []) as w" "k < length (wk_clients w)"
  shows "conn_ok (cl_conn (wk_clients w ! k))
    \<and> snd (wk_state w) k = cl_sent (wk_clients w ! k) @ owed (cl_conn (wk_clients w ! k))
    \<and> waits_right (wk_clients w ! k)"
  using worker_run_ok [OF assms(1)] assms(2) by (simp add: worker_ok_def client_ok_def)

text \<open>Two clients; the second one's request arrives and is answered.\<close>

lemma socket_event:
  "cn_state c = CONN_READING \<Longrightarrow> worker_event respond (deliver input ks) (c, [], sent, st)
    = worker_event respond (deliver input ks\<lparr>ev_data := []\<rparr>) (c, input, sent, st)"
  unfolding worker_event_def deliver_def
  by (simp cong: if_cong option.case_cong sum.case_cong prod.case_cong)

lemma demo_run:
  "\<exists>w. worker_run (logged (\<lambda>_. pinging)) ((), \<lambda>_. [])
      [Ready 1 True True [Rd 22] (map Snd (replicate 32768 1)), Arrive 1 demo_request,
       Accept 7 True True True, Accept 6 True True True] w
    \<and> length (wk_clients w) = 2 \<and> cl_sent (wk_clients w ! 1) = resp_bytes handle_ping
    \<and> cl_sent (wk_clients w ! 0) = [] \<and> owed (cl_conn (wk_clients w ! 1)) = []"
proof -
  let ?r = "logged (\<lambda>_. pinging)" and ?st = "((), \<lambda>_. []) :: unit \<times> (nat \<Rightarrow> bytes)"
  let ?cl = "\<lambda>c s. \<lparr>cl_conn = c, cl_sock = s, cl_sent = [], cl_in = True, cl_out = True\<rparr>"
  let ?c6 = "demo_conn\<lparr>cn_fd := 6\<rparr>"
  let ?w1 = "\<lparr>wk_clients = [?cl ?c6 []], wk_next = 1, wk_state = ?st\<rparr>"
  let ?w2 = "\<lparr>wk_clients = [?cl ?c6 [], ?cl demo_conn []], wk_next = 2, wk_state = ?st\<rparr>"
  let ?w3 = "\<lparr>wk_clients = [?cl ?c6 [], ?cl demo_conn demo_request], wk_next = 2, wk_state = ?st\<rparr>"
  have a: "accept_conn 0 True True True 6 = Inr (?c6, 1)" "accept_conn 1 True True True 7 = Inr (demo_conn, 2)"
    by (simp_all add: accept_conn_def alloc_conn_def CONN_POOL_SIZE_def demo_conn_def conn_zero_def)
  have 1: "worker_step ?r (Accept 6 True True True) (worker_start ?st) ?w1"
    using a(1) by (simp add: worker_step_simps worker_start_def accept_client_def)
  have 2: "worker_step ?r (Accept 7 True True True) ?w1 ?w2"
    using a(2) by (simp add: worker_step_simps accept_client_def)
  have 3: "worker_step ?r (Arrive 1 demo_request) ?w2 ?w3"
    by (simp add: worker_step_simps)
  obtain rq where p: "parse_http_req (demo_request @ []) (cn_req demo_conn) = Inr (int (length demo_request), rq)"
    using demo_request_parses by blast
  have g: "?r 1 (demo_request @ []) rq ?st = Some (Inr (handle_ping, ((), (\<lambda>_. [])(1 := resp_bytes handle_ping))))"
    by (simp add: logged_def pinging_def)
  have "worker_event (?r 1) (deliver demo_request (replicate 32768 1)) (demo_conn, [], [], ?st)
      = Some (Inr (demo_conn\<lparr>cn_in := [], cn_req := rq\<rparr>, [], resp_bytes handle_ping, ((), (\<lambda>_. [])(1 := resp_bytes handle_ping))))"
    using served_round [where respond = "?r 1" and sent = "[]" and ks = "replicate 32768 1", OF demo_conn_facts(1) p _ _ g ping_length]
      length_demo_request by (auto simp: BUFFER_SIZE_def RESP_BUFFER_SIZE_def)
  then have e: "worker_event (?r 1) \<lparr>ev_in = True, ev_out = True, ev_data = [], ev_reads = [Rd 22], ev_writes = map Snd (replicate 32768 1)\<rparr>
        (demo_conn, demo_request, [], ?st)
      = Some (Inr (demo_conn\<lparr>cn_in := [], cn_req := rq\<rparr>, [], resp_bytes handle_ping, ((), (\<lambda>_. [])(1 := resp_bytes handle_ping))))"
    using length_demo_request socket_event [of demo_conn "?r 1" demo_request "replicate 32768 1" "[]" ?st] demo_conn_facts(1)
    by (simp add: deliver_def conn_idle_def)
  let ?cl4 = "rearm (\<lparr>cl_conn = demo_conn\<lparr>cn_in := [], cn_req := rq\<rparr>, cl_sock = [], cl_sent = resp_bytes handle_ping, cl_in = True, cl_out = True\<rparr>)"
  let ?w4 = "\<lparr>wk_clients = [?cl ?c6 [], ?cl4], wk_next = 2, wk_state = ((), (\<lambda>_. [])(1 := resp_bytes handle_ping))\<rparr>"
  have 4: "worker_step ?r (Ready 1 True True [Rd 22] (map Snd (replicate 32768 1))) ?w3 ?w4"
    using e by (simp add: worker_step_simps client_ready_def)
  have "worker_run ?r ?st [Ready 1 True True [Rd 22] (map Snd (replicate 32768 1)), Arrive 1 demo_request,
       Accept 7 True True True, Accept 6 True True True] ?w4"
    by (rule worker_run.more [OF worker_run.more [OF worker_run.more [OF worker_run.more [OF worker_run.start 1] 2] 3] 4])
  then show ?thesis by (intro exI [of _ ?w4]) (simp add: owed_def demo_conn_def conn_zero_def)
qed

theorem worker_sends_responses_witness:
  "\<exists>w as. worker_run (logged (\<lambda>_. pinging)) ((), \<lambda>_. []) as w \<and> cl_sent (wk_clients w ! 1) = resp_bytes handle_ping
    \<and> snd (wk_state w) 1 = resp_bytes handle_ping \<and> waits_right (wk_clients w ! 1)"
proof -
  obtain w as where w: "worker_run (logged (\<lambda>_. pinging)) ((), \<lambda>_. []) as w" "1 < length (wk_clients w)"
    "cl_sent (wk_clients w ! 1) = resp_bytes handle_ping" "owed (cl_conn (wk_clients w ! 1)) = []"
    using demo_run by auto
  then show ?thesis using worker_sends_responses [OF w(1,2)] by auto
qed

text \<open>
  C19. No response gets stuck: in any schedule, a client whose connection reads has been sent every
  response to its requests and is armed to read on; one whose connection writes is one step away from
  that: \<open>epoll\<close> can report it writable, and if the client takes what it is sent, that step sends all the
  rest and turns the connection to reading.
\<close>

theorem worker_delivers:
  assumes "worker_run (logged respond) (st, \<lambda>_. []) as w" "k < length (wk_clients w)"
    and "RESP_BUFFER_SIZE \<le> length ks"
  shows "(cn_state (cl_conn (wk_clients w ! k)) = CONN_READING \<longrightarrow>
      cl_sent (wk_clients w ! k) = snd (wk_state w) k \<and> cl_in (wk_clients w ! k))
    \<and> (cn_state (cl_conn (wk_clients w ! k)) = CONN_WRITING \<longrightarrow>
      (\<exists>w'. worker_step (logged respond) (Ready k False True [] (map Snd ks)) w w'
        \<and> cl_sent (wk_clients w' ! k) = snd (wk_state w) k \<and> wk_state w' = wk_state w
        \<and> cn_state (cl_conn (wk_clients w' ! k)) = CONN_READING \<and> cl_in (wk_clients w' ! k)))"
proof (intro conjI impI)
  let ?cl = "wk_clients w ! k"
  let ?c = "cl_conn ?cl"
  have ok: "conn_ok ?c" "waits_right ?cl" "snd (wk_state w) k = cl_sent ?cl @ owed ?c"
    using worker_run_ok [OF assms(1)] assms(2) by (simp_all add: worker_ok_def client_ok_def)
  {
    assume "cn_state ?c = CONN_READING"
    then show "cl_sent ?cl = snd (wk_state w) k" "cl_in ?cl"
      using ok by (simp_all add: conn_ok_def owed_def waits_right_def)
  }
  assume s: "cn_state ?c = CONN_WRITING"
  have "length (owed ?c) \<le> length ks" using ok(1) assms(3) by (auto simp: conn_ok_def owed_def)
  note f = writable_finishes [OF ok(1) this, of "cl_sent ?cl"]
  let ?cl' = "rearm (?cl\<lparr>cl_conn := ?c\<lparr>cn_out := [], cn_pos := 0, cn_state := CONN_READING\<rparr>, cl_sent := snd (wk_state w) k\<rparr>)"
  let ?w' = "w\<lparr>wk_clients := (wk_clients w)[k := ?cl']\<rparr>"
  have "client_ready (logged respond k) False True [] (map Snd ks) ?cl (wk_state w) = Some (Inr (?cl', wk_state w))"
    using s f ok(3) by (simp add: client_ready_Inr worker_event_def)
  moreover have "cl_out ?cl" using ok(2) s by (simp add: waits_right_def)
  ultimately have "worker_step (logged respond) (Ready k False True [] (map Snd ks)) w ?w'"
    using assms(2) by (simp add: worker_step_simps)
  then show "\<exists>w'. worker_step (logged respond) (Ready k False True [] (map Snd ks)) w w'
      \<and> cl_sent (wk_clients w' ! k) = snd (wk_state w) k \<and> wk_state w' = wk_state w
      \<and> cn_state (cl_conn (wk_clients w' ! k)) = CONN_READING \<and> cl_in (wk_clients w' ! k)"
    using assms(2) by (intro exI [of _ ?w']) (simp add: rearm_def)
qed

text \<open>A client whose request has been read and not yet answered.\<close>

lemma demo_writing:
  "\<exists>w. worker_run (logged (\<lambda>_. pinging)) ((), \<lambda>_. [])
      [Ready 0 True False [Rd 22] [], Arrive 0 demo_request, Accept 7 True True True] w
    \<and> 0 < length (wk_clients w) \<and> cn_state (cl_conn (wk_clients w ! 0)) = CONN_WRITING
    \<and> snd (wk_state w) 0 = resp_bytes handle_ping \<and> cl_sent (wk_clients w ! 0) = []"
proof -
  let ?r = "logged (\<lambda>_. pinging)" and ?st = "((), \<lambda>_. []) :: unit \<times> (nat \<Rightarrow> bytes)"
  let ?st' = "((), (\<lambda>_. [])(0 := resp_bytes handle_ping)) :: unit \<times> (nat \<Rightarrow> bytes)"
  let ?cl = "\<lambda>s. \<lparr>cl_conn = demo_conn, cl_sock = s, cl_sent = [], cl_in = True, cl_out = True\<rparr>"
  let ?w = "\<lambda>s. \<lparr>wk_clients = [?cl s], wk_next = 1, wk_state = ?st\<rparr>"
  have 1: "worker_step ?r (Accept 7 True True True) (worker_start ?st) (?w [])"
    using demo_conn_facts(2) by (simp add: worker_step_simps worker_start_def accept_client_def)
  have 2: "worker_step ?r (Arrive 0 demo_request) (?w []) (?w demo_request)"
    by (simp add: worker_step_simps)
  obtain rq where p: "parse_http_req (demo_request @ []) (cn_req demo_conn) = Inr (int (length demo_request), rq)"
    using demo_request_parses by blast
  have g: "?r 0 (demo_request @ []) rq ?st = Some (Inr (handle_ping, ?st'))" by (simp add: logged_def pinging_def)
  have "handle_readable (?r 0) [Rd 22] demo_conn demo_request ?st = Some (Inr (answering demo_conn [] rq handle_ping, [], ?st'))"
    using request_read [where respond = "?r 0", OF demo_conn_facts(1) p _ _ g ping_length] length_demo_request
    by (simp add: BUFFER_SIZE_def)
  moreover have "cn_state demo_conn = CONN_READING" using demo_conn_facts(1) by (simp add: conn_idle_def)
  ultimately have "client_ready (?r 0) True False [Rd 22] [] (?cl demo_request) ?st
      = Some (Inr (rearm ((?cl [])\<lparr>cl_conn := answering demo_conn [] rq handle_ping\<rparr>), ?st'))"
    by (simp add: client_ready_Inr worker_event_def)
  then have 3: "worker_step ?r (Ready 0 True False [Rd 22] []) (?w demo_request)
      \<lparr>wk_clients = [rearm ((?cl [])\<lparr>cl_conn := answering demo_conn [] rq handle_ping\<rparr>)], wk_next = 1, wk_state = ?st'\<rparr>"
    by (simp add: worker_step_simps)
  show ?thesis
    using worker_run.more [OF worker_run.more [OF worker_run.more [OF worker_run.start 1] 2] 3]
    by (intro exI conjI) (assumption, simp_all add: answering_def)
qed

theorem worker_delivers_witness:
  "\<exists>w w'. cl_sent (wk_clients w ! 0) = []
    \<and> worker_step (logged (\<lambda>_. pinging)) (Ready 0 False True [] (map Snd (replicate 32768 9))) w w'
    \<and> cl_sent (wk_clients w' ! 0) = resp_bytes handle_ping"
proof -
  obtain w where w: "worker_run (logged (\<lambda>_. pinging)) ((), \<lambda>_. [])
      [Ready 0 True False [Rd 22] [], Arrive 0 demo_request, Accept 7 True True True] w"
    "0 < length (wk_clients w)" "cn_state (cl_conn (wk_clients w ! 0)) = CONN_WRITING"
    "snd (wk_state w) 0 = resp_bytes handle_ping" "cl_sent (wk_clients w ! 0) = []"
    using demo_writing by blast
  then show ?thesis using worker_delivers [OF w(1,2), of "replicate 32768 9"] by (auto simp: RESP_BUFFER_SIZE_def)
qed

end
