(* ===== verification/Server_Linear.thy ===== *)
theory Server_Linear
  imports Server_Session Http_Worker
begin

text \<open>
  The whole server as one map that many clients use at once: every schedule of the event loop of
  \<^verbatim>\<open>worker.c\<close> over any number of connections, with requests cut, delayed and interleaved in any way, is
  a sequential run of the requests answered, and the log of \<^verbatim>\<open>aof.c\<close> is that run's stores.
\<close>

text \<open>The step of the server and of what it has answered, when it runs \<open>d\<close> for the client \<open>k\<close>.\<close>

abbreviation answering_routes :: "nat \<Rightarrow> (server \<times> (nat \<Rightarrow> bytes)) responder" where
  "answering_routes \<equiv> logged (\<lambda>_. route_req server_routes)"

definition runs :: "nat \<Rightarrow> client_cmd \<Rightarrow> server \<times> (nat \<Rightarrow> bytes) \<Rightarrow> server \<times> (nat \<Rightarrow> bytes) \<Rightarrow> bool" where
  "runs k d s s' \<longleftrightarrow> server_ok (fst s') \<and> server_view (fst s') = snd (map_step d (server_view (fst s)))
     \<and> server_load (fst s') \<le> server_load (fst s) + 1 \<and> server_bound (fst s') = server_bound (fst s)
     \<and> log_grows (fst s) (fst s') (cmd_log d)
     \<and> snd s' = (snd s)(k := snd s k @ resp_bytes (fst (map_step d (server_view (fst s)))))"

lemma cmd_bytes_nonempty [simp]: "cmd_bytes d \<noteq> []"
  by (cases d) (simp_all add: put_request_def get_request_def)

lemma serve_whole:
  assumes "serve (answering_routes k) c s = Some (Inr (answered, c', s'))"
    and "cmd_ok d" "cn_in c = cmd_bytes d @ rest" "server_ok (fst s)" "server_load (fst s) < server_bound (fst s)"
  shows "answered \<and> cn_in c' = rest \<and> runs k d s s'"
proof -
  obtain rq where p: "parse_http_req (cn_in c) (cn_req c) = Inr (int (length (cmd_bytes d)), rq)"
    and r: "route_req server_routes (cn_in c) rq = exec_cmd d"
    using handledD [OF cmd_handled [OF assms(2)]] assms(3) by metis
  obtain st' where e: "exec_cmd d (fst s) = Some (Inr (fst (map_step d (server_view (fst s))), st'))" "server_ok st'"
    "server_view st' = snd (map_step d (server_view (fst s)))" "server_load st' \<le> server_load (fst s) + 1"
    "server_bound st' = server_bound (fst s)" "log_grows (fst s) st' (cmd_log d)"
    using exec_spec [OF assms(4,5,2)] by blast
  have g: "answering_routes k (cn_in c) rq s = Some (Inr (fst (map_step d (server_view (fst s))), st',
      (snd s)(k := snd s k @ resp_bytes (fst (map_step d (server_view (fst s)))))))"
    using r e(1) by (simp add: logged_def case_prod_unfold)
  have n: "\<not> int (length (cmd_bytes d)) \<le> 0" by simp
  have "answered \<and> cn_in c' = rest \<and> s' = (st', (snd s)(k := snd s k @ resp_bytes (fst (map_step d (server_view (fst s))))))"
    using assms(1,3) p g n by (auto simp: serve_def rbind_eq_Inr build_resp_def split: if_splits)
  then show ?thesis using e by (simp add: runs_def)
qed

lemma serve_part:
  assumes "serve (answering_routes k) c s = Some (Inr (answered, c', s'))"
    and "\<exists>rq. parse_http_req (cn_in c) (cn_req c) = Inr (- 1, rq)"
  shows "\<not> answered \<and> cn_in c' = cn_in c \<and> s' = s"
  using assms by (auto simp: serve_def)

lemma serve_cmd:
  assumes "serve (answering_routes k) c s = Some (Inr (answered, c', s'))"
    and "list_all cmd_ok cs" "concat (map cmd_bytes cs) = cn_in c @ rest"
    and "server_ok (fst s)" "server_load (fst s) < server_bound (fst s)"
  shows "\<not> answered \<and> cn_in c' = cn_in c \<and> s' = s
    \<or> answered \<and> (\<exists>d ds. cs = d # ds \<and> cn_in c = cmd_bytes d @ cn_in c' \<and> runs k d s s')"
proof (cases cs)
  case Nil
  then have "cn_in c = []" using assms(3) by simp
  then have "parse_http_req (cn_in c) (cn_req c) = Inr (- 1, cn_req c)" by (simp add: parse_http_req_def)
  then show ?thesis using serve_part [OF assms(1)] by blast
next
  case (Cons d ds)
  have d: "cmd_ok d" using assms(2) Cons by simp
  consider (part) missing where "cmd_bytes d = cn_in c @ missing" "missing \<noteq> []" | (whole) r where "cn_in c = cmd_bytes d @ r"
    using assms(3) Cons append_eq_append_conv2 [of "cmd_bytes d" "concat (map cmd_bytes ds)" "cn_in c" rest]
    by simp (metis append_Nil2)
  then show ?thesis
  proof cases
    case part
    then show ?thesis using serve_part [OF assms(1) cmd_waits [OF d]] by blast
  next
    case whole
    then show ?thesis using serve_whole [OF assms(1) d whole assms(4,5)] Cons by blast
  qed
qed

text \<open>What one call of the read handler, and one event, does with the bytes waiting.\<close>

definition progress :: "nat \<Rightarrow> client_cmd list \<Rightarrow> bytes \<Rightarrow> bytes \<Rightarrow> server \<times> (nat \<Rightarrow> bytes) \<Rightarrow> server \<times> (nat \<Rightarrow> bytes) \<Rightarrow> bool" where
  "progress k cs bs bs' s s' \<longleftrightarrow> bs' = bs \<and> s' = s \<or> (\<exists>d ds. cs = d # ds \<and> bs = cmd_bytes d @ bs' \<and> runs k d s s')"

lemma readable_cmd:
  "handle_readable (answering_routes k) evs c sock s = Some (Inr (c', sock', s'))
   \<Longrightarrow> list_all cmd_ok cs \<Longrightarrow> concat (map cmd_bytes cs) = cn_in c @ sock @ rest
   \<Longrightarrow> server_ok (fst s) \<Longrightarrow> server_load (fst s) < server_bound (fst s)
   \<Longrightarrow> progress k cs (cn_in c @ sock) (cn_in c' @ sock') s s'"
proof (induction evs arbitrary: c sock)
  case Nil
  then show ?case by (subst (asm) handle_readable.simps) (auto simp: progress_def split: if_splits)
next
  case (Cons e es)
  show ?case
  proof (cases "BUFFER_SIZE \<le> length (cn_in c) \<or> sock = [] \<or> \<not> cn_rbuf c \<or> (\<forall>n. e \<noteq> Rd n)")
    case True
    then show ?thesis using Cons.prems(1)
      by (subst (asm) handle_readable.simps) (auto simp: progress_def split: if_splits rd_event.splits)
  next
    case False
    then obtain n where n: "e = Rd n" "\<not> BUFFER_SIZE \<le> length (cn_in c)" "sock \<noteq> []" "cn_rbuf c" by blast
    let ?n = "chunk_size n c sock"
    let ?c = "c\<lparr>cn_in := cn_in c @ take ?n sock\<rparr>"
    obtain answered c1 s1 where s: "serve (answering_routes k) ?c s = Some (Inr (answered, c1, s1))"
      "if answered then (c', sock', s') = (c1, drop ?n sock, s1)
       else handle_readable (answering_routes k) es c1 (drop ?n sock) s1 = Some (Inr (c', sock', s'))"
      using Cons.prems(1) n
      by (subst (asm) handle_readable.simps) (auto simp: Let_def split: option.splits sum.splits prod.splits if_splits)
    have all: "cn_in ?c @ drop ?n sock = cn_in c @ sock" by simp
    then have r: "concat (map cmd_bytes cs) = cn_in ?c @ (drop ?n sock @ rest)" using Cons.prems(3) by simp
    from serve_cmd [OF s(1) Cons.prems(2) r Cons.prems(4,5)] show ?thesis
    proof (elim disjE conjE exE)
      assume a: "\<not> answered" "cn_in c1 = cn_in ?c" "s1 = s"
      then have "progress k cs (cn_in c1 @ drop ?n sock) (cn_in c' @ sock') s s'"
        using Cons.IH [of c1 "drop ?n sock"] s(2) Cons.prems(2,4,5) r by simp
      then show ?thesis using a(2) all by simp
    next
      fix d ds
      assume a: answered "cs = d # ds" "cn_in ?c = cmd_bytes d @ cn_in c1" "runs k d s s1"
      have "cn_in c @ sock = cmd_bytes d @ cn_in c1 @ drop ?n sock" using a(3) all by (metis append_assoc)
      then show ?thesis using a s(2) by (auto simp: progress_def)
    qed
  qed
qed

lemma writable_keeps_in: "handle_writable evs c sent = (c', sent') \<Longrightarrow> cn_in c' = cn_in c"
  by (induction evs c sent rule: handle_writable.induct, subst (asm) handle_writable.simps)
    (auto simp: write_done_def Let_def split: if_splits list.splits wr_event.splits)

lemma ready_cmd:
  assumes "client_ready (answering_routes k) i out reads writes cl s = Some (Inr (cl', s'))"
    and "list_all cmd_ok cs" "concat (map cmd_bytes cs) = cn_in (cl_conn cl) @ cl_sock cl @ rest"
    and "server_ok (fst s)" "server_load (fst s) < server_bound (fst s)"
  shows "progress k cs (cn_in (cl_conn cl) @ cl_sock cl) (cn_in (cl_conn cl') @ cl_sock cl') s s'"
proof -
  let ?ev = "\<lparr>ev_in = i, ev_out = out, ev_data = [], ev_reads = reads, ev_writes = writes\<rparr>"
  obtain c sock sent where e: "worker_event (answering_routes k) ?ev (cl_conn cl, cl_sock cl, cl_sent cl, s) = Some (Inr (c, sock, sent, s'))"
    "cl' = rearm (cl\<lparr>cl_conn := c, cl_sock := sock, cl_sent := sent\<rparr>)"
    using assms(1) unfolding client_ready_Inr by blast
  have "progress k cs (cn_in (cl_conn cl) @ cl_sock cl) (cn_in c @ sock) s s'"
  proof (cases "cn_state (cl_conn cl) = CONN_READING \<and> i")
    case True
    then obtain c1 where "handle_readable (answering_routes k) reads (cl_conn cl) (cl_sock cl) s = Some (Inr (c1, sock, s'))"
      "cn_in c = cn_in c1"
      using e(1) by (auto simp: worker_event_def dest: writable_keeps_in split: option.splits sum.splits prod.splits if_splits)
    then show ?thesis using readable_cmd [OF _ assms(2-5)] by simp
  next
    case False
    then show ?thesis
      using e(1) by (auto simp: worker_event_def progress_def dest: writable_keeps_in split: prod.splits if_splits)
  qed
  then show ?thesis using e(2) by simp
qed

section \<open>Schedules\<close>

text \<open>The bytes that reached the client \<open>k\<close>'s socket, in order.\<close>

fun arrived :: "nat \<Rightarrow> wk_action list \<Rightarrow> bytes" where
  "arrived k [] = []"
| "arrived k (Arrive j data # as) = arrived k as @ (if j = k then data else [])"
| "arrived k (_ # as) = arrived k as"

text \<open>Every client sends (a beginning of) the requests \<open>cmds k\<close>, one after the other.\<close>

definition sends :: "(nat \<Rightarrow> client_cmd list) \<Rightarrow> wk_action list \<Rightarrow> bool" where
  "sends cmds as \<longleftrightarrow> (\<forall>k. list_all cmd_ok (cmds k) \<and> (\<exists>rest. concat (map cmd_bytes (cmds k)) = arrived k as @ rest))"

text \<open>The invariant: the sequential run \<open>run\<close> accounts for all that the clients sent and the server did.\<close>

definition client_accounts :: "(nat \<Rightarrow> client_cmd list) \<Rightarrow> wk_action list \<Rightarrow> seq_run \<Rightarrow> client list \<Rightarrow> bool" where
  "client_accounts cmds as run cls \<longleftrightarrow>
     (\<forall>k. \<exists>rest. cmds k = cmds_of k run @ rest)
     \<and> (\<forall>k < length cls. arrived k as = concat (map cmd_bytes (cmds_of k run)) @ cn_in (cl_conn (cls ! k)) @ cl_sock (cls ! k))
     \<and> (\<forall>k \<ge> length cls. arrived k as = [] \<and> cmds_of k run = [])"

definition server_accounts :: "server \<Rightarrow> seq_run \<Rightarrow> server \<times> (nat \<Rightarrow> bytes) \<Rightarrow> bool" where
  "server_accounts st run s \<longleftrightarrow> server_ok (fst s) \<and> server_view (fst s) = map_after run (server_view st)
     \<and> server_load (fst s) \<le> server_load st + length run \<and> server_bound (fst s) = server_bound st
     \<and> log_grows st (fst s) (log_of run) \<and> (\<forall>k. snd s k = answers_to k run (server_view st))"

lemma server_accounts_start: "server_ok st \<Longrightarrow> server_accounts st [] (st, \<lambda>_. [])"
  by (simp add: server_accounts_def log_grows_refl)

lemma server_accounts_runs:
  assumes "server_accounts st run s" "runs k d s s'"
  shows "server_accounts st (run @ [(k, d)]) s'"
proof -
  have "log_grows st (fst s') (log_of run @ cmd_log d)"
    using assms log_grows_trans by (auto simp: server_accounts_def runs_def)
  then show ?thesis using assms
    by (auto simp: server_accounts_def runs_def map_after_snoc answers_to_snoc)
qed

lemma arrived_more: "\<exists>data. arrived k (a # as) = arrived k as @ data"
  by (cases a) auto

lemma sends_before: "sends cmds (a # as) \<Longrightarrow> sends cmds as"
  unfolding sends_def using arrived_more append_assoc by metis

lemma account_ready:
  assumes "client_ready (answering_routes k) i out reads writes (wk_clients w ! k) (wk_state w) = Some (Inr (cl', s'))"
    and "k < length (wk_clients w)" "sends cmds as" "client_accounts cmds as run (wk_clients w)"
    and "server_accounts st run (wk_state w)" "server_load st + length run < server_bound st"
  shows "\<exists>run2. length run2 \<le> 1 \<and> client_accounts cmds as (run @ run2) ((wk_clients w)[k := cl']) \<and> server_accounts st (run @ run2) s'"
proof -
  let ?cl = "wk_clients w ! k"
  obtain cs where cs: "cmds k = cmds_of k run @ cs" using assms(4) unfolding client_accounts_def by blast
  obtain rest where r: "concat (map cmd_bytes (cmds k)) = arrived k as @ rest" and ok: "list_all cmd_ok cs"
    using assms(3) cs by (metis list_all_append sends_def)
  have a: "arrived k as = concat (map cmd_bytes (cmds_of k run)) @ cn_in (cl_conn ?cl) @ cl_sock ?cl"
    using assms(2,4) by (simp add: client_accounts_def)
  have "concat (map cmd_bytes cs) = cn_in (cl_conn ?cl) @ cl_sock ?cl @ rest" using r a cs by simp
  moreover have "server_ok (fst (wk_state w))" "server_load (fst (wk_state w)) < server_bound (fst (wk_state w))"
    using assms(5,6) by (auto simp: server_accounts_def)
  ultimately have "progress k cs (cn_in (cl_conn ?cl) @ cl_sock ?cl) (cn_in (cl_conn cl') @ cl_sock cl') (wk_state w) s'"
    using ready_cmd [OF assms(1) ok] by blast
  then show ?thesis
  proof (unfold progress_def, elim disjE conjE exE)
    assume "cn_in (cl_conn cl') @ cl_sock cl' = cn_in (cl_conn ?cl) @ cl_sock ?cl" "s' = wk_state w"
    then show ?thesis using assms(2,4,5)
      by (intro exI [of _ "[]"]) (auto simp: client_accounts_def nth_list_update)
  next
    fix d ds
    assume d: "cs = d # ds" "cn_in (cl_conn ?cl) @ cl_sock ?cl = cmd_bytes d @ cn_in (cl_conn cl') @ cl_sock cl'"
      "runs k d (wk_state w) s'"
    have "client_accounts cmds as (run @ [(k, d)]) ((wk_clients w)[k := cl'])"
      using assms(2,4) d(1,2) cs by (auto simp: client_accounts_def nth_list_update)
    then show ?thesis using server_accounts_runs [OF assms(5) d(3)] by (intro exI [of _ "[(k, d)]"]) simp
  qed
qed

lemma account_step:
  assumes "worker_step answering_routes a w w'" "sends cmds (a # as)" "client_accounts cmds as run (wk_clients w)"
    and "server_accounts st run (wk_state w)" "server_load st + length run + (if is_ready a then 1 else 0) \<le> server_bound st"
  shows "\<exists>run2. length run2 \<le> (if is_ready a then 1 else 0) \<and> client_accounts cmds (a # as) (run @ run2) (wk_clients w')
    \<and> server_accounts st (run @ run2) (wk_state w')"
proof (cases a)
  case (Accept cfd calloc_ok rbuf_ok wbuf_ok)
  then obtain c n where c: "accept_conn (wk_next w) calloc_ok rbuf_ok wbuf_ok cfd = Inr (c, n)"
    "w' = w\<lparr>wk_clients := wk_clients w @
       [\<lparr>cl_conn = c, cl_sock = [], cl_sent = [], cl_in = True, cl_out = True\<rparr>], wk_next := n\<rparr>"
    using assms(1) by (auto simp: accept_client_def rbind_eq_Inr elim!: accept_stepE)
  have "cn_in c = []" using c(1) by (auto simp: accept_conn_def alloc_conn_def conn_zero_def split: if_splits option.splits)
  then show ?thesis using assms(3,4) c(2) Accept
    by (intro exI [of _ "[]"]) (auto simp: client_accounts_def nth_append less_Suc_eq)
next
  case (Arrive k data)
  then have "k < length (wk_clients w)"
    "w' = w\<lparr>wk_clients := (wk_clients w)[k := (wk_clients w ! k)\<lparr>cl_sock := cl_sock (wk_clients w ! k) @ data\<rparr>]\<rparr>"
    using assms(1) by (auto elim!: arrive_stepE)
  then show ?thesis using assms(3,4) Arrive
    by (intro exI [of _ "[]"]) (auto simp: client_accounts_def nth_list_update)
next
  case (Ready k i out reads writes)
  then obtain cl s' where r: "client_ready (answering_routes k) i out reads writes (wk_clients w ! k) (wk_state w) = Some (Inr (cl, s'))"
    "w' = w\<lparr>wk_clients := (wk_clients w)[k := cl], wk_state := s'\<rparr>" "k < length (wk_clients w)"
    using assms(1) by (auto simp: map_sum_eq_Inr elim!: ready_stepE)
  have room: "server_load st + length run < server_bound st" using assms(5) Ready by simp
  obtain run2 where "length run2 \<le> 1" "client_accounts cmds as (run @ run2) ((wk_clients w)[k := cl])"
    "server_accounts st (run @ run2) s'"
    using account_ready [OF r(1,3) sends_before [OF assms(2)] assms(3,4) room] by blast
  then show ?thesis using r(2) Ready by (intro exI [of _ run2]) (auto simp: client_accounts_def)
qed

lemma run_accounts:
  assumes "worker_run answering_routes (st, \<lambda>_. []) as w" "server_ok st"
    and "server_load st + length (filter is_ready as) \<le> server_bound st" "sends cmds as"
  shows "\<exists>run. length run \<le> length (filter is_ready as) \<and> client_accounts cmds as run (wk_clients w)
    \<and> server_accounts st run (wk_state w)
    \<and> (\<forall>pre post. as = post @ pre \<longrightarrow> (\<exists>w1 run1 run2. run = run1 @ run2 \<and> worker_run answering_routes (st, \<lambda>_. []) pre w1
          \<and> client_accounts cmds pre run1 (wk_clients w1) \<and> server_accounts st run1 (wk_state w1)))"
  using assms
proof (induction rule: worker_run.induct)
  case start
  have "client_accounts cmds [] [] (wk_clients (worker_start (st, \<lambda>_. [])))"
    by (simp add: client_accounts_def worker_start_def)
  moreover have "server_accounts st [] (wk_state (worker_start (st, \<lambda>_. [])))"
    using server_accounts_start [OF start(1)] by (simp add: worker_start_def)
  ultimately show ?case using worker_run.start [of answering_routes] by (intro exI [of _ "[]"]) auto
next
  case (more as w a w')
  have s: "sends cmds as" using sends_before more.prems(3) .
  have l: "server_load st + length (filter is_ready as) \<le> server_bound st" using more.prems(2) by (simp split: if_splits)
  obtain run where run: "length run \<le> length (filter is_ready as)" "client_accounts cmds as run (wk_clients w)"
    "server_accounts st run (wk_state w)"
    "\<And>pre post. as = post @ pre \<Longrightarrow> \<exists>w1 run1 run2. run = run1 @ run2 \<and> worker_run answering_routes (st, \<lambda>_. []) pre w1
       \<and> client_accounts cmds pre run1 (wk_clients w1) \<and> server_accounts st run1 (wk_state w1)"
    using more.IH [OF more.prems(1) l s] by blast
  have "server_load st + length run + (if is_ready a then 1 else 0) \<le> server_bound st"
    using run(1) more.prems(2) by (simp split: if_splits)
  then obtain run2 where run2: "length run2 \<le> (if is_ready a then 1 else 0)"
    "client_accounts cmds (a # as) (run @ run2) (wk_clients w')" "server_accounts st (run @ run2) (wk_state w')"
    using account_step [OF more.hyps(2) more.prems(3) run(2,3)] by blast
  have w': "worker_run answering_routes (st, \<lambda>_. []) (a # as) w'" by (rule worker_run.more [OF more.hyps])
  have "\<exists>w1 r1 r2. run @ run2 = r1 @ r2 \<and> worker_run answering_routes (st, \<lambda>_. []) pre w1
       \<and> client_accounts cmds pre r1 (wk_clients w1) \<and> server_accounts st r1 (wk_state w1)" if "a # as = post @ pre" for pre post
  proof (cases post)
    case Nil
    then show ?thesis using that run2 w' by (intro exI [of _ w'] exI [of _ "run @ run2"] exI [of _ "[]"]) simp
  next
    case (Cons b bs)
    then have "as = bs @ pre" using that by simp
    from run(4) [OF this] show ?thesis by (metis append_assoc)
  qed
  moreover have "length (run @ run2) \<le> length (filter is_ready (a # as))"
    using run(1) run2(1) by (simp split: if_splits)
  ultimately show ?case using run2 by (intro exI [of _ "run @ run2"]) blast
qed

section \<open>Properties\<close>

text \<open>
  \<open>run\<close> explains the worker \<open>w\<close> after the schedule \<open>as\<close>: it has the commands of each client in the order the
  client sent them, what a client was sent and is owed is what the map answers to its commands, the
  table is the map after the run, and what no command accounts for is waiting in a buffer or a socket.
\<close>

definition explains :: "server \<Rightarrow> (nat \<Rightarrow> client_cmd list) \<Rightarrow> wk_action list \<Rightarrow> seq_run \<Rightarrow> (server \<times> (nat \<Rightarrow> bytes)) worker \<Rightarrow> bool" where
  "explains st cmds as run w \<longleftrightarrow> client_accounts cmds as run (wk_clients w)
     \<and> (\<forall>k < length (wk_clients w).
          cl_sent (wk_clients w ! k) @ owed (cl_conn (wk_clients w ! k)) = answers_to k run (server_view st))
     \<and> server_view (fst (wk_state w)) = map_after run (server_view st)"

lemma accounts_explain:
  assumes "worker_run answering_routes (st, \<lambda>_. []) as w" "client_accounts cmds as run (wk_clients w)"
    and "server_accounts st run (wk_state w)"
  shows "explains st cmds as run w"
  using worker_run_ok [OF assms(1)] assms(2,3)
  by (auto simp: explains_def worker_ok_def client_ok_def server_accounts_def)

text \<open>
  C1. The server is linearizable: in any schedule of connections, arriving bytes and socket events, with
  the PUT and GET requests of any number of clients cut, delayed and interleaved in any way, there is
  one sequential run of the requests answered, each client's in the order it sent them, such that every
  client gets exactly the bytes the map answers in that run, and the table holds the map after it. At
  every earlier moment of the schedule the same holds of a beginning of the same run, so that a request
  answered before another arrives comes before it.
\<close>

theorem server_linearizable:
  assumes "worker_run answering_routes (st, \<lambda>_. []) as w" "server_ok st"
    and "server_load st + length (filter is_ready as) \<le> server_bound st" "sends cmds as"
  shows "\<exists>run. explains st cmds as run w
    \<and> (\<forall>pre post. as = post @ pre \<longrightarrow> (\<exists>w1 run1 run2. run = run1 @ run2
          \<and> worker_run answering_routes (st, \<lambda>_. []) pre w1 \<and> explains st cmds pre run1 w1))"
proof -
  obtain run where run: "client_accounts cmds as run (wk_clients w)" "server_accounts st run (wk_state w)"
    "\<And>pre post. as = post @ pre \<Longrightarrow> \<exists>w1 run1 run2. run = run1 @ run2 \<and> worker_run answering_routes (st, \<lambda>_. []) pre w1
       \<and> client_accounts cmds pre run1 (wk_clients w1) \<and> server_accounts st run1 (wk_state w1)"
    using run_accounts [OF assms] by blast
  have "explains st cmds as run w" by (rule accounts_explain [OF assms(1) run(1,2)])
  moreover have "\<exists>w1 run1 run2. run = run1 @ run2 \<and> worker_run answering_routes (st, \<lambda>_. []) pre w1 \<and> explains st cmds pre run1 w1"
    if "as = post @ pre" for pre post
    using run(3) [OF that] accounts_explain by blast
  ultimately show ?thesis by blast
qed

text \<open>One client stores a value: its request arrives in two pieces, and the worker is called for both.\<close>

definition demo_cmds :: "nat \<Rightarrow> client_cmd list" where
  "demo_cmds k = (if k = 0 then [Put [107] [118], Get [107]] else [])"

definition demo_schedule :: "wk_action list" where
  "demo_schedule =
     [Ready 0 True False [Rd 42] [], Arrive 0 (put_request [107] [118]), Accept 7 True True True]"

lemma demo_sends: "sends demo_cmds demo_schedule"
  using demo_pair(1)
  by (auto simp: sends_def demo_cmds_def demo_schedule_def sendable_def plain_val_def)

lemma demo_schedule_run:
  "\<exists>w. worker_run answering_routes (demo_server, \<lambda>_. []) demo_schedule w \<and> cl_sent (wk_clients w ! 0) = []
    \<and> owed (cl_conn (wk_clients w ! 0)) = resp_bytes insert_successful \<and> length (wk_clients w) = 1"
proof -
  let ?r = "answering_routes" and ?st = "(demo_server, \<lambda>_. []) :: server \<times> (nat \<Rightarrow> bytes)"
  let ?in = "put_request [107] [118]"
  let ?cl = "\<lambda>s. \<lparr>cl_conn = demo_conn, cl_sock = s, cl_sent = [], cl_in = True, cl_out = True\<rparr>"
  let ?w = "\<lambda>s. \<lparr>wk_clients = [?cl s], wk_next = 1, wk_state = ?st\<rparr>"
  have 1: "worker_step ?r (Accept 7 True True True) (worker_start ?st) (?w [])"
    using demo_conn_facts(2) by (simp add: worker_step_simps worker_start_def accept_client_def)
  have 2: "worker_step ?r (Arrive 0 ?in) (?w []) (?w ?in)" by (simp add: worker_step_simps)
  have l: "length (?in @ []) = 42" "?in \<noteq> []" using request_lengths(1) [of "[107]" "[118]"] by auto
  obtain rq where p: "parse_http_req (?in @ []) (cn_req demo_conn) = Inr (int (length ?in), rq)"
    "route_req server_routes (?in @ []) rq = insert_copies [107] [118]"
    using handledD [OF cmd_handled [of "Put [107] [118]"]] demo_pair(1) by (metis cmd_bytes.simps(1) cmd_ok.simps(1) exec_cmd.simps(1))
  obtain st1 where e: "insert_copies [107] [118] demo_server = Some (Inr (insert_successful, st1))"
    using exec_spec [OF demo_server_facts(1), of "Put [107] [118]"] demo_server_facts demo_pair(1) by auto
  let ?st1 = "(st1, (\<lambda>_. [])(0 := resp_bytes insert_successful))"
  have g: "?r 0 (?in @ []) rq ?st = Some (Inr (insert_successful, ?st1))" using p(2) e by (simp add: logged_def)
  have i: "length (resp_bytes insert_successful) \<le> RESP_BUFFER_SIZE"
    by (rule resp_length) (simp_all add: insert_successful_def answer_def)
  have h: "handle_readable (?r 0) [Rd 42] demo_conn ?in ?st = Some (Inr (answering demo_conn [] rq insert_successful, [], ?st1))"
    using request_read [where respond = "?r 0", OF demo_conn_facts(1) p(1) l(2) _ g i] l(1) by (simp add: BUFFER_SIZE_def)
  let ?w3 = "\<lparr>wk_clients = [rearm \<lparr>cl_conn = answering demo_conn [] rq insert_successful, cl_sock = [], cl_sent = [], cl_in = True, cl_out = True\<rparr>],
    wk_next = 1, wk_state = ?st1\<rparr>"
  have "cn_state demo_conn = CONN_READING" using demo_conn_facts(1) by (simp add: conn_idle_def)
  then have 3: "worker_step ?r (Ready 0 True False [Rd 42] []) (?w ?in) ?w3"
    using h by (simp add: worker_step_simps client_ready_def worker_event_def)
  have "worker_run ?r ?st demo_schedule ?w3"
    unfolding demo_schedule_def
    by (rule worker_run.more [OF worker_run.more [OF worker_run.more [OF worker_run.start 1] 2] 3])
  then show ?thesis by (intro exI [of _ ?w3]) (simp add: owed_def answering_def)
qed

theorem server_linearizable_witness:
  "\<exists>w run. worker_run answering_routes (demo_server, \<lambda>_. []) demo_schedule w
    \<and> cl_sent (wk_clients w ! 0) @ owed (cl_conn (wk_clients w ! 0)) = resp_bytes insert_successful
    \<and> explains demo_server demo_cmds demo_schedule run w"
proof -
  obtain w where w: "worker_run answering_routes (demo_server, \<lambda>_. []) demo_schedule w" "cl_sent (wk_clients w ! 0) = []"
    "owed (cl_conn (wk_clients w ! 0)) = resp_bytes insert_successful"
    using demo_schedule_run by blast
  have "server_load demo_server + length (filter is_ready demo_schedule) \<le> server_bound demo_server"
    using demo_server_facts by (simp add: demo_schedule_def)
  then show ?thesis using server_linearizable [OF w(1) demo_server_facts(1) _ demo_sends] w by auto
qed

text \<open>The map a log of commands stands for.\<close>

fun replayed :: "replay_cmd list \<Rightarrow> (bytes \<Rightarrow> bytes option) \<Rightarrow> bytes \<Rightarrow> bytes option" where
  "replayed [] v = v"
| "replayed (RSet key val # cs) v = replayed cs (v(key \<mapsto> val))"
| "replayed (RDel key # cs) v = replayed cs (v(key := None))"
| "replayed (_ # cs) v = replayed cs v"

lemma replayed_append: "replayed (cs @ ds) v = replayed ds (replayed cs v)"
  by (induction cs v rule: replayed.induct) (simp_all del: fun_upd_apply)

lemma replayed_cmd_log: "replayed (cmd_log c) v = snd (map_step c v)"
  by (cases c) simp_all

lemma replayed_log_of: "replayed (log_of run) v = map_after run v"
  by (induction run rule: rev_induct) (simp_all add: replayed_append map_after_snoc replayed_cmd_log)

text \<open>The log a reader of the file finds is that of the stores in the table.\<close>

definition log_agrees :: "server \<Rightarrow> bool" where
  "log_agrees st \<longleftrightarrow> (\<exists>aof cs. sv_aof st = Some aof \<and> aof_good aof \<and> aof_visible aof = aof_log_bytes aof
     \<and> aof_log_bytes aof = concat (map record_of cs) \<and> list_all loggable cs \<and> server_view st = replayed cs (\<lambda>_. None))"

lemma log_of_loggable:
  assumes "client_accounts cmds as run cls" "\<forall>k. list_all loggable (concat (map cmd_log (cmds k)))"
  shows "list_all loggable (log_of run)"
proof -
  have "list_all loggable (cmd_log c)" if "(k, c) \<in> set run" for k c
  proof -
    have "c \<in> set (cmds_of k run)" using that by (force simp: cmds_of_def)
    then have "c \<in> set (cmds k)" using assms(1) unfolding client_accounts_def by (metis Un_iff set_append)
    then show ?thesis using assms(2) by (auto simp: list_all_iff)
  qed
  then show ?thesis by (fastforce simp: log_of_def list_all_iff)
qed



end
