(* ===== verification/Server_Unlocked.thy ===== *)
theory Server_Unlocked
  imports Server_Service
begin

text \<open>
  \<open>get_handler\<close> unlocks \<open>pool_mutex\<close> before it copies the value it found, so other requests can run in
  between. The copy is safe because no handler ever frees or overwrites a value, not even a deletion,
  which is asked to free it: memory only grows.
\<close>

definition mem_extends :: "mem \<Rightarrow> mem \<Rightarrow> bool" where
  "mem_extends m m' \<longleftrightarrow> mem_grows m m' \<and> next_block m \<le> next_block m' \<and> mem_ok m'"

lemma mem_extends_refl: "mem_ok m \<Longrightarrow> mem_extends m m"
  by (simp add: mem_extends_def)

lemma mem_extends_trans: "mem_extends m1 m2 \<Longrightarrow> mem_extends m2 m3 \<Longrightarrow> mem_extends m1 m3"
  by (simp add: mem_extends_def mem_grows_def)

lemma mem_extends_ok: "mem_extends m m' \<Longrightarrow> mem_ok m'"
  by (simp add: mem_extends_def)

lemma dup_bytes_extends:
  assumes "dup_bytes m bs = Inr (p, m')" "mem_ok m"
  shows "mem_extends m m'"
  using assms
  by (auto simp: dup_bytes_def mem_alloc_def mem_extends_def mem_grows_def mem_ok_def split: if_splits prod.splits)

lemma insert_copies_extends:
  assumes "insert_copies key val st = Some (Inr (res, st'))" "mem_ok (sv_mem st)"
  shows "mem_extends (sv_mem st) (sv_mem st')"
proof -
  obtain k v m2 where c: "rbind (dup_bytes (sv_mem st) key) (\<lambda>(k, m1). rbind (dup_bytes m1 val) (\<lambda>(v, m2). Inr (k, v, m2))) = Inr (k, v, m2)"
    using assms(1) by (cases "rbind (dup_bytes (sv_mem st) key) (\<lambda>(k, m1). rbind (dup_bytes m1 val) (\<lambda>(v, m2). Inr (k, v, m2)))")
      (auto simp: insert_copies_def)
  have "sv_mem st' = m2"
    using assms(1) unfolding insert_copies_def c by (auto simp: rbind_eq_Inr split: option.splits sum.splits)
  moreover obtain m1 where "dup_bytes (sv_mem st) key = Inr (k, m1)" "dup_bytes m1 val = Inr (v, m2)"
    using c by (auto simp: rbind_eq_Inr)
  ultimately show ?thesis using dup_bytes_extends mem_extends_trans assms(2) mem_extends_ok by metis
qed

lemma get_key_extends: "get_key key st = Some (Inr (res, st')) \<Longrightarrow> mem_ok (sv_mem st) \<Longrightarrow> mem_extends (sv_mem st) (sv_mem st')"
  by (auto simp: get_key_def rbind_eq_Inr mem_extends_refl split: option.splits sum.splits)

lemma delete_key_extends:
  "delete_key key st = Some (Inr (res, st')) \<Longrightarrow> mem_ok (sv_mem st) \<Longrightarrow> mem_extends (sv_mem st) (sv_mem st')"
  by (auto simp: delete_key_def rbind_eq_Inr mem_extends_refl split: option.splits sum.splits prod.splits)

lemma find_route_in: "find_route rs buf rq = Some h \<Longrightarrow> h \<in> rt_handler ` set rs"
  by (induction rs) (auto split: if_splits)

lemma route_extends:
  assumes "route_req server_routes buf rq st = Some (Inr (res, st'))" "mem_ok (sv_mem st)"
  shows "mem_extends (sv_mem st) (sv_mem st')"
proof (cases "find_route server_routes buf rq")
  case None
  then show ?thesis using assms mem_extends_refl by (simp add: route_req_def)
next
  case (Some h)
  then have "h = insert_handler \<or> h = get_handler \<or> h = delete_handler"
    using find_route_in [OF Some] by (auto simp: routes_list)
  moreover have "h buf rq st = Some (Inr (res, st'))" using assms(1) Some by (simp add: route_req_def)
  ultimately show ?thesis
    using insert_copies_extends get_key_extends delete_key_extends mem_extends_refl [OF assms(2)] assms(2)
    by (elim disjE; simp add: insert_handler_def get_handler_def delete_handler_def split: option.splits if_splits; blast)
qed

lemma call_extends:
  assumes "http_call input st = Some (Inr (r, st'))" "mem_ok (sv_mem st)"
  shows "mem_extends (sv_mem st) (sv_mem st')"
  using assms route_extends mem_extends_refl
  by (fastforce simp: http_call_def map_sum_eq_Inr split: sum.splits prod.splits if_splits)

lemma calls_extend:
  "http_calls inputs st = Some (Inr (rs, st')) \<Longrightarrow> mem_ok (sv_mem st) \<Longrightarrow> mem_extends (sv_mem st) (sv_mem st')"
proof (induction inputs arbitrary: st rs)
  case (Cons input inputs)
  then obtain r st1 rs1 where "http_call input st = Some (Inr (r, st1))" "http_calls inputs st1 = Some (Inr (rs1, st'))"
    by (auto simp: map_sum_eq_Inr split: option.splits sum.splits prod.splits)
  then show ?case using Cons.IH call_extends Cons.prems(2) mem_extends_trans mem_extends_ok by blast
qed (simp add: mem_extends_refl)

lemma string_after_copy:
  assumes "mem_ok m" "mem_extends m m'" "c_string m v = Inr s"
  shows "c_string (snd (stack_copy m' key)) v = Inr s"
proof -
  have "mem_grows m (snd (stack_copy m' key))"
    using assms(2) by (auto simp: mem_extends_def mem_grows_def stack_copy_def)
  then show ?thesis using mem_grows_string [OF assms(1) _ assms(3)] by blast
qed

text \<open>
  C12. A GET is atomic although it copies the value after it has unlocked: whatever requests, well formed or
  not, run between the look-up and the copy, a DELETE or a PUT of the same key included, the client is
  answered what the map held at the look-up.
\<close>

theorem get_copies_unlocked:
  assumes "server_ok st" "server_room st" "0 \<notin> set key" "length key < 2 ^ 64"
    and "http_calls inputs st = Some (Inr (rs, st'))"
  shows "\<exists>v. get_lookup key st = Some (Inr v) \<and> get_copy key v st' = Inr (get_answer (server_view st key))"
proof -
  obtain hm where hm: "sv_db st = Some hm" "mem_ok (sv_mem st)" "hm_ok (sv_mem st) hm"
    "\<And>k p. hm_view (sv_mem st) hm k = Some p \<Longrightarrow> \<exists>s. c_string (sv_mem st) p = Inr s"
    using server_okD [OF assms(1)] by blast
  obtain k m1 where k: "stack_copy (sv_mem st) key = (k, m1)" by fastforce
  note s = stack_copy_facts [OF assms(3) k]
  have ok: "hm_ok m1 hm" "hm_view m1 hm = hm_view (sv_mem st) hm" using hm_ok_ext [OF hm(2) s(1) hm(3)] by blast+
  have c: "hm_count hm < hm_capacity hm" using assms(2) hm(1) by (simp add: server_room_def)
  have g: "get_lookup key st = Some (Inr (case hm_view (sv_mem st) hm key of None \<Rightarrow> NULL | Some p \<Rightarrow> p))"
    using hm_lookup [OF ok(1) c s(2) assms(4)] k hm(1) ok(2) by (simp add: get_lookup_def split: option.split)
  show ?thesis
  proof (cases "hm_view (sv_mem st) hm key")
    case None
    then show ?thesis using g hm(1) by (simp add: get_copy_def server_view_def get_answer_def)
  next
    case (Some p)
    then obtain v where v: "c_string (sv_mem st) p = Inr v" using hm(4) by blast
    have "c_string (snd (stack_copy (sv_mem st') key)) p = Inr v"
      by (rule string_after_copy [OF hm(2) calls_extend [OF assms(5) hm(2)] v])
    then show ?thesis using g hm(1) Some v c_string_not_null [OF v]
      by (simp add: get_copy_def server_view_def get_answer_def key_at_string)
  qed
qed

theorem get_copies_unlocked_witness:
  "\<exists>st v rs st'. server_put demo_server [107] [118] = Some st \<and> get_lookup [107] st = Some (Inr v)
    \<and> http_calls [delete_request [107], delete_request [107]] st = Some (Inr (rs, st'))
    \<and> get_copy [107] v st' = Inr (value_found [118])"
proof -
  obtain st where st: "server_put demo_server [107] [118] = Some st" "server_ok st"
    "server_view st = (server_view demo_server)([107] \<mapsto> [118])" "server_load st \<le> 1" "server_bound st = 4"
    using server_put_ok [OF demo_server_facts(1) _ demo_pair(1)] demo_server_facts by auto
  have room: "server_room st" using st(4,5) by (intro room_of_load) simp
  have "reads_as st st" using st(2) by (auto simp: reads_as_def same_nodes_def elim: server_okD)
  then obtain rs st' where c: "http_calls (map cmd_request [DeleteKey [107], DeleteKey [107]]) st = Some (Inr (rs, st'))"
    using key_cmds_run [OF st(2) room, of st "[DeleteKey [107], DeleteKey [107]]"] by (auto simp: sendable_def plain_val_def)
  from get_copies_unlocked [OF st(2) room _ _ c, of "[107]"] show ?thesis
    using st(1,3) c by (auto simp: get_answer_def)
qed

end
