(* ===== verification/Server_Snapshot.thy ===== *)
theory Server_Snapshot
  imports Server_Service
begin

text \<open>
  The snapshot thread of \<^verbatim>\<open>src/misc/server.c\<close>, whose start is commented out: what its rounds do to the
  server, and to whoever waits for \<open>pool_mutex\<close>.
\<close>

lemma snapshot_round_ends:
  assumes "sv_db st = Some hm" "0 < hm_capacity hm" "sv_aof st = Some aof" "aof_filename aof \<noteq> None"
  shows "snapshot_round opens renamed ts tmp log_renamed reopen st = Some (Inr x)
    \<longleftrightarrow> \<not> opens \<and> \<not> tmp \<and> x = (None, st)"
proof (cases opens)
  case True
  have "db_save (sv_mem st) (Some hm) (Some DB_FILE) True renamed ts \<noteq> Some (Inr y)" for y
    using save_loop_never [OF assms(2), of "sv_mem st" "save_header ts (hm_count hm)" 0]
    by (auto simp: db_save_def map_sum_def split: sum.splits)
  then show ?thesis using True assms(1) by (auto simp: snapshot_round_def split: option.splits sum.splits)
next
  case False
  then have d: "db_save (sv_mem st) (Some hm) (Some DB_FILE) opens renamed ts = Some (Inr (- 1, None))" by (simp add: db_save_def)
  have "aof_rewrite (sv_mem st) (Some aof) (Some hm) True log_renamed reopen \<noteq> Some (Inr y)" for y
    using rewrite_loop_never [OF assms(2), of "sv_mem st" "[]"] assms(4)
    by (auto simp: aof_rewrite_def bind_eq_Some_conv rbind_eq_Inr)
  moreover have "aof_rewrite (sv_mem st) (Some aof) (Some hm) False log_renamed reopen = Some (Inr (- 1, Some aof))"
    using assms(4) by (auto simp: aof_rewrite_def)
  moreover have "st\<lparr>sv_aof := Some aof\<rparr> = st" using assms(3) by simp
  ultimately show ?thesis using False d assms(1,3)
    by (cases tmp) (auto simp: snapshot_round_def map_sum_eq_Inr simp del: server.surjective)
qed

text \<open>
  C40. The snapshot thread never completes a round in which it can create one of its two files: \<open>db_save\<close> and
  \<open>aof_rewrite\<close> loop for ever on the first bucket, or fault on it, with \<open>pool_mutex\<close> held. The rounds it
  completes are those in which neither file could be created, and they change nothing.
\<close>

theorem snapshot_worker_completes_nothing:
  assumes "sv_db st = Some hm" "0 < hm_capacity hm" "sv_aof st = Some aof" "aof_filename aof \<noteq> None"
  shows "snapshot_worker ios st = Some (Inr (files, st'))
    \<longleftrightarrow> list_all (\<lambda>io. \<not> si_opens io \<and> \<not> si_tmp io) ios \<and> files = replicate (length ios) None \<and> st' = st"
proof (induction ios arbitrary: files)
  case (Cons io ios)
  note r = snapshot_round_ends [OF assms, of "si_opens io" "si_renamed io" "si_time io" "si_tmp io" "si_log_renamed io" "si_reopen io"]
  show ?case
  proof (cases "\<not> si_opens io \<and> \<not> si_tmp io")
    case True
    then show ?thesis using r [of "(None, st)"] Cons.IH by (auto simp: map_sum_eq_Inr)
  next
    case False
    then show ?thesis using r by (auto split: option.splits sum.splits)
  qed
qed auto

definition snapshot_try :: "bool \<Rightarrow> snapshot_io" where
  "snapshot_try ok = \<lparr>si_opens = ok, si_renamed = ok, si_time = 0, si_tmp = ok, si_log_renamed = ok, si_reopen = ok\<rparr>"

theorem snapshot_worker_completes_nothing_witness:
  "(\<forall>x. snapshot_worker [snapshot_try False, snapshot_try True] demo_server \<noteq> Some (Inr x))
    \<and> snapshot_worker [snapshot_try False] demo_server = Some (Inr ([None], demo_server))"
proof -
  have "sv_db demo_server = Some (demo_table 4)" "0 < hm_capacity (demo_table 4)"
    "sv_aof demo_server = Some (aof_empty AOF_SYNC_NO)" "aof_filename (aof_empty AOF_SYNC_NO) \<noteq> None"
    by (simp_all add: demo_server_def aof_empty_def demo_table_def)
  note e = snapshot_worker_completes_nothing [OF this]
  show ?thesis using e [of "[snapshot_try False, snapshot_try True]"] e [of "[snapshot_try False]"]
    by (auto simp: snapshot_try_def simp del: snapshot_worker.simps)
qed

end
