(* ===== verification/Aof_Restart.thy ===== *)
theory Aof_Restart
  imports Aof_Props Hashmap_Dangling
begin

text \<open>
  What \<open>aof_replay\<close> (\<^verbatim>\<open>src/core/storage/aof.c\<close>) makes of any log: it frees each key it has stored, so it ends on
  the first command that names a key stored before, and otherwise leaves a table that holds none.
\<close>

text \<open>One store: its comparisons reach a key that is gone, or it succeeds and its own key is gone.\<close>

lemma replay_set_gone:
  assumes "gone m hm keys" "mem_ok m" "unat (hm_count hm) < hm_bound hm"
    and "storable_key k" "k \<noteq> []" "0 \<notin> set k" "length k + length v + 2 \<le> avail m"
  shows "if twin_in keys k then replay_set m hm k v = Some (Inl UseAfterFree)
    else \<exists>m' hm'. replay_set m hm k v = Some (Inr (m', hm', 1)) \<and> gone m' hm' (k # keys) \<and> mem_ok m'
      \<and> avail m' = avail m - (length v + 1) \<and> hm_capacity hm' = hm_capacity hm
      \<and> unat (hm_count hm') = unat (hm_count hm) + 1"
proof -
  let ?b = "next_block m"
  obtain m1 where m1: "mem_alloc m (k @ [0]) = (Ptr ?b 0, m1)" "gone m1 hm keys" "mem_ok m1"
    "blocks m1 = (blocks m)(?b \<mapsto> k @ [0])" "next_block m1 = Suc ?b" "avail m1 = avail m - (length k + 1)"
    using gone_copy [OF assms(1,2), of k] assms(7) by auto
  have "length v + 1 \<le> avail m1" using m1(6) assms(7) by simp
  then obtain m2 where m2: "mem_alloc m1 (v @ [0]) = (Ptr (Suc ?b) 0, m2)" "gone m2 hm keys" "mem_ok m2"
    "blocks m2 = (blocks m1)(Suc ?b \<mapsto> v @ [0])" "avail m2 = avail m1 - (length v + 1)"
    using gone_copy [OF m1(2,3), of v] m1(5) by auto
  have "blocks m2 ?b = Some (k @ [0])" using m1(4) m2(4) by simp
  from gone_store [OF m2(2,3) assms(3-6) this, of "Ptr (Suc ?b) 0" "of_nat (length v)"]
  show ?thesis using m1(1,6) m2(1,5) assms(7) by (auto simp: replay_set_def free_key_def dup_bytes_def split: if_splits)
qed

text \<open>One deletion: it looks the key up, so it faults or does nothing.\<close>

lemma replay_del_gone:
  assumes "gone m hm keys" "mem_ok m" "hm_count hm < hm_capacity hm" "0 \<notin> set k" "length k + 1 \<le> avail m" "length k < 2 ^ 64"
  shows "if twin_in keys k then replay_del m hm k = Some (Inl UseAfterFree)
    else \<exists>m'. replay_del m hm k = Some (Inr (m', hm, 1)) \<and> gone m' hm keys \<and> mem_ok m' \<and> avail m' = avail m"
proof -
  let ?b = "next_block m"
  obtain m1 where m1: "mem_alloc m (k @ [0]) = (Ptr ?b 0, m1)" "gone m1 hm keys" "mem_ok m1"
    "blocks m1 = (blocks m)(?b \<mapsto> k @ [0])" "next_block m1 = Suc ?b" "avail m1 = avail m - (length k + 1)"
    using gone_copy [OF assms(1,2,5)] by auto
  have s: "c_string m1 (Ptr ?b 0) = Inr k"
    using m1(4) assms(4) by (simp add: c_string_def mem_block_def takeWhile_nul_append)
  define m' where "m' = m1\<lparr>blocks := (blocks m1)(?b := None), avail := avail m1 + (length k + 1)\<rparr>"
  have f: "mem_free m1 (Ptr ?b 0) = Inr m'" using m1(4) by (simp add: mem_free_def m'_def)
  have "mem_ok m'" using mem_ok_free [OF m1(3) f] .
  moreover have "avail m' = avail m" using m1(6) assms(5) by (simp add: m'_def)
  moreover have "gone m' hm keys" by (rule gone_free [OF m1(2) f])
  ultimately show ?thesis
    using gone_get [OF m1(2) mem_grows_refl assms(3) s assms(6)] m1(1) f by (auto simp: replay_del_def free_key_def dup_bytes_def)
qed

section \<open>Whole logs\<close>

text \<open>
  \<open>restartable\<close>: no command names a key, or one with the same hash and length, stored by a command before
  it or already gone from the table. \<open>stored\<close>: the keys of the stores.
\<close>

fun stored :: "replay_cmd list \<Rightarrow> bytes list" where
  "stored [] = []"
| "stored (RSet k v # cs) = k # stored cs"
| "stored (_ # cs) = stored cs"

fun restartable :: "bytes list \<Rightarrow> replay_cmd list \<Rightarrow> bool" where
  "restartable keys [] \<longleftrightarrow> True"
| "restartable keys (RSet k v # cs) \<longleftrightarrow> \<not> twin_in keys k \<and> restartable (k # keys) cs"
| "restartable keys (RDel k # cs) \<longleftrightarrow> \<not> twin_in keys k \<and> restartable keys cs"
| "restartable keys (_ # cs) \<longleftrightarrow> restartable keys cs"

fun keeps_key :: "replay_cmd \<Rightarrow> bool" where
  "keeps_key (RSet k v) \<longleftrightarrow> k \<noteq> [] \<and> storable_key k"
| "keeps_key _ \<longleftrightarrow> True"

lemma record_room:
  "length k + length v + 2 \<le> length (record_of (RSet k v))" "length k + 1 \<le> length (record_of (RDel k))"
  by (simp_all add: set_record_def set_head_def del_record_def)

text \<open>What a run of commands makes of a table that has lost \<open>keys\<close>.\<close>

definition replays :: "bytes list \<Rightarrow> replay_cmd list \<Rightarrow> hashmap \<Rightarrow> u64 \<Rightarrow> (mem \<times> hashmap \<times> u64) res option \<Rightarrow> bool" where
  "replays keys cs hm n r \<longleftrightarrow>
     (if restartable keys cs
      then \<exists>m' hm'. r = Some (Inr (m', hm', n + of_nat (length cs))) \<and> gone m' hm' (stored cs @ keys) \<and> mem_ok m'
        \<and> hm_capacity hm' = hm_capacity hm \<and> unat (hm_count hm') = unat (hm_count hm) + length (stored cs)
      else r = Some (Inl UseAfterFree))"

lemma replays_set:
  assumes "\<not> twin_in keys k" "replays (k # keys) cs hm' (n + 1) r"
    and "hm_capacity hm' = hm_capacity hm" "unat (hm_count hm') = unat (hm_count hm) + 1"
  shows "replays keys (RSet k v # cs) hm n r"
  using assms gone_cong [of "stored cs @ k # keys" "k # stored cs @ keys"] by (auto simp: replays_def algebra_simps)

lemma replays_del:
  assumes "\<not> twin_in keys k" "replays keys cs hm (n + 1) r"
  shows "replays keys (RDel k # cs) hm n r"
  using assms by (auto simp: replays_def algebra_simps)

lemma run_gone:
  assumes "gone m hm keys" "mem_ok m" "unat (hm_count hm) + length (stored cs) < hm_bound hm"
    and "list_all (\<lambda>c. loggable c \<and> keeps_key c) cs" "length (concat (map record_of cs)) \<le> avail m"
  shows "replays keys cs hm n (run_cmds cs m hm n)"
  using assms
proof (induction cs arbitrary: m hm keys n)
  case Nil
  then show ?case by (simp add: replays_def)
next
  case (Cons c cs)
  have ok: "loggable c" "keeps_key c" "list_all (\<lambda>c. loggable c \<and> keeps_key c) cs" using Cons.prems(4) by simp_all
  have a: "length (record_of c) + length (concat (map record_of cs)) \<le> avail m" using Cons.prems(5) by simp
  show ?case
  proof (cases c)
    case (RSet k v)
    have r: "unat (hm_count hm) < hm_bound hm" "storable_key k" "k \<noteq> []" "0 \<notin> set k" "length k + length v + 2 \<le> avail m"
      using RSet ok Cons.prems(3) a record_room(1) [of k v] by simp_all
    note one = replay_set_gone [OF Cons.prems(1,2) r]
    show ?thesis
    proof (cases "twin_in keys k")
      case False
      then obtain m' hm' where s: "replay_set m hm k v = Some (Inr (m', hm', 1))" "gone m' hm' (k # keys)" "mem_ok m'"
        "avail m' = avail m - (length v + 1)" "hm_capacity hm' = hm_capacity hm" "unat (hm_count hm') = unat (hm_count hm) + 1"
        using one by auto
      have b: "unat (hm_count hm') + length (stored cs) < hm_bound hm'"
        using Cons.prems(3) RSet s(5,6) by (simp add: hm_bound_def)
      have "length (concat (map record_of cs)) \<le> avail m'" using a s(4) RSet record_room(1) [of k v] by simp
      from replays_set [OF False Cons.IH [OF s(2,3) b ok(3) this] s(5,6)]
      show ?thesis using RSet s(1) by (simp add: run_cmd_def)
    qed (use RSet one in \<open>simp add: replays_def run_cmd_def\<close>)
  next
    case (RDel k)
    have r: "hm_count hm < hm_capacity hm" "0 \<notin> set k" "length k + 1 \<le> avail m" "length k < 2 ^ 64"
      using RDel ok Cons.prems(3) a record_room(2) [of k] by (simp_all add: hm_bound_def word_less_nat_alt)
    note one = replay_del_gone [OF Cons.prems(1,2) r]
    show ?thesis
    proof (cases "twin_in keys k")
      case False
      then obtain m' where s: "replay_del m hm k = Some (Inr (m', hm, 1))" "gone m' hm keys" "mem_ok m'" "avail m' = avail m"
        using one by auto
      have b: "unat (hm_count hm) + length (stored cs) < hm_bound hm" using Cons.prems(3) RDel by simp
      have "length (concat (map record_of cs)) \<le> avail m'" using a s(4) by simp
      from replays_del [OF False Cons.IH [OF s(2,3) b ok(3) this]]
      show ?thesis using RDel s(1) by (simp add: run_cmd_def)
    qed (use RDel one in \<open>simp add: replays_def run_cmd_def\<close>)
  qed (use ok in simp_all)
qed

text \<open>
  Replay of any log on a new table: it faults when some command names a key stored before it, or one the
  table takes for it. Otherwise all commands are counted, and from then on every lookup of a stored
  key is a use after free, and any other finds nothing.
\<close>

lemma replay_exact:
  assumes "mem_ok m" "hm_ok m hm" "hm_view m hm = (\<lambda>_. None)" "hm_count hm = 0"
    and "aof_good aof" "aof_log_bytes aof = concat (map record_of cs)" "list_all (\<lambda>c. loggable c \<and> keeps_key c) cs"
    and "length (stored cs) < hm_bound hm" "length (aof_log_bytes aof) \<le> avail m" "length line = 4096"
  shows "if restartable [] cs then \<exists>m' hm'. aof_replay line m (Some aof) (Some hm) = Some (Inr (0, m', Some hm', of_nat (length cs)))
      \<and> gone m' hm' (stored cs) \<and> mem_ok m' \<and> hm_count hm' < hm_capacity hm'
    else aof_replay line m (Some aof) (Some hm) = Some (Inl UseAfterFree)"
proof -
  obtain f where f: "aof_file aof = Some f" "written f = concat (map record_of cs)"
    using assms(5,6) by (auto simp: aof_good_def aof_log_bytes_def split: option.splits)
  have "list_all loggable cs" using assms(7) by (simp add: list_all_iff)
  then have "log_read replay_parse line (concat (map record_of cs)) = Inr cs" using aof_log.read_log assms(10) by blast
  then have l: "replay_loop line (written f) m hm 0 = run_cmds cs m hm 0" using replay_runs f(2) by simp
  have b: "unat (hm_count hm) + length (stored cs) < hm_bound hm" using assms(4,8) by simp
  have a: "length (concat (map record_of cs)) \<le> avail m" using assms(6,9) by simp
  show ?thesis using run_gone [OF gone_empty [OF assms(1-3)] assms(1) b assms(7) a, of 0] l f(1) b
    by (auto simp: replays_def aof_replay_def hm_bound_def word_less_nat_alt)
qed

end
