(* ===== verification/Server_Restart.thy ===== *)
theory Server_Restart
  imports Server_Service Aof_Restart
begin

text \<open>
  Stopping and starting the server (\<^verbatim>\<open>src/misc/server.c\<close>) on the log its PUT requests have written, without a
  snapshot: when it comes up, and what it then answers.
\<close>

lemma start_with_log:
  assumes "mem_ok m" "32 * 2 ^ 20 + 1000 + length data \<le> avail m"
  shows "\<exists>aof m1 hm m2. aof_open m (Some AOF_FILE) AOF_SYNC_EVERYSEC (Some data) now = (Some aof, m1)
    \<and> aof_good aof \<and> aof_log_bytes aof = data \<and> start_db m1 None stack = Some (Inr (Some hm, m2))
    \<and> mem_ok m2 \<and> hm_ok m2 hm \<and> hm_view m2 hm = (\<lambda>_. None) \<and> hm_count hm = 0 \<and> hm_capacity hm = 1048576
    \<and> length data \<le> avail m2"
proof -
  have l: "length AOF_FILE = 14" by (simp add: AOF_FILE_def)
  have r: "40 \<le> avail m" "15 \<le> avail m - 40" using assms(2) by linarith+
  obtain aof m1 where a: "aof_open m (Some AOF_FILE) AOF_SYNC_EVERYSEC (Some data) now = (Some aof, m1)"
    "aof_good aof" "aof_log_bytes aof = data"
    using r by (simp add: aof_open_def mem_reserve_def l aof_good_def aof_log_bytes_def written_def)
  note o = aof_open_memory [OF a(1)]
  have c: "32 + 32 * unat (1048576 :: u64) \<le> avail m1" using o(3) assms(2) l by simp
  have u: "unat (1048576 :: u64) = 2 ^ 20" by simp
  obtain hm m2 where h: "hm_create m1 1048576 = (Some hm, m2)" "avail m2 = avail m1 - (32 + 32 * unat (1048576 :: u64))"
    "hm_ok m2 hm" "hm_view m2 hm = (\<lambda>_. None)" "hm_count hm = 0" "hm_capacity hm = 1048576"
    using hm_create_keeps [OF c u] by blast
  have "mem_ok m2" using hm_create_blocks_eq [OF h(1)] o(1,2) assms(1) by (simp add: mem_ok_def)
  moreover have "length data \<le> avail m2" using h(2) o(3) assms(2) l by simp
  moreover have "start_db m1 None stack = Some (Inr (Some hm, m2))" using h(1) by (simp add: start_db_def file_exists_def)
  ultimately show ?thesis using a h(3-6) by blast
qed

lemma restart_from_log:
  assumes "mem_ok m" "32 * 2 ^ 20 + 1000 + length (concat (map record_of cs)) \<le> avail m"
    and "list_all (\<lambda>c. loggable c \<and> keeps_key c) cs" "length (stored cs) < 65536" "length line = 4096"
  shows "if restartable [] cs
    then \<exists>st. server_start m (Some (concat (map record_of cs))) None stack line now = Some (Inr st)
      \<and> (\<forall>key. sendable key \<longrightarrow> http_call (get_request key) st
          = Some (if twin_in (stored cs) key then Inl UseAfterFree else Inr (Some key_not_found, st)))
    else server_start m (Some (concat (map record_of cs))) None stack line now = Some (Inl UseAfterFree)"
proof -
  let ?data = "concat (map record_of cs)"
  obtain aof m1 hm m2 where b: "aof_open m (Some AOF_FILE) AOF_SYNC_EVERYSEC (Some ?data) now = (Some aof, m1)"
    "aof_good aof" "aof_log_bytes aof = ?data" "start_db m1 None stack = Some (Inr (Some hm, m2))"
    "mem_ok m2" "hm_ok m2 hm" "hm_view m2 hm = (\<lambda>_. None)" "hm_count hm = 0" "hm_capacity hm = 1048576"
    "length ?data \<le> avail m2"
    using start_with_log [OF assms(1,2)] by blast
  have r: "length (stored cs) < hm_bound hm" "length (aof_log_bytes aof) \<le> avail m2"
    using assms(4) b(3,9,10) by (simp_all add: hm_bound_def)
  note replay = replay_exact [OF b(5-8) b(2,3) assms(3) r assms(5)]
  show ?thesis
  proof (cases "restartable [] cs")
    case False
    then show ?thesis using replay b(1,4) by (simp add: server_start_def)
  next
    case True
    then obtain m' hm' where p: "aof_replay line m2 (Some aof) (Some hm) = Some (Inr (0, m', Some hm', of_nat (length cs)))"
      "gone m' hm' (stored cs)" "hm_count hm' < hm_capacity hm'"
      using replay by auto
    let ?st = "\<lparr>sv_mem = m', sv_db = Some hm', sv_aof = Some aof, sv_now = now\<rparr>"
    have "http_call (get_request key) ?st
        = Some (if twin_in (stored cs) key then Inl UseAfterFree else Inr (Some key_not_found, ?st))" if s: "sendable key" for key
    proof -
      have k: "plain_val key" "key \<noteq> []" "0 \<notin> set key" "length key < 2 ^ 64" using s by (simp_all add: sendable_def)
      obtain q m3 where q: "stack_copy m' key = (q, m3)" by fastforce
      show ?thesis
        using gone_get [OF p(2) stack_copy_facts(1) [OF k(3) q] p(3) stack_copy_facts(2) [OF k(3) q] k(4)] q get_call [OF k(1,2), of ?st]
        by (simp add: get_key_eq)
    qed
    then show ?thesis using p(1) b(1,4) True by (simp add: server_start_def)
  qed
qed

text \<open>The log a run of PUT requests writes, and when such a log can be replayed.\<close>

lemma puts_logged:
  assumes "server_ok st" "server_load st + length xs \<le> server_bound st" "list_all (\<lambda>(k, v). storable_pair k v) xs"
  shows "\<exists>st'. put_all server_put st xs = Some st' \<and> log_grows st st' (map (\<lambda>(k, v). RSet k v) xs)"
  using assms
proof (induction xs arbitrary: st)
  case Nil
  then show ?case by (simp add: log_grows_refl)
next
  case (Cons x xs)
  obtain k v where x: "x = (k, v)" by (cases x)
  have l: "server_load st < server_bound st" "storable_pair k v" using Cons.prems(2,3) x by simp_all
  obtain st1 where 1: "http_call (put_request k v) st = Some (Inr (Some insert_successful, st1))" "server_ok st1"
    "server_load st1 \<le> server_load st + 1" "server_bound st1 = server_bound st" "log_grows st st1 [RSet k v]"
    using put_request_ok [OF Cons.prems(1) l] by blast
  have p: "server_put st k v = Some st1" using 1(1) by (simp add: server_put_def insert_successful_def answer_def)
  have "server_load st1 + length xs \<le> server_bound st1" using Cons.prems(2) 1(3,4) by simp
  then obtain st' where "put_all server_put st1 xs = Some st'" "log_grows st1 st' (map (\<lambda>(k, v). RSet k v) xs)"
    using Cons.IH [OF 1(2)] Cons.prems(3) by auto
  then show ?case using p log_grows_trans [OF 1(5)] x by auto
qed

lemma stored_puts [simp]: "stored (map (\<lambda>(k, v). RSet k v) xs) = map fst xs"
  by (induction xs) auto

lemma restartable_puts: "restartable keys (map (\<lambda>(k, v). RSet k v) xs) \<longleftrightarrow> tellable keys (map fst xs)"
proof (induction xs arbitrary: keys)
  case (Cons x xs)
  show ?case by (cases x) (simp add: tellable_Cons Cons.IH)
qed simp

lemma log_length: "list_all loggable cs \<Longrightarrow> length (concat (map record_of cs)) \<le> 4095 * length cs"
proof (induction cs)
  case (Cons c cs)
  have c: "length (concat (map record_of cs)) \<le> 4095 * length cs" "loggable c"
    using Cons.IH Cons.prems by (simp_all only: list.pred_inject)
  obtain r where r: "record_of c = r @ [10]" "length r + 1 \<le> 4095" using record_no_newline [OF c(2)] by blast
  have "length (record_of c) = length r + 1" unfolding r(1) by simp
  then have "length (record_of c) \<le> 4095" using r(2) by linarith
  then show ?case using c(1) by simp
qed simp

text \<open>
  C11. What a restart makes of the stored keys. After any run of PUT requests on a server with an empty log,
  a server started from that log does not come up if two of the keys have the same hash and length,
  as the same key twice has: the replay is a use after free. Otherwise it comes up, the GET of any
  key that was stored is a use after free, and the GET of any other answers 404.
\<close>

theorem server_restart_exact:
  assumes "server_ok st" "server_load st + length xs \<le> server_bound st" "length xs < 65536"
    and "list_all (\<lambda>(k, v). storable_pair k v \<and> loggable (RSet k v)) xs"
    and "sv_aof st = Some aof" "aof_good aof" "aof_log_bytes aof = []"
    and "mem_ok m" "32 * 2 ^ 20 + 1000 + 4095 * length xs \<le> avail m" "length line = 4096"
  shows "\<exists>st1 aof1. put_all server_put st xs = Some st1 \<and> sv_aof st1 = Some aof1
    \<and> (if sorted_wrt (\<lambda>j k. \<not> twin j k) (map fst xs)
       then \<exists>st2. server_start m (Some (aof_log_bytes aof1)) None stack line now = Some (Inr st2)
         \<and> (\<forall>key. sendable key \<longrightarrow> http_call (get_request key) st2
             = Some (if twin_in (map fst xs) key then Inl UseAfterFree else Inr (Some key_not_found, st2)))
       else server_start m (Some (aof_log_bytes aof1)) None stack line now = Some (Inl UseAfterFree))"
proof -
  let ?cs = "map (\<lambda>(k, v). RSet k v) xs"
  have s: "list_all (\<lambda>(k, v). storable_pair k v) xs" using assms(4) by (auto simp: list_all_iff)
  obtain st1 aof1 where p: "put_all server_put st xs = Some st1" "sv_aof st1 = Some aof1"
    "aof_log_bytes aof1 = concat (map record_of ?cs)"
    using puts_logged [OF assms(1,2) s] assms(5-7) by (auto simp: log_grows_def)
  have l: "list_all (\<lambda>c. loggable c \<and> keeps_key c) ?cs"
    using assms(4) by (auto simp: list_all_iff storable_pair_def)
  have "list_all loggable ?cs" using l by (simp only: list_all_iff) blast
  then have "length (concat (map record_of ?cs)) \<le> 4095 * length xs" using log_length [of ?cs] by (simp del: map_map)
  then have a: "32 * 2 ^ 20 + 1000 + length (concat (map record_of ?cs)) \<le> avail m" using assms(9) by simp
  have n: "length (stored ?cs) < 65536" using assms(3) by simp
  note restart = restart_from_log [OF assms(8) a l n assms(10), of stack now, unfolded restartable_puts stored_puts tellable_Nil]
  show ?thesis
    by (rule exI [of _ st1], rule exI [of _ aof1], intro conjI p(1,2)) (unfold p(3), rule restart)
qed

theorem server_restart_exact_witness:
  "(\<exists>st1 aof1. put_all server_put demo_server [([107], [118]), ([107], [119])] = Some st1 \<and> sv_aof st1 = Some aof1
      \<and> server_start (mem_init 40000000) (Some (aof_log_bytes aof1)) None (\<lambda>_ _. 0) (replicate 4096 0) 0 = Some (Inl UseAfterFree))
    \<and> (\<exists>st1 aof1 st2. put_all server_put demo_server [([107], [118])] = Some st1 \<and> sv_aof st1 = Some aof1
      \<and> server_start (mem_init 40000000) (Some (aof_log_bytes aof1)) None (\<lambda>_ _. 0) (replicate 4096 0) 0 = Some (Inr st2)
      \<and> http_call (get_request [107]) st2 = Some (Inl UseAfterFree))"
proof -
  have l: "loggable (RSet [107] [118])" "loggable (RSet [107] [119])"
    by (simp_all add: set_record_def set_head_def dec.simps)
  have s: "sendable [107]" by (simp add: sendable_def plain_val_def)
  have d: "sv_aof demo_server = Some (aof_empty AOF_SYNC_NO)" by (simp add: demo_server_def)
  have m: "mem_ok (mem_init 40000000)" "avail (mem_init 40000000) = 40000000" "length (replicate 4096 (0 :: byte)) = 4096"
    by (simp_all add: mem_init_def mem_ok_def)
  have p: "list_all (\<lambda>(k, v). storable_pair k v \<and> loggable (RSet k v)) [([107], [118]), ([107], [119])]"
    "list_all (\<lambda>(k, v). storable_pair k v \<and> loggable (RSet k v)) [([107], [118])]"
    using demo_pair l by (simp_all del: loggable.simps)
  have q: "server_load demo_server + length [([107], [118]), ([107], [119])] \<le> server_bound demo_server"
    "server_load demo_server + length [([107], [118])] \<le> server_bound demo_server"
    using demo_server_facts(2,3) by simp_all
  have t: "\<not> sorted_wrt (\<lambda>j k. \<not> twin j k) (map fst [([107], [118]), ([107], [119])])" "twin_in (map fst [([107], [118])]) [107]"
    "sorted_wrt (\<lambda>j k. \<not> twin j k) (map fst [([107 :: byte], [118 :: byte])])"
    by simp_all
  note e = server_restart_exact [OF demo_server_facts(1) _ _ _ d aof_empty_facts(1,2) m(1) _ m(3)]
  have 1: "32 * 2 ^ 20 + 1000 + 4095 * length [([107], [118]), ([107], [119])] \<le> avail (mem_init 40000000)"
    "32 * 2 ^ 20 + 1000 + 4095 * length [([107], [118])] \<le> avail (mem_init 40000000)" using m(2) by simp_all
  have 2: "length [([107], [118]), ([107], [119])] < 65536" "length [([107], [118])] < 65536" by simp_all
  have "\<exists>st1 aof1. put_all server_put demo_server [([107], [118]), ([107], [119])] = Some st1 \<and> sv_aof st1 = Some aof1
      \<and> server_start (mem_init 40000000) (Some (aof_log_bytes aof1)) None (\<lambda>_ _. 0) (replicate 4096 0) 0 = Some (Inl UseAfterFree)"
    using e [OF q(1) 2(1) p(1) 1(1), of "\<lambda>_ _. 0" 0, unfolded if_not_P [OF t(1)]] .
  moreover obtain st1 aof1 st2 where "put_all server_put demo_server [([107], [118])] = Some st1" "sv_aof st1 = Some aof1"
    "server_start (mem_init 40000000) (Some (aof_log_bytes aof1)) None (\<lambda>_ _. 0) (replicate 4096 0) 0 = Some (Inr st2)"
    and g: "\<forall>key. sendable key \<longrightarrow> http_call (get_request key) st2
      = Some (if twin_in (map fst [([107], [118 :: byte])]) key then Inl UseAfterFree else Inr (Some key_not_found, st2))"
    using e [OF q(2) 2(2) p(2) 1(2), of "\<lambda>_ _. 0" 0, unfolded if_P [OF t(3)]] by (elim exE conjE)
  moreover have "http_call (get_request [107]) st2 = Some (Inl UseAfterFree)"
    using g [rule_format, OF s, unfolded if_P [OF t(2)]] .
  ultimately show ?thesis by blast
qed

end
