(* ===== verification/Hashmap_Safety.thy ===== *)
theory Hashmap_Safety
  imports Hashmap_Frame
begin

text \<open>
  What is left of the table of \<^verbatim>\<open>src/core/hashmap/hashmap.c\<close> once keys have been deleted: tombstones
  break the Robin Hood order, so lookups may miss keys, but as long as one bucket has never been
  used every operation returns without a fault. This is the weaker invariant a client can rely on
  for any mix of the three operations.
\<close>

section \<open>Safe tables\<close>

text \<open>\<open>V\<close> is what the client guarantees of the values it stores.\<close>

definition node_safe :: "mem \<Rightarrow> (ptr \<Rightarrow> bool) \<Rightarrow> hm_node \<Rightarrow> bool" where
  "node_safe m V nd \<longleftrightarrow> (\<exists>bs. mem_read m (node_key nd) (unat (node_key_len nd)) = Inr bs) \<and> V (node_value nd)"

definition nodes_safe :: "mem \<Rightarrow> (ptr \<Rightarrow> bool) \<Rightarrow> hm_node list \<Rightarrow> bool" where
  "nodes_safe m V T \<longleftrightarrow> (\<forall>nd \<in> set T. occ nd \<longrightarrow> node_safe m V nd)"

definition shaped :: "hashmap \<Rightarrow> bool" where
  "shaped hm \<longleftrightarrow> (\<exists>k. unat (hm_capacity hm) = 2 ^ k) \<and> length (hm_buckets hm) = unat (hm_capacity hm)"

definition used :: "hashmap \<Rightarrow> nat" where
  "used hm = length (filter occ (hm_buckets hm))"

definition hm_safe :: "mem \<Rightarrow> (ptr \<Rightarrow> bool) \<Rightarrow> hashmap \<Rightarrow> bool" where
  "hm_safe m V hm \<longleftrightarrow> shaped hm \<and> nodes_safe m V (hm_buckets hm)"

lemma shapedD:
  assumes "shaped hm"
  obtains k where "unat (hm_capacity hm) = 2 ^ k" "length (hm_buckets hm) = unat (hm_capacity hm)" "hm_buckets hm \<noteq> []"
proof -
  obtain k where k: "unat (hm_capacity hm) = 2 ^ k" "length (hm_buckets hm) = unat (hm_capacity hm)"
    using assms by (auto simp: shaped_def)
  then have "hm_buckets hm \<noteq> []" by auto
  then show ?thesis using that k by blast
qed

lemma used_set_bucket:
  assumes "unat i < length (hm_buckets hm)"
  shows "used (set_bucket hm i nd) + (if occ (hm_buckets hm ! unat i) then 1 else 0)
    = used hm + (if occ nd then 1 else 0)"
  using arg_cong [OF entries_update [OF assms, of undefined nd], of size]
  by (auto simp: used_def set_bucket_def entries_length split: if_splits)

lemma used_count [simp]: "used (hm\<lparr>hm_count := n\<rparr>) = used hm"
  by (simp add: used_def)

lemma hm_safe_count [simp]: "hm_safe m V (hm\<lparr>hm_count := n\<rparr>) = hm_safe m V hm"
  by (simp add: hm_safe_def shaped_def)

lemma hm_safe_set_bucket:
  assumes "hm_safe m V hm" "occ nd \<Longrightarrow> node_safe m V nd"
  shows "hm_safe m V (set_bucket hm i nd)"
  using assms set_update_subset_insert [of "hm_buckets hm" "unat i" nd]
  by (auto simp: hm_safe_def shaped_def nodes_safe_def set_bucket_def)

lemma key_match_safe:
  assumes "node_safe m V nd" "length key < 2 ^ 64"
  shows "\<exists>b. key_match m nd hash key = Inr b"
proof (cases "(ucast (node_key_len nd) :: u64) = of_nat (length key)")
  case True
  have u: "(ucast (node_key_len nd) :: u64) = of_nat (unat (node_key_len nd))" by (simp only: of_nat_unat)
  have l: "unat (node_key_len nd) < 2 ^ 64" using unsigned_less [of "node_key_len nd", where ?'a = nat] by simp
  have "length key = unat (node_key_len nd)"
    using True u l assms(2) by (metis of_nat_u64_inj)
  then show ?thesis using assms(1) by (auto simp: node_safe_def key_match_def)
qed (auto simp: key_match_def)

section \<open>Searches\<close>

lemma probe_safe:
  assumes "hm_safe m V hm" "length key < 2 ^ 64"
  shows "\<not> occ (at_pos (hm_buckets hm) (p + r)) \<Longrightarrow> unat i = p mod length (hm_buckets hm) \<Longrightarrow>
    \<exists>slot. probe_loop m key hash hm dib i = Some (Inr slot)
      \<and> (\<forall>t. slot = Some t \<longrightarrow> unat t < length (hm_buckets hm) \<and> V (node_value (hm_buckets hm ! unat t)))"
proof (induction r arbitrary: p i dib)
  case 0
  obtain k where k: "hm_buckets hm \<noteq> []" using shapedD assms(1) by (metis hm_safe_def)
  have "bucket hm i = Inr (at_pos (hm_buckets hm) p)" by (rule bucket_at [OF 0(2) k])
  then show ?case using 0(1) by (subst probe_loop.simps) (simp add: occ_def)
next
  case (Suc r)
  obtain k where k: "unat (hm_capacity hm) = 2 ^ k" "length (hm_buckets hm) = unat (hm_capacity hm)" "hm_buckets hm \<noteq> []"
    using shapedD assms(1) by (metis hm_safe_def)
  let ?nd = "at_pos (hm_buckets hm) p"
  have b: "bucket hm i = Inr ?nd" by (rule bucket_at [OF Suc.prems(2) k(3)])
  have t: "unat i < length (hm_buckets hm)" "hm_buckets hm ! unat i = ?nd"
    using Suc.prems(2) k(3) by (simp_all add: at_pos_def)
  show ?case
  proof (cases "node_hash ?nd = 0 \<or> node_dib ?nd < dib")
    case True
    then show ?thesis using b by (subst probe_loop.simps) simp
  next
    case False
    have s: "node_safe m V ?nd"
      using assms(1) False at_pos_in [OF k(3)] by (simp add: hm_safe_def nodes_safe_def occ_def)
    then obtain same where same: "key_match m ?nd hash key = Inr same" using key_match_safe [OF _ assms(2)] by blast
    have "unat (next_idx hm i) = (p + 1) mod length (hm_buckets hm)" by (rule next_idx_at [OF k(1,2) Suc.prems(2)])
    then obtain slot where "probe_loop m key hash hm (dib + 1) (next_idx hm i) = Some (Inr slot)"
      "\<forall>t. slot = Some t \<longrightarrow> unat t < length (hm_buckets hm) \<and> V (node_value (hm_buckets hm ! unat t))"
      using Suc.IH [of "p + 1" "next_idx hm i" "dib + 1"] Suc.prems(1) by auto
    then show ?thesis using b False same s t by (subst probe_loop.simps) (auto simp: node_safe_def)
  qed
qed

lemma probe_start:
  assumes "hm_safe m V hm" "used hm < unat (hm_capacity hm)" "length key < 2 ^ 64"
  shows "\<exists>slot. probe_loop m key h hm 0 (idx hm h) = Some (Inr slot)
    \<and> (\<forall>t. slot = Some t \<longrightarrow> unat t < length (hm_buckets hm) \<and> V (node_value (hm_buckets hm ! unat t)))"
proof -
  obtain k where k: "unat (hm_capacity hm) = 2 ^ k" "length (hm_buckets hm) = unat (hm_capacity hm)"
    using shapedD assms(1) by (metis hm_safe_def)
  have "room (hm_buckets hm)" using assms(2) k(2) by (simp add: room_def used_def)
  then obtain r where "\<not> occ (at_pos (hm_buckets hm) (unat h + r))" using first_empty by metis
  then show ?thesis using probe_safe [OF assms(1,3)] idx_at [OF k, of h] by blast
qed

lemma hm_get_safe:
  assumes "hm_safe m V hm" "used hm < unat (hm_capacity hm)" "c_string m key = Inr k" "length k < 2 ^ 64"
  shows "\<exists>v. hm_get m (Some hm) key = Some (Inr v) \<and> (v = NULL \<or> V v)"
proof -
  have "key \<noteq> NULL" using assms(3) by (auto simp: c_string_def mem_block_def)
  then show ?thesis
    using probe_start [OF assms(1,2,4), of "FNV_1a k"] assms(3)
    by (auto simp: hm_get_def get_eq_probe get_result_def split: option.split)
qed

lemma tomb_slot_safe:
  assumes "hm_safe m V hm" "unat t < length (hm_buckets hm)"
  shows "hm_safe m V (tomb_slot hm t)" "used (tomb_slot hm t) = used hm" "hm_capacity (tomb_slot hm t) = hm_capacity hm"
proof -
  let ?nd = "hm_buckets hm ! unat t"
  let ?nd' = "?nd\<lparr>node_flags := node_flags ?nd OR HM_FLAG_TOMB\<rparr>"
  have o: "occ ?nd' = occ ?nd" by (simp add: occ_def)
  have "occ ?nd' \<Longrightarrow> node_safe m V ?nd'"
    using assms o by (simp add: hm_safe_def nodes_safe_def node_safe_def)
  then have "hm_safe m V (set_bucket hm t ?nd')" by (rule hm_safe_set_bucket [OF assms(1)])
  then show "hm_safe m V (tomb_slot hm t)" by (simp add: tomb_slot_def)
  show "used (tomb_slot hm t) = used hm" using used_set_bucket [OF assms(2), of ?nd'] o by (simp add: tomb_slot_def)
qed (simp add: tomb_slot_def set_bucket_def)

text \<open>
  The table after a deletion is safe in every memory the table before it was safe in: a deletion
  only sets a flag.
\<close>

lemma hm_delete_safe:
  assumes "hm_safe m V hm" "used hm < unat (hm_capacity hm)" "c_string m key = Inr k" "length k < 2 ^ 64"
  shows "\<exists>rc hm'. hm_delete m (Some hm) key fv = Some (Inr (rc, Some hm'))
    \<and> used hm' = used hm \<and> hm_capacity hm' = hm_capacity hm \<and> (\<forall>m V. hm_safe m V hm \<longrightarrow> hm_safe m V hm')"
proof -
  have nn: "key \<noteq> NULL" using assms(3) by (auto simp: c_string_def mem_block_def)
  obtain slot where p: "probe_loop m k (FNV_1a k) hm 0 (idx hm (FNV_1a k)) = Some (Inr slot)"
    "\<And>t. slot = Some t \<Longrightarrow> unat t < length (hm_buckets hm)"
    using probe_start [OF assms(1,2,4)] by blast
  have d: "hm_delete m (Some hm) key fv = Some (Inr (apsnd Some (delete_result hm slot)))"
    using p(1) nn assms(3) by (simp add: hm_delete_def delete_eq_probe)
  then show ?thesis using tomb_slot_safe(2,3) [OF assms(1)] tomb_slot_safe(1) p(2)
    by (cases slot) (auto simp: delete_result_def)
qed

section \<open>Insertion\<close>

lemma mem_read_less:
  assumes "mem_read m p n = Inr bs" "n' \<le> n"
  shows "\<exists>bs'. mem_read m p n' = Inr bs'"
proof (cases "n' = 0")
  case False
  then obtain x where "mem_block m p = Inr x" "n \<le> length x"
    using assms by (auto simp: mem_read_def rbind_eq_Inr split: if_splits)
  then show ?thesis using assms(2) by (simp add: mem_read_def)
qed (simp add: mem_read_def)

text \<open>A loop that ends, with a safe table in which at most one more bucket is used.\<close>

definition ends_safe :: "mem \<Rightarrow> (ptr \<Rightarrow> bool) \<Rightarrow> hashmap \<Rightarrow> nat \<Rightarrow> (int \<times> hashmap) res option \<Rightarrow> bool" where
  "ends_safe m V hm n r \<longleftrightarrow> (\<exists>rc hm'. r = Some (Inr (rc, hm')) \<and> hm_safe m V hm' \<and> used hm' \<le> n + 1
     \<and> hm_capacity hm' = hm_capacity hm)"

lemma insert_put_safe:
  assumes "hm_safe m V hm" "occ cur \<longrightarrow> node_safe m V cur" "unat i < length (hm_buckets hm)"
  shows "hm_safe m V (set_bucket hm i cur)" "used (set_bucket hm i cur) \<le> used hm + 1"
    "occ (hm_buckets hm ! unat i) \<Longrightarrow> used (set_bucket hm i cur) \<le> used hm"
    "hm_capacity (set_bucket hm i cur) = hm_capacity hm" "next_idx (set_bucket hm i cur) = next_idx hm"
  using hm_safe_set_bucket [OF assms(1), of cur i] assms(2) used_set_bucket [OF assms(3), of cur]
  by (auto simp: set_bucket_def next_idx_def fun_eq_iff split: if_splits)

lemma insert_stops_safe:
  assumes "hm_safe m V hm" "occ cur \<longrightarrow> node_safe m V cur" "bucket hm i = Inr nd" "node_hash nd = 0 \<or> is_tomb nd"
  shows "ends_safe m V hm (used hm) (hm_insert_loop m key hash val vl hm cur i)"
proof -
  have "unat i < length (hm_buckets hm)" using assms(3) by (simp add: bucket_def split: if_splits)
  note p = insert_put_safe [OF assms(1,2) this]
  show ?thesis using p(1,2,4) assms(3,4) by (subst hm_insert_loop.simps) (simp add: ends_safe_def)
qed

lemma insert_goes_on_safe:
  assumes "hm_safe m V hm" "occ cur \<longrightarrow> node_safe m V cur" "length key < 2 ^ 64" "V val"
    and "bucket hm i = Inr nd" "node_hash nd \<noteq> 0" "\<not> is_tomb nd"
    and swap: "ends_safe m V hm (used hm)
      (hm_insert_loop m key hash val vl (set_bucket hm i cur) (nd\<lparr>node_dib := node_dib nd + 1\<rparr>) (next_idx hm i))"
    and pass: "ends_safe m V hm (used hm) (hm_insert_loop m key hash val vl hm (cur\<lparr>node_dib := node_dib cur + 1\<rparr>) (next_idx hm i))"
  shows "ends_safe m V hm (used hm) (hm_insert_loop m key hash val vl hm cur i)"
proof -
  have i: "unat i < length (hm_buckets hm)" "hm_buckets hm ! unat i = nd" using assms(5) by (auto simp: bucket_def split: if_splits)
  have o: "occ nd" using assms(6) by (simp add: occ_def)
  have s: "node_safe m V nd" using assms(1) i o by (auto simp: hm_safe_def nodes_safe_def)
  obtain same where same: "key_match m nd hash key = Inr same" using key_match_safe [OF s assms(3)] by blast
  let ?upd = "nd\<lparr>node_value := val, node_val_len := ucast vl\<rparr>"
  have "occ ?upd \<longrightarrow> node_safe m V ?upd" using s assms(4) by (simp add: node_safe_def)
  note upd = insert_put_safe [OF assms(1) this i(1)]
  have "ends_safe m V hm (used hm) (Some (Inr (0, set_bucket hm i ?upd)))" using upd(1,2,4) by (simp add: ends_safe_def)
  then show ?thesis using assms(5-7) same swap pass by (subst hm_insert_loop.simps) simp
qed

lemma insert_loop_safe:
  assumes "length key < 2 ^ 64" "V val"
  shows "hm_safe m V hm \<Longrightarrow> (occ cur \<longrightarrow> node_safe m V cur) \<Longrightarrow> \<not> occ (at_pos (hm_buckets hm) (p + r))
    \<Longrightarrow> unat i = p mod length (hm_buckets hm)
    \<Longrightarrow> ends_safe m V hm (used hm) (hm_insert_loop m key hash val vl hm cur i)"
proof (induction r arbitrary: p i hm cur)
  case 0
  then have "hm_buckets hm \<noteq> []" using shapedD by (metis hm_safe_def)
  then have "bucket hm i = Inr (at_pos (hm_buckets hm) p)" by (rule bucket_at [OF 0(4)])
  then show ?case using insert_stops_safe [OF 0(1,2)] 0(3) by (simp add: occ_def)
next
  case (Suc r)
  obtain k where k: "unat (hm_capacity hm) = 2 ^ k" "length (hm_buckets hm) = unat (hm_capacity hm)" "hm_buckets hm \<noteq> []"
    using shapedD Suc.prems(1) by (metis hm_safe_def)
  let ?T = "hm_buckets hm"
  let ?nd = "at_pos ?T p"
  have b: "bucket hm i = Inr ?nd" by (rule bucket_at [OF Suc.prems(4) k(3)])
  have t: "unat i < length ?T" "?T ! unat i = ?nd" using Suc.prems(4) k(3) by (simp_all add: at_pos_def)
  have nx: "unat (next_idx hm i) = (p + 1) mod length ?T" by (rule next_idx_at [OF k(1,2) Suc.prems(4)])
  have dib: "occ (x\<lparr>node_dib := d\<rparr>) = occ x" "node_safe m V (x\<lparr>node_dib := d\<rparr>) = node_safe m V x" for x d
    by (simp_all add: occ_def node_safe_def)
  have free: "\<not> occ (at_pos ?T (p + 1 + r))" using Suc.prems(3) by simp
  show ?case
  proof (cases "node_hash ?nd = 0 \<or> is_tomb ?nd")
    case True
    then show ?thesis by (rule insert_stops_safe [OF Suc.prems(1,2) b])
  next
    case False
    then have o: "occ ?nd" by (simp add: occ_def)
    have s: "node_safe m V ?nd" using Suc.prems(1) o at_pos_in [OF k(3)] by (simp add: hm_safe_def nodes_safe_def)
    let ?hm = "set_bucket hm i cur"
    note put = insert_put_safe [OF Suc.prems(1,2) t(1)]
    have len: "length (hm_buckets ?hm) = length ?T" by (simp add: set_bucket_def)
    have "(p + 1 + r) mod length ?T \<noteq> unat i" using Suc.prems(3,4) o by (auto simp: at_pos_def)
    then have "\<not> occ (at_pos (hm_buckets ?hm) (p + 1 + r))" using free by (simp add: at_pos_def set_bucket_def)
    then have "ends_safe m V ?hm (used ?hm) (hm_insert_loop m key hash val vl ?hm (?nd\<lparr>node_dib := node_dib ?nd + 1\<rparr>) (next_idx hm i))"
      using Suc.IH [OF put(1), of "?nd\<lparr>node_dib := node_dib ?nd + 1\<rparr>" "p + 1" "next_idx hm i"] s nx len dib by simp
    then have "ends_safe m V hm (used hm) (hm_insert_loop m key hash val vl ?hm (?nd\<lparr>node_dib := node_dib ?nd + 1\<rparr>) (next_idx hm i))"
      using put(3,4) o t(2) by (auto simp: ends_safe_def)
    moreover have "ends_safe m V hm (used hm) (hm_insert_loop m key hash val vl hm (cur\<lparr>node_dib := node_dib cur + 1\<rparr>) (next_idx hm i))"
      using Suc.IH [OF Suc.prems(1), of "cur\<lparr>node_dib := node_dib cur + 1\<rparr>" "p + 1" "next_idx hm i"] Suc.prems(2) free nx dib by simp
    ultimately show ?thesis using insert_goes_on_safe [OF Suc.prems(1,2) assms b] False by simp
  qed
qed

lemma hm_insert_safe:
  assumes "hm_safe m V hm" "used hm < unat (hm_capacity hm)" "c_string m key = Inr k" "length k < 2 ^ 64" "V val"
  shows "\<exists>rc hm'. hm_insert m (Some hm) key val vl = Some (Inr (rc, Some hm')) \<and> hm_safe m V hm'
    \<and> used hm' \<le> used hm + 1 \<and> hm_capacity hm' = hm_capacity hm"
proof -
  have nn: "key \<noteq> NULL" using assms(3) by (auto simp: c_string_def mem_block_def)
  obtain b where b: "unat (hm_capacity hm) = 2 ^ b" "length (hm_buckets hm) = unat (hm_capacity hm)"
    using shapedD assms(1) by (metis hm_safe_def)
  have "room (hm_buckets hm)" using assms(2) b(2) by (simp add: room_def used_def)
  then obtain r where r: "\<not> occ (at_pos (hm_buckets hm) (unat (FNV_1a k) + r))" using first_empty by metis
  have "unat (of_nat (length k) :: u16) \<le> length k" by (simp add: unat_of_nat)
  then have "\<exists>bs. mem_read m key (unat (of_nat (length k) :: u16)) = Inr bs"
    using mem_read_less [OF c_string_read [OF assms(3)]] by blast
  then have "node_safe m V (new_node k key val vl)" using assms(5) by (simp add: node_safe_def new_node_def)
  then have "ends_safe m V hm (used hm)
      (hm_insert_loop m k (FNV_1a k) val vl hm (new_node k key val vl) (idx hm (FNV_1a k)))"
    using insert_loop_safe [where V = V, OF assms(4,5) assms(1) _ r idx_at [OF b, of "FNV_1a k"]] by blast
  then show ?thesis using nn assms(3) by (auto simp: ends_safe_def hm_insert_def)
qed

section \<open>Any mix of operations\<close>

lemma hm_ok_safe:
  assumes "hm_ok m hm"
  shows "hm_safe m (\<lambda>_. True) hm" "used hm = unat (hm_count hm)"
proof -
  have "node_safe m (\<lambda>_. True) nd" if "nd \<in> set (hm_buckets hm)" "occ nd" for nd
  proof -
    have "node_ok m nd" using assms that by (simp add: hm_ok_def table_ok_def nodes_ok_def)
    then obtain k where "c_string m (node_key nd) = Inr k" "length k = unat (node_key_len nd)"
      by (auto simp: node_ok_def)
    then show ?thesis using c_string_read [of m "node_key nd" k] by (auto simp: node_safe_def)
  qed
  then show "hm_safe m (\<lambda>_. True) hm"
    using assms by (auto simp: hm_safe_def nodes_safe_def shaped_def hm_ok_def)
  show "used hm = unat (hm_count hm)" using assms by (simp add: used_def hm_ok_def entries_length)
qed

text \<open>The calls a client makes, and a run of them, their results dropped.\<close>

datatype table_op = OpInsert ptr ptr u64 | OpGet ptr | OpDelete ptr int

fun op_key :: "table_op \<Rightarrow> ptr" where
  "op_key (OpInsert key val val_len) = key"
| "op_key (OpGet key) = key"
| "op_key (OpDelete key fv) = key"

fun is_insert :: "table_op \<Rightarrow> bool" where
  "is_insert (OpInsert key val val_len) = True"
| "is_insert _ = False"

fun table_call :: "mem \<Rightarrow> table_op \<Rightarrow> hashmap option \<Rightarrow> hashmap option res option" where
  "table_call m (OpInsert key val val_len) hmp = map_option (map_sum id snd) (hm_insert m hmp key val val_len)"
| "table_call m (OpGet key) hmp = map_option (map_sum id (\<lambda>v. hmp)) (hm_get m hmp key)"
| "table_call m (OpDelete key fv) hmp = map_option (map_sum id snd) (hm_delete m hmp key fv)"

fun table_calls :: "mem \<Rightarrow> table_op list \<Rightarrow> hashmap option \<Rightarrow> hashmap option res option" where
  "table_calls m [] hmp = Some (Inr hmp)"
| "table_calls m (x # xs) hmp =
     (case table_call m x hmp of
        None \<Rightarrow> None
      | Some (Inl e) \<Rightarrow> Some (Inl e)
      | Some (Inr hmp') \<Rightarrow> table_calls m xs hmp')"

definition readable_key :: "mem \<Rightarrow> table_op \<Rightarrow> bool" where
  "readable_key m x \<longleftrightarrow> (\<exists>k. c_string m (op_key x) = Inr k \<and> length k < 2 ^ 64)"

lemma table_call_safe:
  assumes "hm_safe m (\<lambda>_. True) hm" "used hm < unat (hm_capacity hm)" "readable_key m x"
  shows "\<exists>hm'. table_call m x (Some hm) = Some (Inr (Some hm')) \<and> hm_safe m (\<lambda>_. True) hm'
    \<and> used hm' \<le> used hm + (if is_insert x then 1 else 0) \<and> hm_capacity hm' = hm_capacity hm"
proof -
  obtain k where k: "c_string m (op_key x) = Inr k" "length k < 2 ^ 64" using assms(3) by (auto simp: readable_key_def)
  show ?thesis
  proof (cases x)
    case (OpInsert key val val_len)
    then show ?thesis
      using hm_insert_safe [OF assms(1,2), of key k val val_len] k by auto
  next
    case (OpGet key)
    then show ?thesis using hm_get_safe [OF assms(1,2), of key k] k assms(1) by auto
  next
    case (OpDelete key fv)
    obtain rc hm' where "hm_delete m (Some hm) key fv = Some (Inr (rc, Some hm'))" "used hm' = used hm"
      "hm_capacity hm' = hm_capacity hm" "hm_safe m (\<lambda>_. True) hm'"
      using hm_delete_safe [OF assms(1,2), of key k fv] k OpDelete assms(1) by auto
    then show ?thesis using OpDelete by auto
  qed
qed

lemma table_calls_safe:
  "hm_safe m (\<lambda>_. True) hm \<Longrightarrow> used hm + length (filter is_insert xs) < unat (hm_capacity hm) \<Longrightarrow>
   list_all (readable_key m) xs \<Longrightarrow>
   \<exists>hm'. table_calls m xs (Some hm) = Some (Inr (Some hm')) \<and> hm_safe m (\<lambda>_. True) hm'
     \<and> hm_capacity hm' = hm_capacity hm"
proof (induction xs arbitrary: hm)
  case (Cons x xs)
  then have "used hm < unat (hm_capacity hm)" "readable_key m x" by simp_all
  then obtain hm1 where h: "table_call m x (Some hm) = Some (Inr (Some hm1))" "hm_safe m (\<lambda>_. True) hm1"
    "used hm1 \<le> used hm + (if is_insert x then 1 else 0)" "hm_capacity hm1 = hm_capacity hm"
    using table_call_safe [OF Cons.prems(1)] by blast
  have "used hm1 + length (filter is_insert xs) < unat (hm_capacity hm1)"
    using h(3,4) Cons.prems(2) by (auto split: if_splits)
  then show ?case using Cons.IH [OF h(2)] Cons.prems(3) h(1,4) by simp
qed simp

text \<open>
  C21. Any run of insertions, lookups and deletions on a well-formed table, in any order, returns from
  every call without a fault, as long as the insertions, new keys or not, leave one bucket that was
  never used; and it never moves or resizes the table.
\<close>

theorem hm_any_mix_is_safe:
  assumes "hm_ok m hm" "unat (hm_count hm) + length (filter is_insert xs) < unat (hm_capacity hm)"
    and "list_all (readable_key m) xs"
  shows "\<exists>hm'. table_calls m xs (Some hm) = Some (Inr (Some hm')) \<and> hm_capacity hm' = hm_capacity hm
    \<and> length (hm_buckets hm') = length (hm_buckets hm)"
  using table_calls_safe [OF hm_ok_safe(1) [OF assms(1)] _ assms(3)] assms(1,2) hm_ok_safe(2) [OF assms(1)]
  by (auto simp: hm_safe_def shaped_def hm_ok_def)

theorem hm_any_mix_is_safe_witness:
  "\<exists>hm'. table_calls demo_mem [OpInsert (Ptr 0 0) (Ptr 9 0) 1, OpDelete (Ptr 0 0) 1, OpDelete (Ptr 0 0) 1,
        OpInsert (Ptr 1 0) (Ptr 10 0) 1, OpGet (Ptr 0 0)] (Some (demo_table 4)) = Some (Inr (Some hm'))
    \<and> hm_capacity hm' = 4"
proof -
  have t: "hm_ok demo_mem (demo_table 4)" by (rule demo_table_ok [where b = 2]) simp
  show ?thesis
    using hm_any_mix_is_safe [OF t, of "[OpInsert (Ptr 0 0) (Ptr 9 0) 1, OpDelete (Ptr 0 0) 1, OpDelete (Ptr 0 0) 1,
        OpInsert (Ptr 1 0) (Ptr 10 0) 1, OpGet (Ptr 0 0)]"] demo_strings
    by (auto simp: demo_table_def readable_key_def simp del: table_calls.simps)
qed

end
