(* ===== verification/Server_Safety.thy ===== *)
theory Server_Safety
  imports Server_Session Http_Worker Hashmap_Safety
begin

text \<open>
  The handlers of \<^verbatim>\<open>server.handler.c\<close> as a service: while memory and buckets last, any mix of
  requests, well formed or not, is answered, and a connection never faults.
\<close>

section \<open>Tables in a growing memory\<close>

lemma mem_grows_block:
  assumes "mem_ok m" "mem_grows m m'" "mem_block m p = Inr bs"
  shows "mem_block m' p = Inr bs"
proof -
  obtain b off where p: "p = Ptr b off" "blocks m b \<noteq> None"
    using assms(3) by (cases p) (auto simp: mem_block_def split: option.splits)
  then have "b < next_block m" using assms(1) by (metis linorder_not_le mem_ok_def)
  then show ?thesis using assms(2,3) p(1) by (simp add: mem_grows_def mem_block_def)
qed

lemma mem_grows_read:
  assumes "mem_ok m" "mem_grows m m'" "mem_read m p n = Inr bs"
  shows "mem_read m' p n = Inr bs"
  using assms(3) mem_grows_block [OF assms(1,2), of p]
  by (auto simp: mem_read_def rbind_eq_Inr split: if_splits)

lemma node_safe_grows:
  assumes "mem_ok m" "mem_grows m m'" "\<And>p. V p \<Longrightarrow> V' p" "node_safe m V nd"
  shows "node_safe m' V' nd"
proof -
  obtain bs where bs: "mem_read m (node_key nd) (unat (node_key_len nd)) = Inr bs" "V (node_value nd)"
    using assms(4) by (auto simp: node_safe_def)
  show ?thesis unfolding node_safe_def using mem_grows_read [OF assms(1,2) bs(1)] assms(3) [OF bs(2)] by simp
qed

lemma hm_safe_grows:
  assumes "mem_ok m" "mem_grows m m'" "\<And>p. V p \<Longrightarrow> V' p" "hm_safe m V hm"
  shows "hm_safe m' V' hm"
  using assms(4) node_safe_grows [OF assms(1-3)] by (auto simp: hm_safe_def nodes_safe_def)

section \<open>Servers able to answer\<close>

text \<open>The values a server stores: strings that fit a response.\<close>

definition short_string :: "mem \<Rightarrow> ptr \<Rightarrow> bool" where
  "short_string m p \<longleftrightarrow> (\<exists>s. c_string m p = Inr s \<and> length s \<le> BUFFER_SIZE)"

lemma short_string_grows: "mem_ok m \<Longrightarrow> mem_grows m m' \<Longrightarrow> short_string m p \<Longrightarrow> short_string m' p"
  unfolding short_string_def by (elim exE conjE) (rule exI, rule conjI [OF mem_grows_string])

text \<open>
  Able to answer \<open>n\<close> more requests: the table, if there is one, is safe and has more than \<open>n\<close> buckets
  that were never used, and there is memory for \<open>n\<close> keys and values as long as the buffer allows.
\<close>

definition db_able :: "nat \<Rightarrow> mem \<Rightarrow> hashmap option \<Rightarrow> bool" where
  "db_able n m hmp \<longleftrightarrow>
     (case hmp of
        None \<Rightarrow> True
      | Some hm \<Rightarrow> hm_safe m (short_string m) hm \<and> used hm + n < unat (hm_capacity hm))"

definition server_able :: "nat \<Rightarrow> server \<Rightarrow> bool" where
  "server_able n st \<longleftrightarrow> mem_ok (sv_mem st) \<and> n * 32770 \<le> avail (sv_mem st) \<and> db_able n (sv_mem st) (sv_db st)"

lemma server_able_less: "server_able (Suc n) st \<Longrightarrow> server_able n st"
  by (auto simp: server_able_def db_able_def split: option.splits)

lemma db_grows:
  assumes "mem_ok m" "mem_grows m m'" "db_able n m hmp"
  shows "db_able n m' hmp"
  using assms hm_safe_grows [OF assms(1,2), of "short_string m" "short_string m'"] short_string_grows [OF assms(1,2)]
  by (auto simp: db_able_def split: option.splits)

lemma nul_string: "mem_block m p = Inr (bs @ [0]) \<Longrightarrow> c_string m p = Inr (takeWhile (\<lambda>b. b \<noteq> 0) bs)"
  by (simp add: c_string_def takeWhile_tail)

lemma db_insert_able:
  assumes "db_able (Suc n) m hmp" "c_string m k = Inr key" "length key < 2 ^ 64" "short_string m v"
  shows "\<exists>rc hmp'. hm_insert m hmp k v vl = Some (Inr (rc, hmp')) \<and> db_able n m hmp'"
proof (cases hmp)
  case None
  then show ?thesis by (simp add: hm_insert_def db_able_def)
next
  case (Some hm)
  then have "hm_safe m (short_string m) hm" "used hm < unat (hm_capacity hm)" "used hm + Suc n < unat (hm_capacity hm)"
    using assms(1) by (simp_all add: db_able_def)
  then show ?thesis
    using hm_insert_safe [of m "short_string m" hm k key v vl] assms(2-4) Some by (fastforce simp: db_able_def)
qed

lemma db_get_able:
  assumes "db_able n m hmp" "c_string m k = Inr key" "length key < 2 ^ 64"
  shows "\<exists>v. hm_get m hmp k = Some (Inr v) \<and> (v = NULL \<or> short_string m v)"
proof (cases hmp)
  case None
  then show ?thesis by (simp add: hm_get_def)
next
  case (Some hm)
  then show ?thesis
    using hm_get_safe [of m "short_string m" hm k key] assms by (auto simp: db_able_def)
qed

lemma db_delete_able:
  assumes "db_able n m hmp" "c_string m k = Inr key" "length key < 2 ^ 64"
  shows "\<exists>rc hmp'. hm_delete m hmp k fv = Some (Inr (rc, hmp')) \<and> (\<forall>n m. db_able n m hmp \<longrightarrow> db_able n m hmp')"
proof (cases hmp)
  case None
  then show ?thesis by (simp add: hm_delete_def db_able_def)
next
  case (Some hm)
  then have "hm_safe m (short_string m) hm" "used hm < unat (hm_capacity hm)" using assms(1) by (simp_all add: db_able_def)
  then obtain rc hm' where d: "hm_delete m (Some hm) k fv = Some (Inr (rc, Some hm'))"
    "used hm' = used hm" "hm_capacity hm' = hm_capacity hm" "\<And>m V. hm_safe m V hm \<Longrightarrow> hm_safe m V hm'"
    using hm_delete_safe [OF _ _ assms(2,3), of "short_string m" hm fv] by blast
  then have "\<forall>n m. db_able n m hmp \<longrightarrow> db_able n m (Some hm')" using Some by (auto simp: db_able_def)
  then show ?thesis using d(1) Some by blast
qed

section \<open>Handlers\<close>

text \<open>Everything the server ever answers.\<close>

definition answer_ok :: "http_resp \<Rightarrow> bool" where
  "answer_ok res \<longleftrightarrow>
     res \<in> {missing_key_or_value, missing_key, key_not_found, insert_successful, key_deleted, handle_404}
     \<or> (\<exists>v. res = value_found v \<and> length v \<le> BUFFER_SIZE)"

lemma fixed_answers:
  "answer_ok missing_key_or_value" "answer_ok missing_key" "answer_ok key_not_found" "answer_ok insert_successful"
  "answer_ok key_deleted" "answer_ok handle_404"
  by (simp_all add: answer_ok_def)

lemma value_fits: "length v \<le> BUFFER_SIZE \<Longrightarrow> answer_ok (value_found v)"
  by (auto simp: answer_ok_def)

lemma answer_short:
  assumes "answer_ok res"
  shows "length (resp_bytes res) \<le> RESP_BUFFER_SIZE" "rs_status res \<in> {200, 400, 404}"
  using assms
  by (auto simp: answer_ok_def missing_key_or_value_def missing_key_def key_not_found_def insert_successful_def
      key_deleted_def handle_404_def answer_def value_found_def BUFFER_SIZE_def intro!: resp_length)

definition answers :: "nat \<Rightarrow> (http_resp \<times> server) res option \<Rightarrow> bool" where
  "answers n r \<longleftrightarrow> (\<exists>res st'. r = Some (Inr (res, st')) \<and> server_able n st' \<and> answer_ok res)"

lemma insert_answers:
  assumes "server_able (Suc n) st" "length key \<le> BUFFER_SIZE" "length val \<le> BUFFER_SIZE"
  shows "answers n (insert_copies key val st)"
proof -
  let ?m = "sv_mem st"
  have a: "mem_ok ?m" "n * 32770 + 32770 \<le> avail ?m" "db_able (Suc n) ?m (sv_db st)"
    using assms(1) by (simp_all add: server_able_def)
  have fit: "length key + length val + 2 \<le> avail ?m" using a(2) assms(2,3) by (simp add: BUFFER_SIZE_def)
  obtain k v m2 where c: "rbind (dup_bytes ?m key) (\<lambda>(k, m1). rbind (dup_bytes m1 val) (\<lambda>(v, m2). Inr (k, v, m2))) = Inr (k, v, m2)"
    "mem_grows ?m m2" "mem_ok m2" "avail m2 + length key + length val + 2 = avail ?m"
    "mem_block m2 k = Inr (key @ [0])" "mem_block m2 v = Inr (val @ [0])"
    using two_copies [OF a(1) fit] by blast
  let ?k = "takeWhile (\<lambda>b. b \<noteq> 0) key" and ?v = "takeWhile (\<lambda>b. b \<noteq> 0) val"
  have s: "c_string m2 k = Inr ?k" "c_string m2 v = Inr ?v" using nul_string c(5,6) by blast+
  have l: "length ?k \<le> BUFFER_SIZE" "length ?v \<le> BUFFER_SIZE"
    using assms(2,3) length_takeWhile_le le_trans by blast+
  have k64: "length ?k < 2 ^ 64" using l(1) by (simp add: BUFFER_SIZE_def)
  have sv: "short_string m2 v" using s(2) l(2) by (auto simp: short_string_def)
  obtain rc hmp' where i: "hm_insert m2 (sv_db st) k v (of_nat (length val)) = Some (Inr (rc, hmp'))" "db_able n m2 hmp'"
    using db_insert_able [OF db_grows [OF a(1) c(2) a(3)] s(1) k64 sv] by blast
  have "unat (of_nat (length val) :: u64) = length val"
    using assms(3) by (intro unat_of_nat_u64) (simp add: BUFFER_SIZE_def)
  then have "mem_read m2 v (unat (of_nat (length val) :: u64)) = Inr val" using c(6) by (simp add: mem_read_def)
  then obtain ret aof' where "aof_append_set m2 (sv_aof st) k v (of_nat (length val)) (sv_now st) = Inr (ret, aof')"
    using append_set_total [OF s(1)] by fastforce
  moreover have "n * 32770 \<le> avail m2" using a(2) c(4) assms(2,3) by (simp add: BUFFER_SIZE_def)
  ultimately show ?thesis
    using c(1,3) i fixed_answers(4) by (simp add: answers_def insert_copies_def server_able_def)
qed

lemma stack_grows:
  assumes "mem_ok m" "stack_copy m key = (k, m1)"
  shows "mem_ok m1" "mem_grows m m1" "c_string m1 k = Inr (takeWhile (\<lambda>b. b \<noteq> 0) key)"
  using assms by (auto simp: stack_copy_def mem_grows_def mem_ok_def intro!: nul_string) (simp add: mem_block_def)

lemma get_answers:
  assumes "server_able (Suc n) st" "length key \<le> BUFFER_SIZE"
  shows "answers n (get_key key st)"
proof -
  have a: "mem_ok (sv_mem st)" "db_able (Suc n) (sv_mem st) (sv_db st)" using assms(1) by (simp_all add: server_able_def)
  obtain k m1 where k: "stack_copy (sv_mem st) key = (k, m1)" by fastforce
  note g = stack_grows [OF a(1) k]
  have "length (takeWhile (\<lambda>b. b \<noteq> 0) key) < 2 ^ 64"
    using assms(2) length_takeWhile_le [of "\<lambda>b. b \<noteq> 0" key] by (simp add: BUFFER_SIZE_def)
  then obtain v where v: "hm_get m1 (sv_db st) k = Some (Inr v)" "v = NULL \<or> short_string m1 v"
    using db_get_able [OF db_grows [OF a(1) g(2) a(2)] g(3)] by blast
  show ?thesis
    using k v server_able_less [OF assms(1)] fixed_answers(3) value_fits
    by (auto simp: answers_def get_key_eq short_string_def)
qed

lemma delete_answers:
  assumes "server_able (Suc n) st" "length key \<le> BUFFER_SIZE"
  shows "answers n (delete_key key st)"
proof -
  have a: "mem_ok (sv_mem st)" "db_able n (sv_mem st) (sv_db st)"
    using server_able_less [OF assms(1)] by (simp_all add: server_able_def)
  obtain k m1 where k: "stack_copy (sv_mem st) key = (k, m1)" by fastforce
  note g = stack_grows [OF a(1) k]
  have l: "length (takeWhile (\<lambda>b. b \<noteq> 0) key) < 2 ^ 64"
    using assms(2) length_takeWhile_le [of "\<lambda>b. b \<noteq> 0" key] by (simp add: BUFFER_SIZE_def)
  obtain rc hmp' where d: "hm_delete m1 (sv_db st) k 1 = Some (Inr (rc, hmp'))" "db_able n (sv_mem st) hmp'"
    using db_delete_able [OF db_grows [OF a(1) g(2) a(2)] g(3) l, of 1] a(2) by blast
  obtain ret aof' where "aof_append_del m1 (sv_aof st) k (sv_now st) = Inr (ret, aof')"
    using append_del_total [OF g(3)] by fastforce
  moreover have "n * 32770 \<le> avail (sv_mem st)" using assms(1) by (simp add: server_able_def)
  ultimately show ?thesis
    using k d a(1) fixed_answers by (auto simp: answers_def delete_key_def server_able_def)
qed

section \<open>The service\<close>

lemma get_param_short:
  assumes "req_sound buf rq" "length buf \<le> BUFFER_SIZE" "req_get_param buf rq key = Some x"
  shows "length (param_val buf x) \<le> BUFFER_SIZE"
proof -
  have "x \<in> set (rq_params rq)" using assms(3) by (auto simp: req_get_param_def find_Some_iff)
  then have "param_in buf x" using assms(1) by (simp add: req_sound_def req_in_def)
  then show ?thesis
    using assms(2) by (auto simp: param_val_def in_buf_def param_in_def split: val_ptr.splits)
qed

lemma fixed_result: "server_able (Suc n) st \<Longrightarrow> answer_ok res \<Longrightarrow> answers n (Some (Inr (res, st)))"
  using server_able_less by (simp add: answers_def)

lemma handlers_answer:
  assumes "server_able (Suc n) st" "req_sound buf rq" "length buf \<le> BUFFER_SIZE"
  shows "answers n (insert_handler buf rq st)" "answers n (get_handler buf rq st)" "answers n (delete_handler buf rq st)"
  using fixed_result [OF assms(1)] fixed_answers get_param_short [OF assms(2,3)]
    insert_answers [OF assms(1)] get_answers [OF assms(1)] delete_answers [OF assms(1)]
  by (auto simp: insert_handler_def get_handler_def delete_handler_def split: option.splits)

lemma server_finds:
  "find_route server_routes buf rq \<in> {Some insert_handler, Some get_handler, Some delete_handler, None}"
  unfolding routes_list by simp

lemma routes_answer:
  assumes "server_able (Suc n) st" "req_sound buf rq" "length buf \<le> BUFFER_SIZE"
  shows "answers n (route_req server_routes buf rq st)"
  using server_finds [of buf rq] handlers_answer [OF assms] fixed_result [OF assms(1) fixed_answers(6)]
  by (auto simp: route_req_def)

interpretation server: service "route_req server_routes" server_able
proof
  fix n st buf rq
  assume "server_able (Suc n) st" "length buf \<le> BUFFER_SIZE" "req_sound buf rq"
  then show "\<exists>res st'. route_req server_routes buf rq st = Some (Inr (res, st')) \<and> server_able n st'
      \<and> length (resp_bytes res) \<le> RESP_BUFFER_SIZE"
    using routes_answer answer_short(1) by (fastforce simp: answers_def)
qed (rule server_able_less)


lemma demo_server_able: "server_able 3 demo_server"
proof -
  have o: "\<not> occ empty_node" by (simp add: occ_def empty_node_def)
  have "\<exists>k. (4 :: nat) = 2 ^ k" by (rule exI [of _ 2]) simp
  then have "shaped (demo_table 4)" by (simp add: shaped_def demo_table_def)
  then have "hm_safe m V (demo_table 4)" for m V
    using o by (auto simp: hm_safe_def nodes_safe_def demo_table_def)
  moreover have "used (demo_table 4) = 0" using o by (simp add: used_def demo_table_def)
  ultimately show ?thesis
    by (simp add: server_able_def db_able_def demo_server_def mem_ok_def mem_init_def demo_table_ok(4) [where b = 2])
qed


section \<open>The answers\<close>



end
