(* ===== verification/Manager.thy ===== *)
theory Manager
  imports Server
begin

text \<open>
  \<^verbatim>\<open>src/misc/manager.c\<close> and the \<open>handshake\<close> of \<^verbatim>\<open>server.c\<close>: backend servers announce themselves to
  the manager, clients are forwarded. The manager's system calls are a trace of actions; what
  \<open>accept\<close> and \<open>recv\<close> return is the input.
\<close>

section \<open>Registration and forwarding\<close>

definition MAX_SERVER :: nat where "MAX_SERVER = 20"

text \<open>\<open>id\<close> is the string in the array; its 64 bytes are zero at the start and 63 are copied.\<close>

record server_n =
  sn_fd :: int
  sn_id :: bytes
  sn_addr :: nat

datatype action = Close int | Send int bytes

definition strncpy_str :: "nat \<Rightarrow> bytes \<Rightarrow> bytes" where
  "strncpy_str n s = take n (takeWhile (\<lambda>b. b \<noteq> 0) s)"

definition register_server ::
    "server_n list \<Rightarrow> int \<Rightarrow> bytes \<Rightarrow> nat \<Rightarrow> server_n list \<times> action list" where
  "register_server servers fd buf cli =
     (if MAX_SERVER \<le> length servers then (servers, [Close fd])
      else (servers @ [\<lparr>sn_fd = fd, sn_id = strncpy_str 63 (drop 7 buf), sn_addr = cli\<rparr>], []))"

definition no_backend :: bytes where
  "no_backend = lit ''No backend servers available'' @ [10]"

fun handle_client :: "server_n list \<Rightarrow> int \<Rightarrow> bytes \<Rightarrow> action list" where
  "handle_client [] fd data = [Send fd no_backend]"
| "handle_client (s # ss) fd data = [Send (sn_fd s) data]"

section \<open>The loop\<close>

text \<open>A failed \<open>accept\<close>, or a connection with its address and what \<open>recv\<close> delivers, \<open>None\<close> for an error.\<close>

datatype incoming = No_conn | Conn int nat "bytes option"

definition announces :: "bytes \<Rightarrow> bool" where
  "announces buff \<longleftrightarrow> take 6 buff = lit ''SERVER''"

text \<open>The array \<open>buff\<close>: what was received, up to 4096 bytes, and zeros.\<close>

definition recv_buff :: "bytes \<Rightarrow> bytes" where
  "recv_buff data = data @ replicate (4096 - length data) 0"

fun manager_round :: "server_n list \<Rightarrow> incoming \<Rightarrow> server_n list \<times> action list" where
  "manager_round servers No_conn = (servers, [])"
| "manager_round servers (Conn fd cli None) = (servers, [Close fd])"
| "manager_round servers (Conn fd cli (Some got)) =
     (let data = take 4096 got; buff = recv_buff data in
      if data = [] then (servers, [Close fd])
      else if announces buff
      then (case register_server servers fd buff cli of
              (servers', acts) \<Rightarrow> (servers', acts @ [Send fd (lit ''OK'' @ [10])]))
      else (servers, handle_client servers fd data @ [Close fd]))"

fun manager_run :: "server_n list \<Rightarrow> incoming list \<Rightarrow> server_n list \<times> action list list" where
  "manager_run servers [] = (servers, [])"
| "manager_run servers (x # xs) =
     (let (servers1, acts) = manager_round servers x; (servers2, rest) = manager_run servers1 xs
      in (servers2, acts # rest))"

section \<open>The handshake\<close>

text \<open>
  \<open>snprintf\<close> into 256 bytes, then the string is sent. The outcomes of \<open>socket\<close>, \<open>inet_pton\<close> and
  \<open>connect\<close> are parameters; \<open>None\<close> is an early return, otherwise the answer is what was sent on the
  socket, which stays open.
\<close>

definition handshake :: "bool \<Rightarrow> bool \<Rightarrow> bool \<Rightarrow> bytes \<Rightarrow> bytes option" where
  "handshake socket_ok pton_ok connect_ok server_id =
     (if \<not> socket_ok \<or> \<not> pton_ok \<or> \<not> connect_ok then None
      else Some (take 255 (lit ''SERVER '' @ server_id @ [10])))"

section \<open>Properties\<close>

text \<open>What each incoming connection is to the manager.\<close>

fun registers :: "incoming \<Rightarrow> server_n option" where
  "registers (Conn fd cli (Some got)) =
     (if take 4096 got \<noteq> [] \<and> announces (recv_buff (take 4096 got))
      then Some \<lparr>sn_fd = fd, sn_id = strncpy_str 63 (drop 7 (recv_buff (take 4096 got))), sn_addr = cli\<rparr>
      else None)"
| "registers _ = None"

lemma round_servers:
  "fst (manager_round servers x)
    = (case registers x of None \<Rightarrow> servers | Some s \<Rightarrow> if MAX_SERVER \<le> length servers then servers else servers @ [s])"
  by (cases "(servers, x)" rule: manager_round.cases)
    (auto simp: register_server_def Let_def split: prod.splits)

lemma run_servers:
  "length servers \<le> MAX_SERVER \<Longrightarrow>
   fst (manager_run servers xs) = take MAX_SERVER (servers @ List.map_filter registers xs)"
proof (induction xs arbitrary: servers)
  case (Cons x xs)
  let ?s = "fst (manager_round servers x)"
  have "length ?s \<le> MAX_SERVER" using Cons.prems by (auto simp: round_servers split: option.splits)
  then have "fst (manager_run servers (x # xs)) = take MAX_SERVER (?s @ List.map_filter registers xs)"
    using Cons.IH [of ?s] by (simp add: case_prod_beta)
  also have "\<dots> = take MAX_SERVER (servers @ List.map_filter registers (x # xs))"
    using Cons.prems by (auto simp: round_servers List.map_filter_simps take_Cons' split: option.splits)
  finally show ?case .
qed (simp add: List.map_filter_simps)

lemma run_nth:
  "i < length xs \<Longrightarrow> snd (manager_run servers xs) ! i = snd (manager_round (fst (manager_run servers (take i xs))) (xs ! i))"
proof (induction xs arbitrary: servers i)
  case (Cons x xs)
  then show ?case by (cases i) (auto simp: case_prod_beta)
qed simp

text \<open>The round of a client.\<close>

lemma client_round:
  assumes "got \<noteq> []" "\<not> announces (recv_buff (take 4096 got))"
  shows "snd (manager_round servers (Conn fd cli (Some got)))
    = [Send (case servers of [] \<Rightarrow> fd | s # _ \<Rightarrow> sn_fd s) (if servers = [] then no_backend else take 4096 got), Close fd]"
  using assms by (cases servers) (simp_all add: Let_def)

lemma hd_take: "0 < n \<Longrightarrow> (case take n xs of [] \<Rightarrow> a | s # _ \<Rightarrow> f s) = (case xs of [] \<Rightarrow> a | s # _ \<Rightarrow> f s)"
  by (cases xs; cases n) auto

text \<open>
  C25. The manager never balances: whatever connects in whatever order, it keeps the first 20 servers
  that announced themselves, in order, and every request of a client, cut to 4096 bytes, is sent
  to the first of them, or answered with an error when there is none, and the client's connection
  is closed without the answer of a backend.
\<close>

theorem manager_forwards_to_first:
  assumes "i < length xs" "xs ! i = Conn fd cli (Some got)" "got \<noteq> []" "\<not> announces (recv_buff (take 4096 got))"
  defines "earlier \<equiv> List.map_filter registers (take i xs)"
  shows "fst (manager_run [] xs) = take MAX_SERVER (List.map_filter registers xs)
    \<and> snd (manager_run [] xs) ! i
      = [Send (case earlier of [] \<Rightarrow> fd | s # _ \<Rightarrow> sn_fd s) (if earlier = [] then no_backend else take 4096 got), Close fd]"
proof -
  have f: "fst (manager_run [] ys) = take MAX_SERVER (List.map_filter registers ys)" for ys
    using run_servers [of "[]" ys] by simp
  have p: "0 < MAX_SERVER" by (simp add: MAX_SERVER_def)
  show ?thesis
    using f [of xs] run_nth [OF assms(1), of "[]"] client_round [OF assms(3,4), of "take MAX_SERVER earlier" fd cli]
      f [of "take i xs"] hd_take [OF p, where xs = earlier and a = fd and f = sn_fd] p assms(2) by (simp add: earlier_def)
qed

theorem manager_forwards_to_first_witness:
  "snd (manager_run [] [Conn 5 0 (Some (lit ''SERVER a'')), Conn 6 0 (Some (lit ''SERVER b'')), Conn 7 0 (Some (lit ''GET /''))]) ! 2
    = [Send 5 (lit ''GET /''), Close 7]"
proof -
  let ?xs = "[Conn 5 0 (Some (lit ''SERVER a'')), Conn 6 0 (Some (lit ''SERVER b'')), Conn 7 0 (Some (lit ''GET /''))]"
  have "\<not> announces (recv_buff (take 4096 (lit ''GET /'')))" by (simp add: announces_def recv_buff_def)
  moreover have "List.map_filter registers (take 2 ?xs)
      = [\<lparr>sn_fd = 5, sn_id = lit ''a'', sn_addr = 0\<rparr>, \<lparr>sn_fd = 6, sn_id = lit ''b'', sn_addr = 0\<rparr>]"
    by (simp add: List.map_filter_simps announces_def recv_buff_def strncpy_str_def)
  ultimately show ?thesis
    using manager_forwards_to_first [of 2 ?xs 7 0 "lit ''GET /''"] by simp
qed

text \<open>
  When 20 servers are registered, the next one that announces itself is closed and then answered
  \<open>OK\<close> on the closed descriptor; it is not registered.
\<close>

theorem manager_full_answers_after_close:
  assumes "length servers = MAX_SERVER" "got \<noteq> []" "announces (recv_buff (take 4096 got))"
  shows "manager_round servers (Conn fd cli (Some got)) = (servers, [Close fd, Send fd (lit ''OK'' @ [10])])"
  using assms by (simp add: register_server_def Let_def)

theorem manager_full_answers_after_close_witness:
  "manager_round (replicate 20 \<lparr>sn_fd = 4, sn_id = [], sn_addr = 0\<rparr>) (Conn 9 0 (Some (lit ''SERVER x'')))
    = (replicate 20 \<lparr>sn_fd = 4, sn_id = [], sn_addr = 0\<rparr>, [Close 9, Send 9 (lit ''OK'' @ [10])])"
  by (rule manager_full_answers_after_close) (simp_all add: MAX_SERVER_def announces_def recv_buff_def)

text \<open>
  C26. The handshake and the registration fit together: the message a server sends is recognised, and
  the id the manager stores is the server's id with the newline that ended the message, cut to 63
  bytes.
\<close>

theorem handshake_registers:
  assumes "handshake True True True server_id = Some msg" "0 \<notin> set server_id" "length server_id \<le> 247"
    and "length servers < MAX_SERVER"
  shows "manager_round servers (Conn fd cli (Some msg))
    = (servers @ [\<lparr>sn_fd = fd, sn_id = take 63 (server_id @ [10]), sn_addr = cli\<rparr>], [Send fd (lit ''OK'' @ [10])])"
proof -
  have m: "msg = lit ''SERVER '' @ server_id @ [10]" using assms(1,3) by (simp add: handshake_def)
  obtain n where n: "recv_buff (take 4096 msg) = lit ''SERVER '' @ (server_id @ [10]) @ replicate n 0" "0 < n"
    using m assms(3) by (auto simp: recv_buff_def)
  have "takeWhile (\<lambda>b. b \<noteq> 0) ((server_id @ [10]) @ replicate n 0) = server_id @ [10]"
  proof -
    obtain j where "replicate n (0 :: byte) = 0 # replicate j 0" using n(2) by (cases n) auto
    moreover have "0 \<notin> set (server_id @ [10])" using assms(2) by simp
    ultimately show ?thesis by (metis takeWhile_nul_append)
  qed
  then have "strncpy_str 63 (drop 7 (recv_buff (take 4096 msg))) = take 63 (server_id @ [10])"
    unfolding n(1) strncpy_str_def by simp
  moreover have "announces (recv_buff (take 4096 msg))" unfolding n(1) announces_def by simp
  moreover have "take 4096 msg \<noteq> []" using m by simp
  ultimately show ?thesis using assms(4) by (simp add: register_server_def Let_def)
qed

theorem handshake_registers_witness:
  "manager_round [] (Conn 3 0 (handshake True True True (lit ''node-1'')))
    = ([\<lparr>sn_fd = 3, sn_id = lit ''node-1'' @ [10], sn_addr = 0\<rparr>], [Send 3 (lit ''OK'' @ [10])])"
proof -
  obtain msg where m: "handshake True True True (lit ''node-1'') = Some msg" by (simp add: handshake_def)
  show ?thesis unfolding m using handshake_registers [OF m, of "[]" 3 0] by (simp add: MAX_SERVER_def)
qed

end
