(* ===== verification/Startup.thy ===== *)
theory Startup
  imports Server_Safety Manager
begin

text \<open>
  How the two programs of \<^verbatim>\<open>src/misc/www/www.c\<close> come up: \<^verbatim>\<open>http.c\<close> (\<open>CreateServer\<close>, \<open>setup_socket\<close>), the
  set-up part of \<open>worker_thread\<close>, \<open>server()\<close> and \<open>manager()\<close>. System calls are their outcomes. The worker threads run
  before the table is loaded; the routes are added last.
\<close>

section \<open>Worker threads\<close>

definition THREAD_COUNT :: nat where "THREAD_COUNT = 3"

text \<open>
  The calls made to set a socket up, in order. \<open>setup_socket\<close>: those on an accepted socket; none of their
  results is looked at. With the last one a \<open>read\<close> that has nothing to give returns at once.
\<close>

datatype sock_call =
  Tcp_nodelay int int
| So_keepalive int int
| So_sndbuf int int
| So_rcvbuf int int
| Tcp_quickack int int
| Set_nonblock int
| So_reuseaddr int int
| So_reuseport int int
| Bind_any int nat
| Listen int nat
| Epoll_in int

definition setup_socket :: "int \<Rightarrow> sock_call list" where
  "setup_socket fd =
     (let flags = 1; buff_size = 524288 in
      [Tcp_nodelay fd flags, So_keepalive fd flags, So_sndbuf fd buff_size, So_rcvbuf fd buff_size,
       Tcp_quickack fd flags, Set_nonblock fd])"

text \<open>
  A worker thread reaches its loop when \<open>epoll_create1\<close>, \<open>bind\<close> and \<open>listen\<close> succeed; it returns
  otherwise. The result of \<open>socket\<close> is not looked at: \<open>bind\<close> fails on a bad descriptor.
\<close>

definition worker_thread :: "bool \<times> bool \<times> bool \<Rightarrow> bool" where
  "worker_thread = (\<lambda>(epoll_ok, bind_ok, listen_ok). if \<not> epoll_ok then False else if \<not> bind_ok then False else listen_ok)"

text \<open>
  What the thread does to its listening socket \<open>fd\<close> on the way, and whether it reaches its loop. Each thread
  binds a socket of its own to the same port, which \<open>SO_REUSEPORT\<close> allows.
\<close>

definition PORT :: nat where "PORT = 9001"

definition open_listener :: "int \<Rightarrow> bool \<times> bool \<times> bool \<Rightarrow> sock_call list \<times> bool" where
  "open_listener fd = (\<lambda>(epoll_ok, bind_ok, listen_ok).
     if \<not> epoll_ok then ([], False)
     else let opt = 1; bound = [So_reuseaddr fd opt, So_reuseport fd opt, Bind_any fd PORT] in
       if \<not> bind_ok then (bound, False)
       else let heard = bound @ [Listen fd 4096] in
         if \<not> listen_ok then (heard, False) else (heard @ [Set_nonblock fd, Epoll_in fd], True))"

lemma open_listener_reaches:
  "snd (open_listener fd outcome) = worker_thread outcome"
  "worker_thread outcome \<longleftrightarrow> {Set_nonblock fd, Epoll_in fd} \<subseteq> set (fst (open_listener fd outcome))"
  by (auto simp: open_listener_def worker_thread_def Let_def split: prod.splits)

text \<open>\<open>CreateServer\<close>: \<open>NULL\<close> when the pool cannot be mapped, otherwise the threads that reach their loop.\<close>

definition create_server :: "bool \<Rightarrow> (nat \<Rightarrow> bool \<times> bool \<times> bool) \<Rightarrow> nat list option" where
  "create_server mmap_ok outcome =
     (if \<not> mmap_ok then None else Some (filter (\<lambda>i. worker_thread (outcome i)) [0..<THREAD_COUNT]))"

section \<open>The server\<close>

text \<open>
  \<open>server()\<close>: the threads, then the log, the table and the replay, then the routes one by one. What
  the threads see in between are the partial route tables.
\<close>

definition boot_routes :: "nat \<Rightarrow> handler route list" where
  "boot_routes n = take n server_routes"

definition server_main ::
    "bool \<Rightarrow> (nat \<Rightarrow> bool \<times> bool \<times> bool) \<Rightarrow> mem \<Rightarrow> bytes option \<Rightarrow> bytes option \<Rightarrow> (nat \<Rightarrow> nat \<Rightarrow> byte) \<Rightarrow> bytes \<Rightarrow> int
     \<Rightarrow> (nat list option \<times> server) res option" where
  "server_main mmap_ok outcome m logfile snapshot stack line now =
     (let threads = create_server mmap_ok outcome in
      map_option (map_sum id (\<lambda>st. (threads, st))) (server_start m logfile snapshot stack line now))"

text \<open>The server program: the handshake, whose outcome is not looked at, and the server.\<close>

definition main_server ::
    "bool \<Rightarrow> bool \<Rightarrow> bool \<Rightarrow> bool \<Rightarrow> (nat \<Rightarrow> bool \<times> bool \<times> bool) \<Rightarrow> mem \<Rightarrow> bytes option \<Rightarrow> bytes option
     \<Rightarrow> (nat \<Rightarrow> nat \<Rightarrow> byte) \<Rightarrow> bytes \<Rightarrow> int \<Rightarrow> bytes option \<times> (nat list option \<times> server) res option" where
  "main_server socket_ok pton_ok connect_ok mmap_ok outcome m logfile snapshot stack line now =
     (handshake socket_ok pton_ok connect_ok (lit ''testing''),
      server_main mmap_ok outcome m logfile snapshot stack line now)"

text \<open>\<open>manager()\<close>: no loop without a listening socket.\<close>

definition manager :: "bool \<Rightarrow> bool \<Rightarrow> incoming list \<Rightarrow> (server_n list \<times> action list list) option" where
  "manager bind_ok listen_ok xs =
     (if \<not> bind_ok then None else if \<not> listen_ok then None else Some (manager_run [] xs))"

text \<open>The manager program is a call of \<open>manager\<close>; its arguments are not looked at.\<close>

definition main_manager :: "bool \<Rightarrow> bool \<Rightarrow> incoming list \<Rightarrow> (server_n list \<times> action list list) option" where
  "main_manager bind_ok listen_ok xs = manager bind_ok listen_ok xs"

section \<open>Requests while the server starts\<close>

lemma find_route_prefix:
  "find_route (take n rs) buf rq = None \<or> find_route (take n rs) buf rq = find_route rs buf rq"
proof (induction rs arbitrary: n)
  case (Cons r rs)
  then show ?case by (cases n) auto
qed simp

text \<open>
  No handler runs on a table that is not loaded: with \<open>n\<close> routes added a request is answered as by
  the complete server or with 404, the state unchanged; before the first route, which is added after
  the replay, always with 404. So the start-up race of \<open>server()\<close> refuses requests and corrupts nothing.
\<close>

theorem boot_refuses_requests:
  "(route_req (boot_routes n) buf rq st = Some (Inr (handle_404, st))
      \<or> route_req (boot_routes n) buf rq st = route_req server_routes buf rq st)
    \<and> route_req (boot_routes 0) buf rq st = Some (Inr (handle_404, st))
    \<and> boot_routes 3 = server_routes"
  using find_route_prefix [of n server_routes buf rq]
  by (auto simp: route_req_def boot_routes_def routes_list)

text \<open>A server none of whose threads could start comes up all the same and serves nobody.\<close>

theorem server_main_ignores_threads:
  assumes "server_start m logfile snapshot stack line now = Some (Inr st)"
    and "\<not> mmap_ok \<or> (\<forall>i. \<not> worker_thread (outcome i))"
  shows "\<exists>threads. server_main mmap_ok outcome m logfile snapshot stack line now = Some (Inr (threads, st))
    \<and> (threads = None \<or> threads = Some [])"
  using assms by (auto simp: server_main_def create_server_def Let_def)

theorem server_main_ignores_threads_witness:
  "\<exists>st. server_main False (\<lambda>_. (True, True, True)) (mem_init 1000) None (Some (save_header 0 1 @ [])) (\<lambda>_ _. 0) [] 0
    = Some (Inr (None, st))"
proof -
  obtain st where "server_start (mem_init 1000) None (Some (save_header 0 1 @ [])) (\<lambda>_ _. 0) [] 0 = Some (Inr st)"
    using start_without_table by blast
  then show ?thesis using server_main_ignores_threads [of "mem_init 1000"] by (auto simp: server_main_def create_server_def)
qed

text \<open>The two programs together: the server announces itself as \<open>testing\<close> and the manager registers it.\<close>

lemma main_server_registers:
  assumes "fst (main_server True True True mmap_ok outcome m logfile snapshot stack line now) = Some msg"
  shows "announces (recv_buff (take 4096 msg))"
    "main_manager True True [Conn fd cli (Some msg)]
      = Some ([\<lparr>sn_fd = fd, sn_id = lit ''testing'' @ [10], sn_addr = cli\<rparr>], [[Send fd (lit ''OK'' @ [10])]])"
proof -
  have m: "msg = lit ''SERVER testing'' @ [10]" using assms by (simp add: main_server_def handshake_def)
  have r: "take 6 (recv_buff (take 4096 msg)) = lit ''SERVER''"
    "strncpy_str 63 (drop 7 (recv_buff (take 4096 msg))) = lit ''testing'' @ [10]"
    unfolding m by (simp_all add: recv_buff_def strncpy_str_def)
  then show a: "announces (recv_buff (take 4096 msg))" by (simp add: announces_def)
  have "take 4096 msg \<noteq> []" using m by simp
  then show "main_manager True True [Conn fd cli (Some msg)]
      = Some ([\<lparr>sn_fd = fd, sn_id = lit ''testing'' @ [10], sn_addr = cli\<rparr>], [[Send fd (lit ''OK'' @ [10])]])"
    using a r(2) by (simp add: main_manager_def manager_def register_server_def Let_def MAX_SERVER_def)
qed

end
