(* ===== verification/Spec2Isabelle.thy ===== *)
theory Spec2Isabelle
  imports Hash Arena Hashmap_Props Ring_Weak Shard_Linear Aof_Props Storage_Props Server_Linear
    Server_Unlocked Server_Snapshot Server_Restart Startup
begin

text \<open>
  A verification library for OrcaDB, a key-value store in C: hash tables behind shards with ring
  buffers (\<^verbatim>\<open>src/core\<close>), an append-only log and snapshots (\<^verbatim>\<open>src/core/storage\<close>), and an HTTP server and
  a manager in front (\<^verbatim>\<open>src/misc\<close>). Paths below are relative to the repository's \<^verbatim>\<open>src\<close>.

  \<^bold>\<open>The program and its theories.\<close>

  \<^item> \<open>Orca_Prelude\<close>: results \<open>'a res = fault + 'a\<close> (a fault is what C leaves undefined: a null or freed
    pointer, an access out of bounds, a signed overflow), bytes, literals, little-endian words, facts on
    lists and words. \<open>C_Memory\<close>: objects from \<open>malloc\<close> as numbered blocks of bytes, pointers as block and
    offset, \<open>strlen\<close>, \<open>memcmp\<close>, \<open>memcpy\<close>, \<open>free\<close>; \<open>avail\<close> is what the allocator can still give, so
    that running out of memory is a branch. \<open>C_Stdio\<close>: decimal output and scanning, \<open>fgets\<close>, and streams
    in three stages (process buffer, file, disk).
  \<^item> \<open>Hash\<close> (\<^verbatim>\<open>core/hash/hash.c\<close>): \<open>FNV_1a\<close>, \<open>djb2\<close>, \<open>xxhash64\<close> on machine words.
  \<^item> \<open>Arena\<close> (\<^verbatim>\<open>core/arena/arena.c\<close>): \<open>arena_create\<close>, \<open>arena_alloc\<close>, \<open>arena_reset\<close>, \<open>arena_free\<close>; the
    struct is the record \<open>arena\<close>, its memory one block.
  \<^item> \<open>Hashmap\<close> (\<^verbatim>\<open>core/hashmap/hashmap.c\<close>): the record \<open>hashmap\<close> with its bucket array as a list of \<open>hm_node\<close>;
    \<open>hm_create\<close>, \<open>hm_insert\<close>, \<open>hm_get\<close>, \<open>hm_delete\<close>, \<open>hm_free\<close>. The probe loops have no bound in C and are
    \<open>partial_function (option)\<close>: \<open>None\<close> is a loop that does not end. \<open>Hashmap_Probing\<close> holds the Robin
    Hood invariant \<open>hm_ok\<close> and the map \<open>hm_view\<close> a table stands for, \<open>Hashmap_Props\<close> the contract (locale
    \<open>kv_table\<close>), \<open>Hashmap_Frame\<close> the table over a larger memory, \<open>Hashmap_Safety\<close> the weaker invariant
    \<open>hm_safe\<close> that survives deletions, \<open>Hashmap_Dangling\<close> the table whose keys have been freed (\<open>gone\<close>),
    compared with itself over the memory that still has them.
  \<^item> \<open>RingBuffer\<close> (\<^verbatim>\<open>core/shard/ringbuffer\<close>): the ring with its 64-bit counters, run by one thread;
    \<open>Ring_Interleaving\<close>: its loads, stores and array accesses as separate steps of several threads, on
    sequentially consistent memory; \<open>Ring_Weak\<close>: the same steps with the memory orders the code names, on
    the memory of \<open>Weak_Memory\<close>, the release/acquire part of C11: a load may return an old value, and two plain
    accesses that nothing orders are a fault, \<open>DataRace\<close>.
  \<^item> \<open>Shard\<close> (\<^verbatim>\<open>core/shard/shard.c\<close>, \<^verbatim>\<open>proc.h\<close>, \<^verbatim>\<open>core/orca.c\<close>): requests \<open>proc_t\<close> as objects in memory, a
    round of \<open>shard_worker\<close>, \<open>shard_init\<close>, \<open>db_start\<close>, \<open>db_insert\<close>, \<open>db_get\<close>, \<open>orca_init\<close>. \<open>Shard_Memory\<close>,
    \<open>Shard_Props\<close> and \<open>Shard_Service\<close> relate ring, worker, arenas and table; \<open>Shard_Linear\<close> interleaves
    the client's writes to the ring with the worker's rounds (\<open>shard_step\<close>).
  \<^item> \<open>Aof\<close> (\<^verbatim>\<open>core/storage/aof.c\<close>): open, append, sync, replay, rewrite, close. \<open>Aof_Codec\<close>: the records and
    their reader (locale \<open>line_log\<close>); \<open>Aof_Props\<close>: recovery; \<open>Aof_Restart\<close>: replay of any log. \<open>Storage\<close>, \<open>Storage_Props\<close>
    (\<^verbatim>\<open>core/storage/storage.c\<close>): snapshots.
  \<^item> \<open>Http_Parse\<close>, \<open>Http_Props\<close> (\<^verbatim>\<open>misc/http/parse.c\<close>): the parser over the receive buffer, pointers into it
    as indices. \<open>Http_Conn\<close>, \<open>Http_Conn_Props\<close>, \<open>Http_Serving\<close> (\<^verbatim>\<open>conn.c\<close>, \<^verbatim>\<open>response.c\<close>, \<^verbatim>\<open>route.c\<close>): a connection
    as a state machine driven by what its socket delivers and takes. \<open>Http_Service\<close>: what a handler must
    promise (locale \<open>service\<close>). \<open>Http_Worker\<close> (\<^verbatim>\<open>worker.c\<close>): the event loop over all connections as a step
    relation. \<open>Http_Pieces\<close>: requests that arrive in pieces.
  \<^item> \<open>Server\<close> (\<^verbatim>\<open>misc/server.c\<close>, \<^verbatim>\<open>misc/handler/server.handler.c\<close>): the record \<open>server\<close> holds the globals \<open>db\<close> and
    \<open>global\<close> with the memory they live in; the three handlers, the routes, start-up, a snapshot round.
    \<open>Server_Props\<close>, \<open>Server_Service\<close>, \<open>Server_Safety\<close>: requests as bytes, through parser, routes, table and
    log, and back as bytes. \<open>Server_Map\<close> is the map the server stands for, with PUT and GET commands;
    \<open>Server_Session\<close> refines it to one client on one connection, \<open>Server_Linear\<close> to any number of clients
    in any schedule of the event loop. \<open>Server_Unlocked\<close>: the copy \<open>get_handler\<close> makes after it has
    unlocked; \<open>Server_Snapshot\<close>: the snapshot thread; \<open>Server_Restart\<close>: a server started from its log.
  \<^item> \<open>Manager\<close> (\<^verbatim>\<open>misc/manager.c\<close>, \<open>handshake\<close>), \<open>Startup\<close> (\<^verbatim>\<open>misc/http/http.c\<close>, \<^verbatim>\<open>misc/www/www.c\<close>): the manager as
    a trace of actions, and how the programs come up.

  \<^bold>\<open>Interfaces.\<close> \<open>kv_table\<close> says what a store does to the map a component stands for; its clients' lemmas on
  runs of stores are proved once, and it is interpreted for the table and for the HTTP server.
  \<open>bounded_fifo\<close> is a queue with a capacity, interpreted for the ring; \<open>region_allocator\<close> hands out regions
  that stay apart, interpreted for the arena; \<open>byte_hash\<close> is a hash that folds over bytes, interpreted
  for \<open>FNV_1a\<close> and \<open>djb2\<close>. \<open>line_log\<close> says that a record is one line its reader gives back, and is
  interpreted for the log. \<open>service\<close> says that a handler answers any request the parser can deliver with
  a response that fits; from it follows that no schedule of any number of connections faults. It is
  interpreted for the echo handler and for the routes of the database server.

  \<^bold>\<open>What is shown.\<close> For each component its invariant and that the operations keep it, the behaviour of
  the operations on every branch, and where the code has a contract a refinement: the table, the shard
  and the server are finite maps under stores and loads; the ring is a queue, for one thread and for
  one writer and one reader interleaved step by step, also on weak memory if \<open>rBuff_read\<close> loads \<open>hp\<close>
  with acquire; server and shard are linearizable: whatever the
  schedule, the answers are those of one run of the requests on the map, in an order that keeps each
  client's own, and the log of the server reads as the stores of that run; the value a GET copies
  outside the lock is the one the key had; \<open>xxhash64\<close> equals a reference over a list of
  blocks; a rendered request parses back; the log reads back as the commands issued, with what each
  sync policy can lose in a crash; every client is sent the responses to its own requests, in order;
  the database server takes every step that is due without a fault while memory and unused buckets
  last, whatever clients send.

  The other theorems state exactly where the code does not do what it means to: deletion leaves every
  lookup as it was and breaks the probing of later insertions; a full table drops a key; the ring of a
  shard can be overrun, and with the orders the code names every read of an entry is a data race; \<open>db_insert\<close> and \<open>db_get\<close> cannot be used as written; a snapshot and a log rewrite
  never end; a saved file is never loaded; a log or file that is loaded leaves a table without keys, so
  the server that was restarted faults on every stored key, or does not come up; a value with
  a newline is replayed as a command; a pipelined request waits for more bytes.

  \<^bold>\<open>Bounds.\<close> Integers keep their width: \<open>u64\<close>, \<open>u32\<close>, \<open>u16\<close> and bytes are words, and \<open>int\<close> counters of the
  parser are checked for overflow. There is no fuel: loops the code bounds are structural or have a
  measure, and the others are \<open>partial_function (option)\<close>, where termination is proved as a result that
  is \<open>Some\<close>, and non-termination as a result that is never a value. A table holds at most 65536 entries
  in the map theorems, since \<open>dib\<close> has 16 bits, and keys of at most 65535 bytes, since \<open>key_len\<close> has 16.
  The server needs 32770 bytes for the copies of one request, twice the receive buffer.

  \<^bold>\<open>Parameters.\<close> What the environment decides is an argument: the outcome of allocations, of file calls and
  of \<open>fork\<close>; the clock; the bytes a socket delivers and how many it takes; what uninitialised arrays
  hold; the schedule. No property of them is assumed except where a theorem names it.

  \<^bold>\<open>Not modelled.\<close> CPU affinity and the creation of threads; of the calls that set sockets up only
  their order, arguments and success. The mutex is what makes a request one step of the event loop,
  except for the copy of \<open>get_handler\<close>, which \<open>Server_Unlocked\<close> treats. The linearizability of the
  server covers PUT and GET: a PUT after a DELETE can make a third key disappear, so with DELETE it does
  not hold.
  Weak memory is modelled for the ring alone. Its loads see values stored before them, never later; fences
  and atomic read-modify-writes, which the ring does not use, are left out. The flag \<open>done\<close> of a request
  is stored sequentially consistent and loaded with acquire.
  Messages printed are left out, except where they are the result. The state \<open>CONN_PROXY\<close> is declared
  and never used; \<open>_insert\<close> and \<open>_get\<close> of \<^verbatim>\<open>orca.c\<close> have empty bodies. The declarations
  in headers, tests, load scripts and packaging are left out.
\<close>

end
